(* ===== verification/Psy_Prelude.thy ===== *)
theory Psy_Prelude
  imports Main "HOL-Library.Word" "HOL-Library.Monad_Syntax" "HOL-Library.Multiset"
begin

unbundle bit_operations_syntax

text \<open>
  Shared vocabulary of the development.

  \<^item> The widths of the machine integers of the Rust sources. A \<open>usize\<close> that counts the
    elements of a \<open>Vec\<close> is a \<open>nat\<close>: a vector never holds more than \<open>isize::MAX\<close> bytes.
  \<^item> The workspace builds with the default release profile (\<open>src/Cargo.toml\<close>, section
    \<open>profile.release\<close>, sets no \<open>overflow-checks\<close>): \<open>+\<close>, \<open>-\<close> and \<open>*\<close> wrap around, and a
    shift of a 64-bit value masks its amount to six bits (\<open>shl64\<close>, \<open>shr64\<close>).
  \<^item> A Rust panic is \<open>None\<close> and a Rust \<open>Result\<close> is a sum with the error on the left.
  \<^item> Generic lemmas on words, lists and maps that the components share.
\<close>

type_synonym u8 = "8 word"
type_synonym u16 = "16 word"
type_synonym u32 = "32 word"
type_synonym u64 = "64 word"

named_theorems key_simps \<open>unfolding rules of the Merkle node key operations\<close>
named_theorems wire_simps \<open>round-trip rules of the wire codec\<close>

section \<open>Shifts of the release profile\<close>

definition shl64 :: "u64 \<Rightarrow> nat \<Rightarrow> u64" where
  "shl64 x n = push_bit (n mod 64) x"

definition shr64 :: "u64 \<Rightarrow> nat \<Rightarrow> u64" where
  "shr64 x n = drop_bit (n mod 64) x"

lemma shl64_small [simp]: "n < 64 \<Longrightarrow> shl64 x n = push_bit n x"
  by (simp add: shl64_def)

lemma shr64_small [simp]: "n < 64 \<Longrightarrow> shr64 x n = drop_bit n x"
  by (simp add: shr64_def)

lemma bit_test_u64: "i < 64 \<Longrightarrow> (x AND shl64 1 i = 0) = (\<not> bit x i)" for x :: u64
  by (simp add: bit_iff_and_push_bit_not_eq_0)

lemma and_one_u64: "(x AND 1 = 0) = (\<not> bit x 0)" "(x AND 1 = 1) = bit x 0" for x :: u64
  by (simp_all add: and_one_eq bit_0 mod2_eq_if)

lemma unat_of_nat_u64: "n < 2 ^ 64 \<Longrightarrow> unat (of_nat n :: u64) = n"
  by (simp add: unat_of_nat)

lemma of_nat_u64_inj: "i < 2 ^ 64 \<Longrightarrow> j < 2 ^ 64 \<Longrightarrow> (of_nat i :: u64) = of_nat j \<longleftrightarrow> i = j"
  by (simp add: word_of_nat_eq_iff take_bit_nat_eq_self)

section \<open>Bytes of machine integers\<close>

definition le_bytes :: "nat \<Rightarrow> 'a::len word \<Rightarrow> u8 list" where
  "le_bytes n x = map (\<lambda>i. ucast (drop_bit (8 * i) x)) [0..<n]"

fun from_le_bytes :: "u8 list \<Rightarrow> 'a::len word" where
  "from_le_bytes [] = 0"
| "from_le_bytes (b # bs) = ucast b OR push_bit 8 (from_le_bytes bs)"

lemma length_le_bytes [simp]: "length (le_bytes n x) = n"
  by (simp add: le_bytes_def)

lemma le_bytes_0 [simp]: "le_bytes 0 x = []"
  by (simp add: le_bytes_def)

lemma le_bytes_Suc: "le_bytes (Suc n) x = ucast x # le_bytes n (drop_bit 8 x)"
  by (simp add: le_bytes_def upt_conv_Cons drop_bit_drop_bit map_Suc_upt [symmetric] add.commute
      del: upt_Suc)

lemma bit_from_le_bytes:
  "bit (from_le_bytes bs :: 'a::len word) n \<longleftrightarrow>
     n < LENGTH('a) \<and> n div 8 < length bs \<and> bit (bs ! (n div 8)) (n mod 8)"
proof (induction bs arbitrary: n)
  case (Cons b bs)
  show ?case
    using Cons.IH[of "n - 8"]
    by (cases "n < 8") (auto simp: bit_simps le_div_geq le_mod_geq dest: bit_imp_le_length)
qed simp

lemma from_le_bytes_le_bytes [simp, wire_simps]:
  "LENGTH('a) \<le> 8 * n \<Longrightarrow> from_le_bytes (le_bytes n x) = (x :: 'a::len word)"
  by (rule bit_word_eqI) (auto simp: bit_from_le_bytes le_bytes_def bit_simps)

lemma le_bytes_from_le_bytes [simp]:
  "8 * length bs \<le> LENGTH('a) \<Longrightarrow> n = length bs \<Longrightarrow>
   le_bytes n (from_le_bytes bs :: 'a::len word) = bs"
  by (rule nth_equalityI)
    (auto simp: le_bytes_def bit_from_le_bytes bit_simps intro!: bit_word_eqI)

end
