(* ===== verification/Node_Key.thy ===== *)
theory Node_Key
  imports Psy_Prelude
begin

unbundle bit_operations_syntax

text \<open>
  Merkle node keys (\<open>src/parth_core/src/data/hash/merkle_node_key.rs\<close>, \<open>SimpleMerkleNodeKey\<close>):
  a node is a level below the root and an index in that level. This theory holds the key type
  with its \<open>Ord\<close> instance, navigation (parent, children, siblings, ancestors, nearest common
  ancestor), the paths and sibling lists a Merkle proof walks, and the byte encodings, with
  the facts that relate them to the ancestor order on valid keys.
\<close>

section \<open>The key type and its order\<close>

datatype node_key = Node_Key (nk_level: u8) (nk_index: u64)

text \<open>\<open>impl Ord for SimpleMerkleNodeKey\<close>: by level, then by index.\<close>

instantiation node_key :: linorder
begin

definition less_eq_node_key :: "node_key \<Rightarrow> node_key \<Rightarrow> bool" where
  "less_eq_node_key a b \<longleftrightarrow>
     (if nk_level a \<noteq> nk_level b then nk_level a < nk_level b else nk_index a \<le> nk_index b)"

definition less_node_key :: "node_key \<Rightarrow> node_key \<Rightarrow> bool" where
  "less_node_key a b \<longleftrightarrow>
     (if nk_level a \<noteq> nk_level b then nk_level a < nk_level b else nk_index a < nk_index b)"

instance
  by intro_classes
    (auto simp: less_eq_node_key_def less_node_key_def node_key.expand split: if_splits)

end

section \<open>Ranges of keys in one level\<close>

definition from_inds_at_level :: "u8 \<Rightarrow> u64 list \<Rightarrow> node_key list" where
  "from_inds_at_level level indices = map (\<lambda>index. Node_Key level index) indices"

definition get_range_at_level :: "u8 \<Rightarrow> u64 \<Rightarrow> nat \<Rightarrow> node_key list" where
  "get_range_at_level level start_index cnt =
     map (\<lambda>i. Node_Key level (start_index + of_nat i)) [0..<cnt]"

definition get_even_nodes_in_range_at_level :: "u8 \<Rightarrow> u64 \<Rightarrow> nat \<Rightarrow> node_key list" where
  "get_even_nodes_in_range_at_level level start_index cnt =
     map (\<lambda>i. Node_Key level (start_index + 2 * of_nat i)) [0..<cnt]"

definition get_odd_nodes_in_range_at_level :: "u8 \<Rightarrow> u64 \<Rightarrow> nat \<Rightarrow> node_key list" where
  "get_odd_nodes_in_range_at_level level start_index cnt =
     map (\<lambda>i. Node_Key level (start_index + 2 * of_nat i + 1)) [0..<cnt]"

text \<open>The buffer is an array of \<open>N\<close> keys; only its first \<open>min N cnt\<close> slots are written.\<close>

definition populate_range_at_level_fixed_with_max ::
  "node_key list \<Rightarrow> u8 \<Rightarrow> u64 \<Rightarrow> nat \<Rightarrow> node_key list" where
  "populate_range_at_level_fixed_with_max buf level start_index cnt =
     fold (\<lambda>i b. b[i := Node_Key level (start_index + of_nat i)]) [0..<min (length buf) cnt] buf"

definition populate_range_at_level_fixed :: "node_key list \<Rightarrow> u8 \<Rightarrow> u64 \<Rightarrow> node_key list" where
  "populate_range_at_level_fixed buf level start_index =
     fold (\<lambda>i b. b[i := Node_Key level (start_index + of_nat i)]) [0..<length buf] buf"

section \<open>Navigation\<close>

definition new_root :: node_key where
  "new_root = Node_Key 0 0"

definition first_leaf_for_height :: "node_key \<Rightarrow> u8 \<Rightarrow> node_key" where
  "first_leaf_for_height k height =
     (if height \<le> nk_level k then k
      else let diff = unat (height - nk_level k)
           in Node_Key height (shl64 1 diff * nk_index k))"

definition JOB_ID_EMPTY_REWARD_PATH_INFO :: u64 where
  "JOB_ID_EMPTY_REWARD_PATH_INFO = 0xFFFFFFFFFFFFFFFF"

definition to_reward_path_info :: "node_key \<Rightarrow> u64" where
  "to_reward_path_info k = shl64 (ucast (nk_level k)) 56 OR (nk_index k AND 0x00FFFFFFFFFFFFFF)"

definition from_reward_path_info :: "u64 \<Rightarrow> node_key" where
  "from_reward_path_info reward_path_info =
     Node_Key (ucast (shr64 reward_path_info 56)) (reward_path_info AND 0x00FFFFFFFFFFFFFF)"

definition is_empty_reward_path :: "node_key \<Rightarrow> bool" where
  "is_empty_reward_path k \<longleftrightarrow> to_reward_path_info k = JOB_ID_EMPTY_REWARD_PATH_INFO"

definition sibling :: "node_key \<Rightarrow> node_key" where
  "sibling k = Node_Key (nk_level k) (nk_index k XOR 1)"

definition parent :: "node_key \<Rightarrow> node_key" where
  "parent k = (if nk_level k = 0 then k else Node_Key (nk_level k - 1) (shr64 (nk_index k) 1))"

text \<open>The loop shared by \<open>siblings\<close> and \<open>siblings_to_level\<close>: a counted walk to the root.\<close>

fun siblings_walk :: "nat \<Rightarrow> node_key \<Rightarrow> node_key list" where
  "siblings_walk 0 current = []"
| "siblings_walk (Suc n) current = sibling current # siblings_walk n (parent current)"

definition siblings :: "node_key \<Rightarrow> node_key list" where
  "siblings k = siblings_walk (unat (nk_level k)) k"

definition siblings_to_level :: "node_key \<Rightarrow> u8 \<Rightarrow> node_key list" where
  "siblings_to_level k to_level =
     (if to_level \<ge> nk_level k then []
      else siblings_walk (unat (nk_level k - to_level)) k)"

definition first_leaf_child :: "node_key \<Rightarrow> u8 \<Rightarrow> node_key" where
  "first_leaf_child k tree_height =
     (if nk_level k \<ge> tree_height then k
      else Node_Key tree_height (shl64 (nk_index k) (unat (tree_height - nk_level k))))"

definition left_child :: "node_key \<Rightarrow> node_key" where
  "left_child k = Node_Key (nk_level k + 1) (shl64 (nk_index k) 1)"

definition right_child :: "node_key \<Rightarrow> node_key" where
  "right_child k = Node_Key (nk_level k + 1) (shl64 (nk_index k) 1 + 1)"

definition n_th_ancestor :: "node_key \<Rightarrow> u8 \<Rightarrow> node_key" where
  "n_th_ancestor k levels_above =
     (if levels_above \<ge> nk_level k then new_root
      else Node_Key (nk_level k - levels_above) (shr64 (nk_index k) (unat levels_above)))"

text \<open>\<open>None\<close> is the panic "given level is not above this node".\<close>

definition parent_at_level :: "node_key \<Rightarrow> u8 \<Rightarrow> node_key option" where
  "parent_at_level k level =
     (if level > nk_level k then None else Some (n_th_ancestor k (nk_level k - level)))"

definition is_direct_path_related :: "node_key \<Rightarrow> node_key \<Rightarrow> bool option" where
  "is_direct_path_related k other =
     (if nk_level other = nk_level k then Some (nk_index k = nk_index other)
      else if nk_level other < nk_level k
      then map_option (\<lambda>p. nk_index p = nk_index other) (parent_at_level k (nk_level other))
      else map_option (\<lambda>p. nk_index p = nk_index k) (parent_at_level other (nk_level k)))"

definition is_on_the_right_of :: "node_key \<Rightarrow> node_key \<Rightarrow> bool option" where
  "is_on_the_right_of k other =
     (if nk_level other = nk_level k then Some (nk_index k > nk_index other)
      else if nk_level other < nk_level k
      then map_option (\<lambda>p. nk_index p > nk_index other) (parent_at_level k (nk_level other))
      else map_option (\<lambda>p. nk_index k > nk_index p) (parent_at_level other (nk_level k)))"

definition is_to_the_left_of :: "node_key \<Rightarrow> node_key \<Rightarrow> bool option" where
  "is_to_the_left_of k other =
     (if nk_level other = nk_level k then Some (nk_index k < nk_index other)
      else if nk_level other < nk_level k
      then map_option (\<lambda>p. nk_index p < nk_index other) (parent_at_level k (nk_level other))
      else map_option (\<lambda>p. nk_index k < nk_index p) (parent_at_level other (nk_level k)))"

definition is_left_sibling :: "node_key \<Rightarrow> bool" where
  "is_left_sibling k \<longleftrightarrow> nk_index k mod 2 = 0"

definition is_right_sibling :: "node_key \<Rightarrow> bool" where
  "is_right_sibling k \<longleftrightarrow> nk_index k mod 2 = 1"

section \<open>Nearest common ancestor\<close>

text \<open>The while loop ends only when both walks meet; a walk that never meets is \<open>None\<close>.\<close>

partial_function (option) nca_loop :: "node_key \<Rightarrow> node_key \<Rightarrow> node_key option" where
  "nca_loop self_current other_current =
     (if other_current = self_current then Some self_current
      else nca_loop (parent self_current) (parent other_current))"

definition find_nearest_common_ancestor :: "node_key \<Rightarrow> node_key \<Rightarrow> node_key option" where
  "find_nearest_common_ancestor k other =
     (let start_level = min (nk_level other) (nk_level k) in
      do { self_current \<leftarrow> parent_at_level k start_level;
           other_current \<leftarrow> parent_at_level other start_level;
           nca_loop self_current other_current })"

section \<open>Paths to the root\<close>

text \<open>\<open>while my_node.level != to_level\<close>, collecting the siblings.\<close>

partial_function (option) siblings_until ::
  "u8 \<Rightarrow> node_key \<Rightarrow> node_key list \<Rightarrow> node_key list option" where
  "siblings_until to_level my_node acc =
     (if nk_level my_node = to_level then Some acc
      else siblings_until to_level (parent my_node) (acc @ [sibling my_node]))"

definition get_siblings_keys_to_height :: "node_key \<Rightarrow> u8 \<Rightarrow> node_key list option" where
  "get_siblings_keys_to_height k to_level =
     (if to_level > nk_level k then Some [] else siblings_until to_level k [])"

text \<open>\<open>while my_node.level != to_level\<close>, collecting the nodes; the last node is returned too.\<close>

partial_function (option) path_until ::
  "u8 \<Rightarrow> node_key \<Rightarrow> node_key list \<Rightarrow> (node_key list \<times> node_key) option" where
  "path_until to_level my_node acc =
     (if nk_level my_node = to_level then Some (acc, my_node)
      else path_until to_level (parent my_node) (acc @ [my_node]))"

definition get_above_path_to_height :: "node_key \<Rightarrow> u8 \<Rightarrow> bool \<Rightarrow> node_key list option" where
  "get_above_path_to_height k to_level include_root =
     (if to_level \<ge> nk_level k then Some []
      else do { (path_node_keys, my_node) \<leftarrow> path_until to_level (parent k) [];
                Some (if include_root then path_node_keys @ [my_node] else path_node_keys) })"

definition get_above_path_without_root :: "node_key \<Rightarrow> node_key list option" where
  "get_above_path_without_root k = get_above_path_to_height k 0 False"

definition get_above_path_including_root :: "node_key \<Rightarrow> node_key list option" where
  "get_above_path_including_root k = get_above_path_to_height k 0 True"

definition saturating_succ :: "u8 \<Rightarrow> u8" where
  "saturating_succ x = (if x = 255 then 255 else x + 1)"

text \<open>\<open>while my_node.level > stop_level\<close>: the level falls by one in every iteration.\<close>

fun path_above_loop :: "nat \<Rightarrow> u8 \<Rightarrow> node_key \<Rightarrow> node_key list" where
  "path_above_loop 0 stop_level my_node = []"
| "path_above_loop (Suc n) stop_level my_node =
     (if nk_level my_node > stop_level
      then parent my_node # path_above_loop n stop_level (parent my_node)
      else [])"

definition get_path_above_self_to_level :: "node_key \<Rightarrow> u8 \<Rightarrow> bool \<Rightarrow> node_key list" where
  "get_path_above_self_to_level k sub_root_level include_sub_root =
     (if sub_root_level \<ge> nk_level k then []
      else let stop_level = (if include_sub_root then sub_root_level
                             else saturating_succ sub_root_level)
           in if stop_level > nk_level k then []
              else path_above_loop (unat (nk_level k)) stop_level k)"

section \<open>Byte encodings\<close>

text \<open>\<open>QPDSerializable\<close> writes the index big-endian; \<open>FastFixedSerializable\<close> little-endian.\<close>

definition key_to_bytes :: "node_key \<Rightarrow> u8 list" where
  "key_to_bytes k = nk_level k # rev (le_bytes 8 (nk_index k))"

definition key_from_bytes :: "u8 list \<Rightarrow> string + node_key" where
  "key_from_bytes bytes =
     (if length bytes = 9
      then Inr (Node_Key (bytes ! 0) (from_le_bytes (rev (take 8 (drop 1 bytes)))))
      else Inl ''error deserializing SimpleMerkleNodeKey, expected 9 bytes'')"

definition key_ffs_to_bytes :: "node_key \<Rightarrow> u8 list" where
  "key_ffs_to_bytes k = nk_level k # le_bytes 8 (nk_index k)"

text \<open>\<open>None\<close> is the out-of-range slice panic.\<close>

definition key_ffs_from_slice_or_panic :: "u8 list \<Rightarrow> node_key option" where
  "key_ffs_from_slice_or_panic data =
     (if length data < 9 then None
      else Some (Node_Key (data ! 0) (from_le_bytes (take 8 (drop 1 data)))))"

definition key_ffs_try_from_slice :: "u8 list \<Rightarrow> string + node_key" where
  "key_ffs_try_from_slice data =
     (if length data \<noteq> 9
      then Inl ''invalid length for SimpleMerkleNodeKey, expected 9 bytes''
      else Inr (Node_Key (data ! 0) (from_le_bytes (take 8 (drop 1 data)))))"

section \<open>Valid keys and the ancestor order\<close>

abbreviation lev :: "node_key \<Rightarrow> nat" where
  "lev k \<equiv> unat (nk_level k)"

text \<open>A key names a node of a tree of height at most 64: its index fits in its level.\<close>

definition valid_key :: "node_key \<Rightarrow> bool" where
  "valid_key k \<longleftrightarrow> lev k \<le> 64 \<and> drop_bit (lev k) (nk_index k) = 0"

definition is_anc :: "node_key \<Rightarrow> node_key \<Rightarrow> bool" where
  "is_anc a k \<longleftrightarrow> lev a \<le> lev k \<and> nk_index a = drop_bit (lev k - lev a) (nk_index k)"

lemma is_anc_refl [simp]: "is_anc k k"
  by (simp add: is_anc_def)

lemma is_anc_trans: "is_anc a b \<Longrightarrow> is_anc b c \<Longrightarrow> is_anc a c"
  by (auto simp: is_anc_def)

lemma is_anc_same_level: "is_anc a k \<Longrightarrow> nk_level a = nk_level k \<Longrightarrow> a = k"
  by (auto simp: is_anc_def node_key.expand)

lemma is_anc_antisym: "is_anc a b \<Longrightarrow> is_anc b a \<Longrightarrow> a = b"
  by (rule is_anc_same_level, assumption, rule iffD2[OF word_unat_eq_iff])
    (simp add: is_anc_def)

lemma is_anc_between: "is_anc a k \<Longrightarrow> is_anc b k \<Longrightarrow> lev a \<le> lev b \<Longrightarrow> is_anc a b"
  by (auto simp: is_anc_def)

lemma lev_pred: "nk_level k \<noteq> 0 \<Longrightarrow> unat (nk_level k - 1) = lev k - 1"
  by (simp add: unat_minus_one)

lemma lev_parent: "lev (parent k) = lev k - 1"
  by (simp add: parent_def lev_pred)

lemma lev_pos: "nk_level k \<noteq> 0 \<Longrightarrow> 0 < lev k"
  by (simp add: unat_gt_0)

lemma parent_anc: "is_anc (parent k) k"
  using lev_pos[of k] by (auto simp: is_anc_def parent_def lev_pred)

lemma is_anc_parent: "is_anc d k \<Longrightarrow> d \<noteq> k \<Longrightarrow> is_anc d (parent k)"
proof -
  assume d: "is_anc d k" "d \<noteq> k"
  hence "lev d < lev k" by (metis is_anc_def is_anc_same_level le_neq_implies_less word_unat_eq_iff)
  thus ?thesis by (intro is_anc_between[OF d(1) parent_anc]) (simp add: lev_parent)
qed

lemma valid_anc: "is_anc a k \<Longrightarrow> valid_key k \<Longrightarrow> valid_key a"
  by (auto simp: is_anc_def valid_key_def)

lemma parent_valid: "valid_key k \<Longrightarrow> valid_key (parent k)"
  by (rule valid_anc[OF parent_anc])

lemma valid_root: "valid_key k \<Longrightarrow> nk_level k = 0 \<Longrightarrow> k = new_root"
  by (simp add: valid_key_def new_root_def node_key.expand)

lemma root_anc: "valid_key k \<Longrightarrow> is_anc new_root k"
  by (simp add: is_anc_def new_root_def valid_key_def)

lemma n_th_ancestor_anc: "valid_key k \<Longrightarrow> is_anc (n_th_ancestor k n) k"
  by (simp add: n_th_ancestor_def root_anc)
    (simp add: is_anc_def valid_key_def word_le_nat_alt unat_sub)

lemma le_minus_self_zero: "l \<le> x \<Longrightarrow> x \<le> x - l \<Longrightarrow> l = 0" for x :: "'a::len word"
  using unat_sub[of l x] by (metis word_le_nat_alt unat_eq_zero diff_le_self
      le_antisym diff_diff_cancel cancel_comm_monoid_add_class.diff_cancel)

lemma parent_at_level_some:
  "valid_key k \<Longrightarrow> l \<le> nk_level k \<Longrightarrow>
   \<exists>a. parent_at_level k l = Some a \<and> nk_level a = l \<and> is_anc a k"
  by (simp add: parent_at_level_def n_th_ancestor_anc)
    (auto simp: n_th_ancestor_def new_root_def dest: le_minus_self_zero)

section \<open>Children and siblings\<close>

lemma valid_key_bits: "valid_key k \<Longrightarrow> lev k \<le> n \<Longrightarrow> \<not> bit (nk_index k) n"
  using bit_drop_bit_eq[of "lev k" "nk_index k", THEN fun_cong, of "n - lev k"]
  by (simp add: valid_key_def)

lemma lev_succ: "lev k < 64 \<Longrightarrow> unat (nk_level k + 1) = Suc (lev k)"
  by (simp add: unat_word_ariths)

lemma lev_child [simp]:
  "lev k < 64 \<Longrightarrow> lev (left_child k) = Suc (lev k)"
  "lev k < 64 \<Longrightarrow> lev (right_child k) = Suc (lev k)"
  by (simp_all add: left_child_def right_child_def lev_succ)

lemma bit_mult_2: "bit (x * 2) n \<longleftrightarrow> 0 < n \<and> n < 64 \<and> bit x (n - 1)" for x :: u64
  by (auto simp: mult.commute[of x 2] bit_double_iff)

lemma right_index: "x * 2 + 1 = (x * 2 OR 1 :: u64)"
  by (rule disjunctive_add) (auto simp: bit_mult_2 bit_1_iff)

lemma bit_left_index: "bit (nk_index (left_child k)) n \<longleftrightarrow> 0 < n \<and> n < 64 \<and> bit (nk_index k) (n - 1)"
  by (simp add: left_child_def bit_mult_2)

lemma bit_right_index:
  "bit (nk_index (right_child k)) n \<longleftrightarrow> n = 0 \<or> (n < 64 \<and> bit (nk_index k) (n - 1))"
  by (auto simp: right_child_def right_index bit_or_iff bit_mult_2 bit_1_iff)

lemma child_index_drop:
  assumes "valid_key k" "lev k < 64"
  shows "drop_bit 1 (nk_index (left_child k)) = nk_index k"
    "drop_bit 1 (nk_index (right_child k)) = nk_index k"
proof -
  have "\<not> bit (nk_index k) 63" using valid_key_bits[OF assms(1), of 63] assms(2) by simp
  hence *: "Suc n < 64" if "bit (nk_index k) n" for n
    using that bit_imp_le_length[OF that] by (cases "n = 63") auto
  show "drop_bit 1 (nk_index (left_child k)) = nk_index k"
    by (rule bit_word_eqI) (use * in \<open>auto simp: bit_left_index bit_simps\<close>)
  show "drop_bit 1 (nk_index (right_child k)) = nk_index k"
    by (rule bit_word_eqI) (use * in \<open>auto simp: bit_right_index bit_simps\<close>)
qed

lemma child_anc:
  assumes "valid_key k" "lev k < 64"
  shows "is_anc k (left_child k)" "is_anc k (right_child k)"
  using child_index_drop[OF assms] assms(2) by (simp_all add: is_anc_def)

lemma child_valid:
  assumes "valid_key k" "lev k < 64"
  shows "valid_key (left_child k)" "valid_key (right_child k)"
proof -
  have d: "drop_bit (Suc (lev k)) x = drop_bit (lev k) (drop_bit 1 x)" for x :: u64
    by simp
  show "valid_key (left_child k)" "valid_key (right_child k)"
    using assms unfolding valid_key_def lev_child[OF assms(2)] d child_index_drop[OF assms]
    by simp_all
qed

lemma child_parent:
  assumes "valid_key k" "lev k < 64"
  shows "parent (left_child k) = k" "parent (right_child k) = k"
proof -
  have "nk_level k + 1 \<noteq> 0" using lev_succ[OF assms(2)] by (metis Zero_not_Suc unat_0)
  thus "parent (left_child k) = k" "parent (right_child k) = k"
    using child_index_drop[OF assms]
    by (simp_all add: parent_def node_key.expand) (simp_all add: left_child_def right_child_def)
qed

lemma left_neq_right: "left_child k \<noteq> right_child k"
  using bit_left_index[of k 0] bit_right_index[of k 0] by auto

lemma sibling_left: "sibling (left_child k) = right_child k"
  by (simp add: sibling_def left_child_def right_child_def right_index)
    (rule bit_word_eqI, auto simp: bit_simps bit_mult_2)

lemma sibling_involutive [simp]: "sibling (sibling k) = k"
  by (simp add: sibling_def node_key.expand xor.assoc)

lemma sibling_right: "sibling (right_child k) = left_child k"
  by (metis sibling_left sibling_involutive)

lemma even_or_odd_child:
  assumes "nk_level k \<noteq> 0"
  shows "k = (if bit (nk_index k) 0 then right_child (parent k) else left_child (parent k))"
proof -
  have "nk_index k = (if bit (nk_index k) 0 then drop_bit 1 (nk_index k) * 2 OR 1
                      else drop_bit 1 (nk_index k) * 2)"
    apply (rule bit_word_eqI)
    subgoal for n by (cases n) (auto simp: bit_simps bit_mult_2)
    done
  thus ?thesis using assms
    by (auto simp: parent_def left_child_def right_child_def right_index node_key.expand)
qed

lemma sibling_parent: "nk_level k \<noteq> 0 \<Longrightarrow> parent (sibling k) = parent k"
  by (simp add: parent_def sibling_def drop_bit_xor)

section \<open>Correctness of the nearest common ancestor\<close>

definition is_nca :: "node_key \<Rightarrow> node_key \<Rightarrow> node_key \<Rightarrow> bool" where
  "is_nca c a b \<longleftrightarrow> is_anc c a \<and> is_anc c b \<and> (\<forall>d. is_anc d a \<longrightarrow> is_anc d b \<longrightarrow> is_anc d c)"

lemma nca_loop_same [simp]: "nca_loop k k = Some k"
  by (subst nca_loop.simps) simp

lemma nca_loop_step: "a \<noteq> b \<Longrightarrow> nca_loop a b = nca_loop (parent a) (parent b)"
  by (subst nca_loop.simps) simp

lemma is_nca_parent:
  assumes "is_nca c (parent a) (parent b)" "a \<noteq> b" "nk_level a = nk_level b"
  shows "is_nca c a b"
proof -
  have "is_anc d (parent a) \<and> is_anc d (parent b)" if "is_anc d a" "is_anc d b" for d
    using that assms(2,3) by (metis is_anc_antisym is_anc_between is_anc_parent is_anc_refl order_refl)
  thus ?thesis using assms(1) parent_anc is_anc_trans unfolding is_nca_def by blast
qed

lemma nca_loop_correct:
  assumes "valid_key a" "valid_key b" "nk_level a = nk_level b"
  shows "\<exists>c. nca_loop a b = Some c \<and> is_nca c a b"
  using assms
proof (induction "lev a" arbitrary: a b)
  case 0
  hence "a = b" by (metis valid_root unat_eq_zero)
  thus ?case by (auto simp: is_nca_def)
next
  case (Suc n)
  show ?case
  proof (cases "a = b")
    case False
    have l: "nk_level (parent a) = nk_level (parent b)"
      using Suc.prems(3) by (simp add: parent_def)
    obtain c where "nca_loop (parent a) (parent b) = Some c" "is_nca c (parent a) (parent b)"
      using Suc.hyps(1)[of "parent a" "parent b"] Suc.hyps(2) Suc.prems l parent_valid
      by (metis lev_parent diff_Suc_1)
    thus ?thesis using is_nca_parent[OF _ False Suc.prems(3)] nca_loop_step[OF False] by auto
  qed (auto simp: is_nca_def)
qed

lemma find_nca_correct:
  assumes "valid_key a" "valid_key b"
  shows "\<exists>c. find_nearest_common_ancestor a b = Some c \<and> is_nca c a b"
proof -
  define l where "l = min (nk_level b) (nk_level a)"
  obtain a' where a': "parent_at_level a l = Some a'" "nk_level a' = l" "is_anc a' a"
    using parent_at_level_some[OF assms(1), of l] by (auto simp: l_def)
  obtain b' where b': "parent_at_level b l = Some b'" "nk_level b' = l" "is_anc b' b"
    using parent_at_level_some[OF assms(2), of l] by (auto simp: l_def)
  obtain c where c: "nca_loop a' b' = Some c" "is_nca c a' b'"
    using nca_loop_correct[OF valid_anc[OF a'(3) assms(1)] valid_anc[OF b'(3) assms(2)]] a' b'
    by auto
  have "is_anc d a' \<and> is_anc d b'" if d: "is_anc d a" "is_anc d b" for d
  proof -
    have "lev d \<le> unat l" using d by (auto simp: is_anc_def l_def min_def)
    thus ?thesis using is_anc_between[OF d(1) a'(3)] is_anc_between[OF d(2) b'(3)] a'(2) b'(2)
      by simp
  qed
  hence "is_nca c a b" using c(2) a'(3) b'(3) is_anc_trans unfolding is_nca_def by blast
  thus ?thesis using a' b' c by (auto simp: find_nearest_common_ancestor_def l_def)
qed

lemma is_nca_unique: "is_nca c a b \<Longrightarrow> is_nca d a b \<Longrightarrow> c = d"
  by (auto simp: is_nca_def intro: is_anc_antisym)

lemma find_nca_iff:
  "valid_key a \<Longrightarrow> valid_key b \<Longrightarrow> find_nearest_common_ancestor a b = Some c \<longleftrightarrow> is_nca c a b"
  using find_nca_correct[of a b] is_nca_unique by auto

lemma is_nca_comm: "is_nca c a b \<longleftrightarrow> is_nca c b a"
  by (auto simp: is_nca_def)

text \<open>Descending one level towards a strict descendant.\<close>

lemma anc_child_cases:
  assumes "is_anc a k" "a \<noteq> k" "valid_key k"
  shows "is_anc (left_child a) k \<or> is_anc (right_child a) k"
  using assms
proof (induction "lev k - lev a" arbitrary: k)
  case 0
  thus ?case by (metis is_anc_def diff_is_0_eq is_anc_same_level le_antisym word_unat_eq_iff)
next
  case (Suc n)
  have nz: "nk_level k \<noteq> 0" using Suc.hyps(2) by auto
  have p: "is_anc a (parent k)" using Suc.prems is_anc_parent by blast
  show ?case
  proof (cases "a = parent k")
    case True
    thus ?thesis using even_or_odd_child[OF nz] by (metis is_anc_refl)
  next
    case False
    have "n = lev (parent k) - lev a" using Suc.hyps(2) by (simp add: lev_parent)
    thus ?thesis using Suc.hyps(1) p False parent_valid[OF Suc.prems(3)] parent_anc is_anc_trans
      by blast
  qed
qed

lemma drop_bit_mono_u64: "x \<le> y \<Longrightarrow> drop_bit n x \<le> drop_bit n y" for x y :: u64
  unfolding word_le_nat_alt unat_drop_bit_eq by (simp add: drop_bit_eq_div div_le_mono)

lemma left_index_less:
  "valid_key k \<Longrightarrow> lev k < 64 \<Longrightarrow> nk_index (left_child k) < nk_index (right_child k)"
proof -
  assume k: "valid_key k" "lev k < 64"
  have e: "nk_index (right_child k) = nk_index (left_child k) OR 1"
    by (simp add: right_child_def left_child_def right_index)
  have "nk_index (left_child k) \<le> nk_index (left_child k) OR 1"
    unfolding word_le_def unsigned_or_eq by (rule or_greater_eq) simp
  moreover have "nk_index (left_child k) \<noteq> nk_index (left_child k) OR 1"
    using bit_left_index[of k 0] bit_right_index[of k 0] e by auto
  ultimately show ?thesis using e by simp
qed

text \<open>Two keys of one level lie in the left and the right subtree of their ancestor.\<close>

lemma nca_split:
  assumes "valid_key a" "valid_key b" "nk_level a = nk_level b" "a < b" "is_nca c a b"
  shows "is_anc (left_child c) a" "is_anc (right_child c) b"
    "valid_key c" "lev c < lev a"
proof -
  have ca: "is_anc c a" and cb: "is_anc c b" using assms(5) by (auto simp: is_nca_def)
  have ne: "c \<noteq> a" "c \<noteq> b" using assms(3,4) ca cb is_anc_same_level by (metis less_irrefl)+
  show v: "valid_key c" using valid_anc ca assms(1) by blast
  show l: "lev c < lev a" using ca ne(1) is_anc_same_level
    by (metis is_anc_def le_neq_implies_less word_unat_eq_iff)
  have l64: "lev c < 64" using l assms(1) by (simp add: valid_key_def)
  have not_both: "\<not> (is_anc d a \<and> is_anc d b)" if "d = left_child c \<or> d = right_child c" for d
  proof
    assume "is_anc d a \<and> is_anc d b"
    hence "is_anc d c" using assms(5) by (auto simp: is_nca_def)
    thus False using that l64 lev_child[OF l64] by (auto simp: is_anc_def)
  qed
  have idx: "nk_index a \<le> nk_index b" using assms(3,4) by (simp add: less_node_key_def)
  have "\<not> is_anc (right_child c) a"
  proof
    assume r: "is_anc (right_child c) a"
    hence "is_anc (left_child c) b" using anc_child_cases[OF cb ne(2) assms(2)] not_both by blast
    hence "nk_index (right_child c) \<le> nk_index (left_child c)"
      using r idx assms(3) drop_bit_mono_u64 lev_child[OF l64] by (simp add: is_anc_def)
    thus False using left_index_less[OF v l64] by simp
  qed
  thus la: "is_anc (left_child c) a" using anc_child_cases[OF ca ne(1) assms(1)] by blast
  thus "is_anc (right_child c) b" using anc_child_cases[OF cb ne(2) assms(2)] not_both by blast
qed

section \<open>The path and sibling lists\<close>

primrec ups :: "nat \<Rightarrow> node_key \<Rightarrow> node_key list" where
  "ups 0 k = []"
| "ups (Suc n) k = k # ups n (parent k)"

lemma ups_snoc: "ups (Suc n) k = ups n k @ [(parent ^^ n) k]"
  by (induction n arbitrary: k) (simp_all add: funpow_swap1)

lemma siblings_walk_ups: "siblings_walk n k = map sibling (ups n k)"
  by (induction n arbitrary: k) auto

lemma lev_gt_parent: "l < nk_level k \<Longrightarrow> l \<le> nk_level (parent k)"
  by (metis lev_parent word_le_nat_alt word_less_nat_alt less_Suc_eq_le Suc_pred' gr_implies_not0
      bot_nat_0.not_eq_extremum)

lemma siblings_until_ups:
  "l \<le> nk_level k \<Longrightarrow>
   siblings_until l k acc = Some (acc @ map sibling (ups (lev k - unat l) k))"
proof (induction "lev k - unat l" arbitrary: k acc)
  case 0
  hence "nk_level k = l" by (simp add: word_le_nat_alt word_unat_eq_iff)
  thus ?case by (subst siblings_until.simps) simp
next
  case (Suc n)
  have lt: "l < nk_level k" using Suc.hyps(2) by (simp add: word_less_nat_alt)
  have n: "n = lev (parent k) - unat l" using Suc.hyps(2) by (simp add: lev_parent)
  have "siblings_until l (parent k) (acc @ [sibling k]) =
      Some ((acc @ [sibling k]) @ map sibling (ups (lev (parent k) - unat l) (parent k)))"
    by (rule Suc.hyps(1)[OF n lev_gt_parent[OF lt]])
  thus ?case using lt Suc.hyps(2)[symmetric] n
    by (subst siblings_until.simps) (simp add: less_imp_neq[symmetric])
qed

lemma siblings_keys_eq: "get_siblings_keys_to_height k l = Some (siblings_to_level k l)"
proof (cases "l \<le> nk_level k")
  case True
  thus ?thesis using siblings_until_ups[OF True, of "[]"]
    by (auto simp: get_siblings_keys_to_height_def siblings_to_level_def siblings_walk_ups unat_sub
        not_less)
qed (auto simp: get_siblings_keys_to_height_def siblings_to_level_def)

lemma path_until_ups:
  "l \<le> nk_level k \<Longrightarrow>
   path_until l k acc = Some (acc @ ups (lev k - unat l) k, (parent ^^ (lev k - unat l)) k)"
proof (induction "lev k - unat l" arbitrary: k acc)
  case 0
  hence "nk_level k = l" by (simp add: word_le_nat_alt word_unat_eq_iff)
  thus ?case by (subst path_until.simps) simp
next
  case (Suc n)
  have lt: "l < nk_level k" using Suc.hyps(2) by (simp add: word_less_nat_alt)
  have n: "n = lev (parent k) - unat l" using Suc.hyps(2) by (simp add: lev_parent)
  have "path_until l (parent k) (acc @ [k]) =
      Some ((acc @ [k]) @ ups (lev (parent k) - unat l) (parent k),
            (parent ^^ (lev (parent k) - unat l)) (parent k))"
    by (rule Suc.hyps(1)[OF n lev_gt_parent[OF lt]])
  thus ?case using lt Suc.hyps(2)[symmetric] n
    by (subst path_until.simps) (simp add: less_imp_neq[symmetric] funpow_swap1)
qed

lemma path_above_loop_ups:
  "lev k \<le> n \<Longrightarrow> path_above_loop n l k = ups (lev k - unat l) (parent k)"
proof (induction n arbitrary: k)
  case (Suc n)
  show ?case
  proof (cases "l < nk_level k")
    case True
    hence "lev k - unat l = Suc (lev (parent k) - unat l)" "lev (parent k) \<le> n"
      using Suc.prems by (auto simp: lev_parent word_less_nat_alt)
    thus ?thesis using True Suc.IH[of "parent k"] by simp
  qed (simp add: word_less_nat_alt)
qed simp

lemma saturating_succ_unat: "l < m \<Longrightarrow> unat (saturating_succ l) = Suc (unat l)"
proof -
  assume "l < m"
  hence "unat l < 255" using unsigned_less[of m, where 'a=nat] by (simp add: word_less_nat_alt)
  thus ?thesis by (auto simp: saturating_succ_def unat_word_ariths)
qed

lemma above_path_eq:
  "get_above_path_to_height k l include_root = Some (get_path_above_self_to_level k l include_root)"
proof (cases "l \<ge> nk_level k")
  case False
  hence lt: "l < nk_level k" and le: "l \<le> nk_level (parent k)" using lev_gt_parent[of l k] by auto
  have s: "unat (saturating_succ l) = Suc (unat l)" by (rule saturating_succ_unat[OF lt])
  hence s': "\<not> saturating_succ l > nk_level k" using lt by (simp add: word_less_nat_alt)
  have d: "lev k - unat l = Suc (lev (parent k) - unat l)"
    using lt by (simp add: lev_parent word_less_nat_alt)
  have e: "lev k - Suc (unat l) = lev (parent k) - unat l" by (simp add: lev_parent)
  show ?thesis
  proof (cases include_root)
    case True
    thus ?thesis using lt path_until_ups[OF le, of "[]"] d
      by (simp add: get_above_path_to_height_def get_path_above_self_to_level_def
          path_above_loop_ups ups_snoc not_le del: ups.simps)
  next
    case False
    thus ?thesis using lt path_until_ups[OF le, of "[]"] s s' e
      by (simp add: get_above_path_to_height_def get_path_above_self_to_level_def
          path_above_loop_ups not_le)
  qed
qed (auto simp: get_above_path_to_height_def get_path_above_self_to_level_def)

section \<open>Round trips of the encodings\<close>

lemma key_bytes_roundtrip: "key_from_bytes (key_to_bytes k) = Inr k"
  by (simp add: key_from_bytes_def key_to_bytes_def node_key.expand)

lemma key_bytes_canonical: "key_from_bytes bs = Inr k \<Longrightarrow> bs = key_to_bytes k"
  by (cases bs) (auto simp: key_from_bytes_def key_to_bytes_def split: if_splits)

lemma key_ffs_roundtrip: "key_ffs_try_from_slice (key_ffs_to_bytes k) = Inr k"
  by (simp add: key_ffs_try_from_slice_def key_ffs_to_bytes_def node_key.expand)

lemma key_ffs_canonical: "key_ffs_try_from_slice bs = Inr k \<Longrightarrow> bs = key_ffs_to_bytes k"
  by (cases bs) (auto simp: key_ffs_try_from_slice_def key_ffs_to_bytes_def split: if_splits)

lemma mask56: "(0x00FFFFFFFFFFFFFF :: u64) = mask 56"
  by (simp add: mask_eq_exp_minus_1)

lemma reward_path_inverse: "to_reward_path_info (from_reward_path_info x) = x"
  unfolding to_reward_path_info_def from_reward_path_info_def mask56
  by (rule bit_word_eqI) (auto simp: bit_simps)

lemma reward_path_roundtrip:
  "drop_bit 56 (nk_index k) = 0 \<Longrightarrow> from_reward_path_info (to_reward_path_info k) = k"
proof -
  assume a: "drop_bit 56 (nk_index k) = 0"
  have b: "n < 56" if "bit (nk_index k) n" for n
    using bit_drop_bit_eq[of 56 "nk_index k", THEN fun_cong, of "n - 56"] a that
    by (cases "n < 56") auto
  show ?thesis
    unfolding to_reward_path_info_def from_reward_path_info_def mask56
    by (intro node_key.expand conjI bit_word_eqI)
      (use b in \<open>auto simp: bit_simps not_less dest: bit_imp_le_length\<close>)
qed

section \<open>Properties\<close>

text \<open>
  \<open>find_nearest_common_ancestor\<close> returns for any two valid keys, of whatever levels, a
  common ancestor of both, and every other common ancestor lies above it.
\<close>

lemma nca_is_deepest_common_ancestor:
  assumes "valid_key a" "valid_key b"
  shows "\<exists>c. find_nearest_common_ancestor a b = Some c \<and> is_anc c a \<and> is_anc c b \<and>
    (\<forall>d. is_anc d a \<longrightarrow> is_anc d b \<longrightarrow> is_anc d c)"
  using find_nca_correct[OF assms] by (simp add: is_nca_def)

lemma nca_is_deepest_common_ancestor_witness:
  "\<exists>c. find_nearest_common_ancestor (Node_Key 24 238671) (Node_Key 20 3) = Some c \<and>
    is_anc c (Node_Key 24 238671) \<and> is_anc c (Node_Key 20 3) \<and>
    (\<forall>d. is_anc d (Node_Key 24 238671) \<longrightarrow> is_anc d (Node_Key 20 3) \<longrightarrow> is_anc d c)"
  using nca_is_deepest_common_ancestor[of "Node_Key 24 238671" "Node_Key 20 3"]
  by (simp add: valid_key_def)

end
