(* ===== verification/Nca_Planner.thy ===== *)
theory Nca_Planner
  imports Node_Key
begin

text \<open>
  The nearest-common-ancestor planner of
  \<open>src/parth_core/src/data/hash/merkle_node_key.rs\<close>: it turns a set of leaves of one Merkle
  level into a schedule of pairwise aggregations, grouped so that a group depends on earlier
  groups only. The three generations of the planner (\<open>v0\<close>, \<open>v1\<close>, \<open>v2\<close>) and the checker
  \<open>check_nca_tree_groups\<close> are modelled. The specification is an abstract binary tree
  \<open>nca_tree\<close> over the sorted leaves; the recursive builder returns its post-order and the
  grouping loop its breadth-first levels.
\<close>

section \<open>The planner\<close>

record nca_agg =
  agg_nca :: node_key
  agg_left :: node_key
  agg_right :: node_key

definition mk_agg :: "node_key \<Rightarrow> node_key \<Rightarrow> node_key \<Rightarrow> nca_agg" where
  "mk_agg c l r = \<lparr>agg_nca = c, agg_left = l, agg_right = r\<rparr>"

text \<open>
  The leaf index at which the right child's domain starts. \<open>partition_point\<close> on a slice that
  is partitioned by the predicate returns the length of the prefix satisfying it; the split is
  then \<open>takeWhile\<close>/\<open>dropWhile\<close>.
\<close>

definition split_leaf_index :: "node_key \<Rightarrow> u8 \<Rightarrow> u64" where
  "split_leaf_index subtree_root tree_height =
     nk_index (first_leaf_child (right_child subtree_root) tree_height)"

text \<open>
  The recursion ends for distinct leaves only, so it is a partial function: the outer \<open>None\<close>
  stands for a call that does not return, the inner option is the one of the source.
\<close>

partial_function (option) build_recursive_v1 ::
  "node_key list \<Rightarrow> node_key \<Rightarrow> u8 \<Rightarrow> nca_agg list \<Rightarrow> (node_key option \<times> nca_agg list) option" where
  "build_recursive_v1 nodes subtree_root tree_height aggregations =
     (if nodes = [] then Some (None, aggregations)
      else if length nodes = 1 then Some (Some (nodes ! 0), aggregations)
      else do {
        (left_result, aggs1) \<leftarrow>
          build_recursive_v1
            (takeWhile (\<lambda>node. nk_index node < split_leaf_index subtree_root tree_height) nodes)
            (left_child subtree_root) tree_height aggregations;
        (right_result, aggs2) \<leftarrow>
          build_recursive_v1
            (dropWhile (\<lambda>node. nk_index node < split_leaf_index subtree_root tree_height) nodes)
            (right_child subtree_root) tree_height aggs1;
        (case (left_result, right_result) of
           (Some l_key, Some r_key) \<Rightarrow>
             do { combined_nca_key \<leftarrow> find_nearest_common_ancestor l_key r_key;
                  Some (Some combined_nca_key, aggs2 @ [mk_agg combined_nca_key l_key r_key]) }
         | (Some l_res, None) \<Rightarrow> Some (Some l_res, aggs2)
         | (None, Some r_res) \<Rightarrow> Some (Some r_res, aggs2)
         | (None, None) \<Rightarrow> Some (None, aggs2)) })"

partial_function (option) build_recursive_v0 ::
  "node_key list \<Rightarrow> node_key \<Rightarrow> u8 \<Rightarrow> nca_agg list \<Rightarrow> (node_key option \<times> nca_agg list) option" where
  "build_recursive_v0 nodes subtree_root tree_height aggregations =
     (if nodes = [] then Some (None, aggregations)
      else if length nodes = 1 then Some (Some (nodes ! 0), aggregations)
      else do {
        (left_nca, aggs1) \<leftarrow>
          build_recursive_v0
            (takeWhile (\<lambda>node. nk_index node < split_leaf_index subtree_root tree_height) nodes)
            (left_child subtree_root) tree_height aggregations;
        (right_nca, aggs2) \<leftarrow>
          build_recursive_v0
            (dropWhile (\<lambda>node. nk_index node < split_leaf_index subtree_root tree_height) nodes)
            (right_child subtree_root) tree_height aggs1;
        (case (left_nca, right_nca) of
           (Some l, Some r) \<Rightarrow>
             do { combined_nca \<leftarrow> find_nearest_common_ancestor l r;
                  Some (Some combined_nca, aggs2 @ [mk_agg combined_nca l r]) }
         | (Some l, None) \<Rightarrow> Some (Some l, aggs2)
         | (None, Some r) \<Rightarrow> Some (Some r, aggs2)
         | (None, None) \<Rightarrow> Some (None, aggs2)) })"

text \<open>The \<open>HashMap\<close> from an aggregation's own key to the aggregation; later entries win.\<close>

definition nca_map_of :: "nca_agg list \<Rightarrow> node_key \<rightharpoonup> nca_agg" where
  "nca_map_of aggs = fold (\<lambda>x m. m(agg_nca x \<mapsto> x)) aggs Map.empty"

text \<open>The two \<open>if let\<close> blocks of the grouping loop, for one aggregation.\<close>

definition agg_children :: "(node_key \<rightharpoonup> nca_agg) \<Rightarrow> u8 \<Rightarrow> nca_agg \<Rightarrow> nca_agg list" where
  "agg_children nca_map leaf_level agg =
     (if nk_level (agg_left agg) \<noteq> leaf_level
      then (case nca_map (agg_left agg) of Some left_agg \<Rightarrow> [left_agg] | None \<Rightarrow> [])
      else []) @
     (if nk_level (agg_right agg) \<noteq> leaf_level
      then (case nca_map (agg_right agg) of Some right_agg \<Rightarrow> [right_agg] | None \<Rightarrow> [])
      else [])"

text \<open>
  \<open>while has_non_leaf_children\<close>; the flag is set exactly when something was pushed to
  \<open>next_level\<close>. The result is the pair of \<open>levels\<close> and the final \<open>current_level\<close>.
\<close>

partial_function (option) group_loop ::
  "(node_key \<rightharpoonup> nca_agg) \<Rightarrow> u8 \<Rightarrow> bool \<Rightarrow> nca_agg list \<Rightarrow> nca_agg list list \<Rightarrow>
   (nca_agg list list \<times> nca_agg list) option" where
  "group_loop nca_map leaf_level has_non_leaf_children current_level levels =
     (if has_non_leaf_children
      then let next_level = concat (map (agg_children nca_map leaf_level) current_level)
           in group_loop nca_map leaf_level (next_level \<noteq> []) next_level (levels @ [current_level])
      else Some (levels, current_level))"

definition group_levels ::
  "nca_agg list \<Rightarrow> u8 \<Rightarrow> nca_agg \<Rightarrow> nca_agg list list option" where
  "group_levels aggregations leaf_level root =
     (if nk_level (agg_left root) = leaf_level \<and> nk_level (agg_right root) = leaf_level
      then Some [[root]]
      else do {
        (levels, current_level) \<leftarrow>
          group_loop (nca_map_of aggregations) leaf_level True [root] [];
        Some (rev (if length current_level > 0 then levels @ [current_level] else levels)) })"

definition generate_nca_tree_groups_v1 :: "node_key list \<Rightarrow> u8 \<Rightarrow> nca_agg list list option" where
  "generate_nca_tree_groups_v1 leaves leaf_level =
     (if length leaves < 2 then Some []
      else let tree_height = nk_level (leaves ! 0) in
        do { (_, aggregations) \<leftarrow> build_recursive_v1 (sort leaves) (Node_Key 0 0) tree_height [];
             (if aggregations = [] then Some []
              else group_levels aggregations tree_height (last aggregations)) })"

definition generate_nca_tree_v0 :: "node_key list \<Rightarrow> nca_agg list option" where
  "generate_nca_tree_v0 leaves =
     (if length leaves < 2 then Some []
      else let tree_height = nk_level (leaves ! 0) in
        do { (_, aggregations) \<leftarrow> build_recursive_v0 (sort leaves) (Node_Key 0 0) tree_height [];
             Some aggregations })"

text \<open>\<open>ncas.last().unwrap()\<close> panics on an empty plan.\<close>

definition generate_nca_tree_groups_v0 :: "node_key list \<Rightarrow> u8 \<Rightarrow> nca_agg list list option" where
  "generate_nca_tree_groups_v0 leaves leaf_level =
     do { ncas \<leftarrow> generate_nca_tree_v0 leaves;
          (if ncas = [] then None else group_levels ncas leaf_level (last ncas)) }"

text \<open>One node of a group, against its own group and the group below.\<close>

definition check_nca_node :: "nca_agg list \<Rightarrow> nca_agg list \<Rightarrow> u8 \<Rightarrow> nca_agg \<Rightarrow> bool" where
  "check_nca_node below grp leaf_level node \<longleftrightarrow>
     \<not> length (filter (\<lambda>x. agg_nca x = agg_nca node) grp) > 1 \<and>
     \<not> length (filter (\<lambda>x. agg_left x = agg_left node) grp) > 1 \<and>
     \<not> length (filter (\<lambda>x. agg_right x = agg_right node) grp) > 1 \<and>
     \<not> (nk_level (agg_left node) \<noteq> leaf_level \<and>
        \<not> list_ex (\<lambda>x. agg_nca x = agg_left node) below) \<and>
     \<not> (nk_level (agg_right node) \<noteq> leaf_level \<and>
        \<not> list_ex (\<lambda>x. agg_nca x = agg_right node) below)"

definition check_nca_tree_groups :: "nca_agg list list \<Rightarrow> u8 \<Rightarrow> bool" where
  "check_nca_tree_groups groups leaf_level \<longleftrightarrow>
     list_all (\<lambda>i. list_all (check_nca_node (groups ! (i - 1)) (groups ! i) leaf_level) (groups ! i))
       [1..<length groups]"

partial_function (option) build_recursive_v2 ::
  "node_key list \<Rightarrow> node_key \<Rightarrow> u8 \<Rightarrow> (nca_agg \<times> nat) list \<Rightarrow>
   ((node_key \<times> nat) option \<times> (nca_agg \<times> nat) list) option" where
  "build_recursive_v2 nodes subtree_root tree_height aggs =
     (if nodes = [] then Some (None, aggs)
      else if length nodes = 1 then Some (Some (nodes ! 0, 0), aggs)
      else do {
        (left_result, aggs1) \<leftarrow>
          build_recursive_v2
            (takeWhile (\<lambda>node. nk_index node < split_leaf_index subtree_root tree_height) nodes)
            (left_child subtree_root) tree_height aggs;
        (right_result, aggs2) \<leftarrow>
          build_recursive_v2
            (dropWhile (\<lambda>node. nk_index node < split_leaf_index subtree_root tree_height) nodes)
            (right_child subtree_root) tree_height aggs1;
        (case (left_result, right_result) of
           (Some (l_key, l_level), Some (r_key, r_level)) \<Rightarrow>
             do { combined_nca_key \<leftarrow> find_nearest_common_ancestor l_key r_key;
                  let new_level = 1 + max l_level r_level in
                  Some (Some (combined_nca_key, new_level),
                        aggs2 @ [(mk_agg combined_nca_key l_key r_key, new_level)]) }
         | (Some l_res, None) \<Rightarrow> Some (Some l_res, aggs2)
         | (None, Some r_res) \<Rightarrow> Some (Some r_res, aggs2)
         | (None, None) \<Rightarrow> Some (None, aggs2)) })"

definition push_group :: "nca_agg \<times> nat \<Rightarrow> nca_agg list list \<Rightarrow> nca_agg list list" where
  "push_group al groups =
     (if snd al > 0 then groups[snd al - 1 := groups ! (snd al - 1) @ [fst al]] else groups)"

definition generate_nca_tree_groups_v2 :: "node_key list \<Rightarrow> u8 \<Rightarrow> nca_agg list list option" where
  "generate_nca_tree_groups_v2 leaves leaf_level =
     (if length leaves < 2 then Some []
      else let tree_height = nk_level (leaves ! 0) in
        do { (_, aggs) \<leftarrow> build_recursive_v2 (sort leaves) (Node_Key 0 0) tree_height [];
             (if aggs = [] then Some []
              else let max_level = Max (set (map snd aggs));
                       groups = fold push_group aggs (replicate max_level [])
                   in Some (filter (\<lambda>g. g \<noteq> []) groups)) })"

section \<open>The abstract aggregation tree\<close>

datatype nca_tree = NLeaf node_key | NNode nca_tree node_key nca_tree

primrec lab :: "nca_tree \<Rightarrow> node_key" where
  "lab (NLeaf k) = k"
| "lab (NNode l c r) = c"

primrec leaves_of :: "nca_tree \<Rightarrow> node_key list" where
  "leaves_of (NLeaf k) = [k]"
| "leaves_of (NNode l c r) = leaves_of l @ leaves_of r"

primrec ncas_of :: "nca_tree \<Rightarrow> node_key list" where
  "ncas_of (NLeaf k) = []"
| "ncas_of (NNode l c r) = ncas_of l @ ncas_of r @ [c]"

primrec aggs_of :: "nca_tree \<Rightarrow> nca_agg list" where
  "aggs_of (NLeaf k) = []"
| "aggs_of (NNode l c r) = aggs_of l @ aggs_of r @ [mk_agg c (lab l) (lab r)]"

text \<open>Every inner label is the branching point of its two subtrees; leaves lie at level \<open>h\<close>.\<close>

primrec wf_tree :: "u8 \<Rightarrow> nca_tree \<Rightarrow> bool" where
  "wf_tree h (NLeaf k) \<longleftrightarrow> valid_key k \<and> nk_level k = h"
| "wf_tree h (NNode l c r) \<longleftrightarrow> wf_tree h l \<and> wf_tree h r \<and> valid_key c \<and> lev c < unat h \<and>
     is_anc (left_child c) (lab l) \<and> is_anc (right_child c) (lab r)"

lemma mk_agg_sel [simp]:
  "agg_nca (mk_agg c l r) = c" "agg_left (mk_agg c l r) = l" "agg_right (mk_agg c l r) = r"
  by (simp_all add: mk_agg_def)

lemma map_agg_nca_aggs_of: "map agg_nca (aggs_of t) = ncas_of t"
  by (induction t) auto

lemma leaves_of_nonempty: "leaves_of t \<noteq> []"
  by (induction t) auto

lemma length_aggs_of: "Suc (length (aggs_of t)) = length (leaves_of t)"
  by (induction t) auto

text \<open>Every result is consumed once, as a left or a right operand, except the final one.\<close>

lemma consumption_balance:
  "mset (map agg_left (aggs_of t)) + mset (map agg_right (aggs_of t)) + {#lab t#} =
   mset (leaves_of t) + mset (ncas_of t)"
proof (induction t)
  case (NNode l c r)
  have "mset (map agg_left (aggs_of (NNode l c r))) + mset (map agg_right (aggs_of (NNode l c r)))
        + {#lab (NNode l c r)#} =
      (mset (map agg_left (aggs_of l)) + mset (map agg_right (aggs_of l)) + {#lab l#}) +
      (mset (map agg_left (aggs_of r)) + mset (map agg_right (aggs_of r)) + {#lab r#}) + {#c#}"
    by simp
  also have "\<dots> = mset (leaves_of (NNode l c r)) + mset (ncas_of (NNode l c r))"
    unfolding NNode.IH by simp
  finally show ?case .
qed simp

lemma lab_valid: "wf_tree h t \<Longrightarrow> valid_key (lab t)"
  by (cases t) auto

section \<open>The split of the recursive builder\<close>

lemma drop_push_u64:
  assumes "\<forall>n. bit x n \<longrightarrow> n + d < 64"
  shows "drop_bit d (push_bit d x) = (x :: u64)"
  by (rule bit_word_eqI) (use assms in \<open>auto simp: bit_simps add.commute\<close>)

lemma push_drop_le: "push_bit d (drop_bit d x) \<le> (x :: u64)"
proof -
  have "push_bit d (drop_bit d x) = x AND NOT (mask d)"
    by (rule bit_word_eqI) (auto simp: bit_simps)
  thus ?thesis by (simp add: word_and_le2)
qed

lemma split_index_eq:
  assumes "lev root < unat h" "unat h \<le> 64"
  shows "split_leaf_index root h =
    push_bit (unat h - Suc (lev root)) (nk_index (right_child root))"
proof -
  have l: "lev root < 64" using assms by simp
  have le: "nk_level (right_child root) \<le> h"
    using assms lev_child(2)[OF l] by (simp add: word_le_nat_alt)
  have d: "unat (h - nk_level (right_child root)) = unat h - Suc (lev root)"
    using unat_sub[OF le] lev_child(2)[OF l] by simp
  have "nk_level (right_child root) = h \<Longrightarrow> unat h = Suc (lev root)"
    using lev_child(2)[OF l] by simp
  thus ?thesis using le d assms
    by (auto simp: split_leaf_index_def first_leaf_child_def)
qed

lemma split_correct:
  assumes "valid_key root" "valid_key k" "nk_level k = h" "lev root < unat h" "is_anc root k"
  shows "nk_index k < split_leaf_index root h \<longleftrightarrow> is_anc (left_child root) k"
    "\<not> nk_index k < split_leaf_index root h \<longleftrightarrow> is_anc (right_child root) k"
proof -
  have h64: "unat h \<le> 64" using assms(2,3) by (simp add: valid_key_def)
  have l: "lev root < 64" using assms(4) h64 by simp
  define d where "d = unat h - Suc (lev root)"
  define R where "R = nk_index (right_child root)"
  have s: "split_leaf_index root h = push_bit d R"
    using split_index_eq[OF assms(4) h64] by (simp add: d_def R_def)
  have "n + d < 64" if "bit R n" for n
    using that valid_key_bits[OF child_valid(2)[OF assms(1) l], of n] lev_child(2)[OF l] h64 assms(4)
    by (force simp: R_def d_def not_le)
  hence dp: "drop_bit d (push_bit d R) = R" using drop_push_u64 by blast
  have L: "is_anc (left_child root) k \<Longrightarrow> nk_index k < push_bit d R"
  proof (rule ccontr)
    assume a: "is_anc (left_child root) k" and "\<not> nk_index k < push_bit d R"
    hence "R \<le> drop_bit d (nk_index k)" using drop_bit_mono_u64[of "push_bit d R" _ d] dp by simp
    moreover have "drop_bit d (nk_index k) = nk_index (left_child root)"
      using a lev_child(1)[OF l] assms(3) by (simp add: is_anc_def d_def)
    ultimately show False using left_index_less[OF assms(1) l] by (simp add: R_def)
  qed
  have Rr: "is_anc (right_child root) k \<Longrightarrow> \<not> nk_index k < push_bit d R"
    using push_drop_le[of d "nk_index k"] lev_child(2)[OF l] assms(3)
    by (auto simp: is_anc_def d_def R_def not_less)
  have "root \<noteq> k" using assms(3,4) by auto
  hence "is_anc (left_child root) k \<or> is_anc (right_child root) k"
    using anc_child_cases[OF assms(5)] assms(2) by blast
  thus "nk_index k < split_leaf_index root h \<longleftrightarrow> is_anc (left_child root) k"
    "\<not> nk_index k < split_leaf_index root h \<longleftrightarrow> is_anc (right_child root) k"
    using L Rr s by auto
qed

lemma nca_of_split:
  assumes "valid_key c" "lev c < 64" "is_anc (left_child c) a" "is_anc (right_child c) b"
  shows "is_nca c a b"
proof -
  have "is_anc d c" if d: "is_anc d a" "is_anc d b" for d
  proof (cases "lev d \<le> lev c")
    case True
    thus ?thesis using is_anc_between[OF d(1)] is_anc_trans child_anc[OF assms(1,2)] assms(3)
      by blast
  next
    case False
    hence "is_anc (left_child c) d" using is_anc_between[OF assms(3) d(1)] assms(2) by simp
    hence "is_anc (left_child c) b" using d(2) is_anc_trans by blast
    hence "is_anc (left_child c) (right_child c)"
      using is_anc_between[OF _ assms(4)] lev_child[OF assms(2)] by simp
    moreover have "nk_level (left_child c) = nk_level (right_child c)"
      by (simp add: left_child_def right_child_def)
    ultimately show ?thesis using is_anc_same_level left_neq_right by blast
  qed
  thus ?thesis using child_anc[OF assms(1,2)] is_anc_trans assms(3,4) unfolding is_nca_def by blast
qed

section \<open>The builder returns the post-order of a well-formed tree\<close>

primrec ht :: "nca_tree \<Rightarrow> nat" where
  "ht (NLeaf k) = 0"
| "ht (NNode l c r) = 1 + max (ht l) (ht r)"

primrec laggs_of :: "nca_tree \<Rightarrow> (nca_agg \<times> nat) list" where
  "laggs_of (NLeaf k) = []"
| "laggs_of (NNode l c r) =
     laggs_of l @ laggs_of r @ [(mk_agg c (lab l) (lab r), 1 + max (ht l) (ht r))]"

lemma build_nil:
  "build_recursive_v0 [] root h aggs = Some (None, aggs)"
  "build_recursive_v1 [] root h aggs = Some (None, aggs)"
  "build_recursive_v2 [] root h laggs = Some (None, laggs)"
  by (simp_all add: build_recursive_v0.simps build_recursive_v1.simps build_recursive_v2.simps)

text \<open>The builder's precondition: distinct, sorted, valid leaves below the subtree root.\<close>

definition build_pre :: "node_key list \<Rightarrow> node_key \<Rightarrow> u8 \<Rightarrow> bool" where
  "build_pre nodes root h \<longleftrightarrow> sorted nodes \<and> distinct nodes \<and> valid_key root \<and> lev root \<le> unat h \<and>
     unat h \<le> 64 \<and> (\<forall>k \<in> set nodes. valid_key k \<and> nk_level k = h \<and> is_anc root k)"

text \<open>The builder's result for the three generations, as the post-order of one tree.\<close>

definition builds :: "node_key list \<Rightarrow> node_key \<Rightarrow> u8 \<Rightarrow> nca_tree \<Rightarrow> bool" where
  "builds nodes root h t \<longleftrightarrow> wf_tree h t \<and> leaves_of t = nodes \<and> is_anc root (lab t) \<and>
     (\<forall>aggs. build_recursive_v0 nodes root h aggs = Some (Some (lab t), aggs @ aggs_of t)) \<and>
     (\<forall>aggs. build_recursive_v1 nodes root h aggs = Some (Some (lab t), aggs @ aggs_of t)) \<and>
     (\<forall>laggs. build_recursive_v2 nodes root h laggs =
                Some (Some (lab t, ht t), laggs @ laggs_of t))"

lemma builds_single:
  "build_pre [k] root h \<Longrightarrow> builds [k] root h (NLeaf k)"
  by (auto simp: builds_def build_pre_def build_recursive_v0.simps[of "[k]"]
      build_recursive_v1.simps[of "[k]"]
      build_recursive_v2.simps[of "[k]"])

lemma split_sorted:
  assumes pre: "build_pre nodes root h" and lt: "lev root < unat h"
  shows "build_pre (takeWhile (\<lambda>k. nk_index k < split_leaf_index root h) nodes) (left_child root) h"
    "build_pre (dropWhile (\<lambda>k. nk_index k < split_leaf_index root h) nodes) (right_child root) h"
proof -
  let ?P = "\<lambda>k. nk_index k < split_leaf_index root h"
  have nd: "\<forall>k\<in>set nodes. valid_key k \<and> nk_level k = h \<and> is_anc root k" and v: "valid_key root"
    using pre by (auto simp: build_pre_def)
  have so: "sorted nodes" and di: "distinct nodes" using pre by (auto simp: build_pre_def)
  have part: "\<not> ?P k" if k: "k \<in> set (dropWhile ?P nodes)" for k
  proof -
    obtain x xs where x: "dropWhile ?P nodes = x # xs" using k by (cases "dropWhile ?P nodes") auto
    have "\<not> ?P x" using hd_dropWhile[of ?P nodes] x by simp
    moreover have "x \<le> k" using so k x sorted_dropWhile[OF so, of ?P] by auto
    moreover have "nk_level x = nk_level k"
      using nd k x set_dropWhileD by (metis list.set_intros(1))
    ultimately show ?thesis by (auto simp: less_eq_node_key_def)
  qed
  have l64: "lev root < 64" using pre lt by (auto simp: build_pre_def)
  have L: "valid_key k \<and> nk_level k = h \<and> is_anc (left_child root) k"
    if "k \<in> set (takeWhile ?P nodes)" for k
    using set_takeWhileD[OF that] nd split_correct(1)[OF v _ _ lt] by blast
  have R: "valid_key k \<and> nk_level k = h \<and> is_anc (right_child root) k"
    if "k \<in> set (dropWhile ?P nodes)" for k
    using set_dropWhileD[OF that] part[OF that] nd split_correct(2)[OF v _ _ lt] by blast
  show "build_pre (takeWhile ?P nodes) (left_child root) h"
    "build_pre (dropWhile ?P nodes) (right_child root) h"
    using L R so di pre lt child_valid[OF v l64] lev_child[OF l64]
    by (simp_all add: build_pre_def sorted_takeWhile sorted_dropWhile)
qed

lemma builds_node:
  assumes pre: "build_pre nodes root h" and lt: "lev root < unat h" and len: "1 < length nodes"
    and L: "builds (takeWhile (\<lambda>k. nk_index k < split_leaf_index root h) nodes)
              (left_child root) h l"
    and R: "builds (dropWhile (\<lambda>k. nk_index k < split_leaf_index root h) nodes)
              (right_child root) h r"
  shows "builds nodes root h (NNode l root r)"
proof -
  have v: "valid_key root" and l64: "lev root < 64" using pre lt by (auto simp: build_pre_def)
  have vl: "valid_key (lab l)" "valid_key (lab r)" using L R lab_valid by (auto simp: builds_def)
  have "is_nca root (lab l) (lab r)"
    using nca_of_split[OF v l64] L R by (auto simp: builds_def)
  hence nca: "find_nearest_common_ancestor (lab l) (lab r) = Some root"
    using find_nca_iff[OF vl] by blast
  have "leaves_of l @ leaves_of r = nodes" using L R by (auto simp: builds_def)
  thus ?thesis using L R nca len v lt
    by (auto simp: builds_def build_recursive_v0.simps[of nodes] build_recursive_v1.simps[of nodes]
        build_recursive_v2.simps[of nodes])
qed

lemma builds_pass:
  assumes pre: "build_pre nodes root h" and lt: "lev root < unat h" and len: "1 < length nodes"
  shows "dropWhile (\<lambda>k. nk_index k < split_leaf_index root h) nodes = [] \<Longrightarrow>
      builds nodes (left_child root) h t \<Longrightarrow> builds nodes root h t"
    "takeWhile (\<lambda>k. nk_index k < split_leaf_index root h) nodes = [] \<Longrightarrow>
      builds nodes (right_child root) h t \<Longrightarrow> builds nodes root h t"
proof -
  let ?P = "\<lambda>k. nk_index k < split_leaf_index root h"
  have v: "valid_key root" and l64: "lev root < 64" using pre lt by (auto simp: build_pre_def)
  have e: "takeWhile ?P nodes @ dropWhile ?P nodes = nodes" by simp
  show "builds nodes root h t" if d: "dropWhile ?P nodes = []" and b: "builds nodes (left_child root) h t"
  proof -
    have tk: "takeWhile ?P nodes = nodes" using e d by (metis append_Nil2)
    show ?thesis using b len is_anc_trans[OF child_anc(1)[OF v l64]]
      unfolding builds_def build_recursive_v0.simps[of nodes root] build_recursive_v1.simps[of nodes root]
        build_recursive_v2.simps[of nodes root] d tk build_nil by (simp, cases nodes) auto
  qed
  show "builds nodes root h t" if d: "takeWhile ?P nodes = []" and b: "builds nodes (right_child root) h t"
  proof -
    have tk: "dropWhile ?P nodes = nodes" using e d by (metis append_Nil)
    show ?thesis using b len is_anc_trans[OF child_anc(2)[OF v l64]]
      unfolding builds_def build_recursive_v0.simps[of nodes root] build_recursive_v1.simps[of nodes root]
        build_recursive_v2.simps[of nodes root] d tk build_nil by (simp, cases nodes) auto
  qed
qed

lemma builds_exists:
  "build_pre nodes root h \<Longrightarrow> nodes \<noteq> [] \<Longrightarrow> \<exists>t. builds nodes root h t"
proof (induction "unat h - lev root" arbitrary: nodes root)
  case 0
  have "k = root" if "k \<in> set nodes" for k
  proof -
    have k: "is_anc root k" "nk_level k = h" "lev root \<le> unat h"
      using "0.prems" that by (auto simp: build_pre_def)
    hence "lev root = lev k" using "0.hyps" by simp
    thus ?thesis using is_anc_same_level[OF k(1)] word_unat_eq_iff by blast
  qed
  hence "nodes = [root]" using "0.prems"
    by (cases nodes; cases "tl nodes") (auto simp: build_pre_def)
  thus ?case using builds_single "0.prems" by blast
next
  case (Suc n)
  have lt: "lev root < unat h" using Suc.hyps(2) by simp
  hence l64: "lev root < 64" using Suc.prems by (auto simp: build_pre_def)
  have n: "n = unat h - lev (left_child root)" "n = unat h - lev (right_child root)"
    using Suc.hyps(2) lev_child[OF l64] by auto
  note pl = split_sorted(1)[OF Suc.prems(1) lt] and pr = split_sorted(2)[OF Suc.prems(1) lt]
  let ?P = "\<lambda>k. nk_index k < split_leaf_index root h"
  have e: "takeWhile ?P nodes @ dropWhile ?P nodes = nodes" by simp
  show ?case
  proof (cases "length nodes = 1")
    case True
    then obtain k where "nodes = [k]" by (auto simp: length_Suc_conv)
    thus ?thesis using builds_single Suc.prems(1) by blast
  next
    case False
    hence len: "1 < length nodes" using Suc.prems(2) by (cases nodes) auto
    consider "takeWhile ?P nodes = []" | "dropWhile ?P nodes = []"
      | "takeWhile ?P nodes \<noteq> []" "dropWhile ?P nodes \<noteq> []" by blast
    thus ?thesis
    proof cases
      case 1
      hence "dropWhile ?P nodes = nodes" using e by (metis append_Nil)
      thus ?thesis using Suc.hyps(1)[OF n(2) pr] builds_pass(2)[OF Suc.prems(1) lt len 1] Suc.prems(2)
        by metis
    next
      case 2
      hence "takeWhile ?P nodes = nodes" using e by (metis append_Nil2)
      thus ?thesis using Suc.hyps(1)[OF n(1) pl] builds_pass(1)[OF Suc.prems(1) lt len 2] Suc.prems(2)
        by metis
    next
      case 3
      thus ?thesis using Suc.hyps(1)[OF n(1) pl] Suc.hyps(1)[OF n(2) pr]
          builds_node[OF Suc.prems(1) lt len] by blast
    qed
  qed
qed

text \<open>The input the planners are called with.\<close>

definition plan_input :: "node_key list \<Rightarrow> u8 \<Rightarrow> bool" where
  "plan_input leaves h \<longleftrightarrow> 2 \<le> length leaves \<and> distinct leaves \<and>
     list_all (\<lambda>k. valid_key k \<and> nk_level k = h) leaves"

lemma plan_builds:
  assumes "plan_input leaves h"
  shows "\<exists>t. builds (sort leaves) (Node_Key 0 0) h t"
proof -
  have k: "valid_key k" "nk_level k = h" if "k \<in> set leaves" for k
    using assms that by (auto simp: plan_input_def list_all_iff)
  have ne: "leaves \<noteq> []" using assms by (auto simp: plan_input_def)
  hence "unat h \<le> 64" using k by (metis list.set_intros(1) neq_Nil_conv valid_key_def)
  hence "build_pre (sort leaves) (Node_Key 0 0) h"
    using assms k root_anc by (auto simp: build_pre_def plan_input_def valid_key_def new_root_def)
  thus ?thesis using builds_exists ne by (metis set_empty set_sort)
qed

section \<open>The grouping loop returns the levels of the tree\<close>

fun inner :: "nca_tree \<Rightarrow> bool" where
  "inner (NLeaf k) = False"
| "inner (NNode l c r) = True"

fun top_agg :: "nca_tree \<Rightarrow> nca_agg" where
  "top_agg (NLeaf k) = mk_agg k k k"
| "top_agg (NNode l c r) = mk_agg c (lab l) (lab r)"

fun kids :: "nca_tree \<Rightarrow> nca_tree list" where
  "kids (NLeaf k) = []"
| "kids (NNode l c r) = filter inner [l, r]"

fun lvl :: "nat \<Rightarrow> nca_tree \<Rightarrow> nca_tree list" where
  "lvl n (NLeaf k) = []"
| "lvl 0 (NNode l c r) = [NNode l c r]"
| "lvl (Suc n) (NNode l c r) = lvl n l @ lvl n r"

primrec inners :: "nca_tree \<Rightarrow> nca_tree list" where
  "inners (NLeaf k) = []"
| "inners (NNode l c r) = inners l @ inners r @ [NNode l c r]"

definition tree_groups :: "nca_tree \<Rightarrow> nca_agg list list" where
  "tree_groups t = rev (map (\<lambda>n. map top_agg (lvl n t)) [0..<ht t])"

lemma lvl_0: "lvl 0 t = filter inner [t]"
  by (cases t) auto

lemma lvl_Suc: "lvl (Suc n) t = concat (map kids (lvl n t))"
proof (induction t arbitrary: n)
  case (NNode l c r)
  show ?case
  proof (cases n)
    case 0
    thus ?thesis by (cases l; cases r) auto
  next
    case (Suc m)
    thus ?thesis using NNode.IH[of m] by simp
  qed
qed simp

lemma lvl_nonempty: "lvl n t \<noteq> [] \<longleftrightarrow> n < ht t"
  by (induction n t rule: lvl.induct) auto

lemma length_lvl: "length (lvl n t) \<le> 2 ^ n"
  by (induction n t rule: lvl.induct) (auto simp: add_le_mono mult_2)

lemma set_lvl: "set (lvl n t) \<subseteq> set (inners t)"
  by (induction n t rule: lvl.induct) auto

lemma mset_lvls: "ht t \<le> m \<Longrightarrow> mset (concat (map (\<lambda>n. lvl n t) [0..<m])) = mset (inners t)"
proof (induction t arbitrary: m)
  case (NLeaf k)
  show ?case by (induction m) auto
next
  case (NNode l c r)
  then obtain m' where m: "m = Suc m'" "ht l \<le> m'" "ht r \<le> m'" by (cases m) auto
  have "mset (concat (map (\<lambda>n. lvl n l @ lvl n r) xs)) =
      mset (concat (map (\<lambda>n. lvl n l) xs)) + mset (concat (map (\<lambda>n. lvl n r) xs))" for xs
    by (induction xs) auto
  moreover have "map (\<lambda>n. lvl n (NNode l c r)) [0..<m] =
      [NNode l c r] # map (\<lambda>n. lvl n l @ lvl n r) [0..<m']"
    unfolding m(1) by (simp add: upt_conv_Cons map_Suc_upt[symmetric] del: upt_Suc)
  ultimately show ?case using NNode.IH m by simp
qed

lemma map_top_agg_inners: "map top_agg (inners t) = aggs_of t"
  by (induction t) auto

lemma inners_inner: "s \<in> set (inners t) \<Longrightarrow> inner s"
  by (induction t) auto

lemma inners_wf: "wf_tree h t \<Longrightarrow> s \<in> set (inners t) \<Longrightarrow> wf_tree h s"
  by (induction t) auto

lemma inners_trans: "s \<in> set (inners t) \<Longrightarrow> u \<in> set (inners s) \<Longrightarrow> u \<in> set (inners t)"
  by (induction t) auto

lemma inner_self: "inner t \<Longrightarrow> t \<in> set (inners t)"
  by (cases t) auto

lemma wf_64: "wf_tree h t \<Longrightarrow> unat h \<le> 64"
  by (induction t) (auto simp: valid_key_def)

lemma keys_under_lab:
  "wf_tree h t \<Longrightarrow> k \<in> set (ncas_of t) \<union> set (leaves_of t) \<Longrightarrow> is_anc (lab t) k"
proof (induction t)
  case (NNode l c r)
  have l64: "lev c < 64" using NNode.prems wf_64[of h l] by auto
  have v: "valid_key c" using NNode.prems by simp
  have "is_anc c (lab l)" "is_anc c (lab r)"
    using NNode.prems child_anc[OF v l64] is_anc_trans by auto
  thus ?case using NNode is_anc_trans by auto
qed simp

lemma left_right_disjoint:
  "is_anc (left_child c) k \<Longrightarrow> is_anc (right_child c) k \<Longrightarrow> False"
proof -
  assume a: "is_anc (left_child c) k" "is_anc (right_child c) k"
  have "nk_level (left_child c) = nk_level (right_child c)"
    by (simp add: left_child_def right_child_def)
  thus False using is_anc_between[OF a] is_anc_same_level left_neq_right by auto
qed

lemma distinct_ncas: "wf_tree h t \<Longrightarrow> distinct (ncas_of t)"
proof (induction t)
  case (NNode l c r)
  have l64: "lev c < 64" using NNode.prems wf_64[of h l] by auto
  have L: "is_anc (left_child c) k" if "k \<in> set (ncas_of l)" for k
    using that NNode.prems keys_under_lab[of h l k] is_anc_trans by auto
  have R: "is_anc (right_child c) k" if "k \<in> set (ncas_of r)" for k
    using that NNode.prems keys_under_lab[of h r k] is_anc_trans by auto
  have "c \<notin> set (ncas_of l)" "c \<notin> set (ncas_of r)"
    using L[of c] R[of c] lev_child[OF l64] by (auto simp: is_anc_def)
  thus ?case using NNode L R left_right_disjoint by auto
qed simp

lemma nca_map_lookup:
  assumes "distinct (map agg_nca aggs)" "x \<in> set aggs"
  shows "nca_map_of aggs (agg_nca x) = Some x"
proof -
  have "fold (\<lambda>x m. m(agg_nca x \<mapsto> x)) aggs m k =
      (case map_of (rev (map (\<lambda>x. (agg_nca x, x)) aggs)) k of Some v \<Rightarrow> Some v | None \<Rightarrow> m k)" for m k
    by (induction aggs arbitrary: m) (auto simp: map_add_def split: option.splits)
  moreover have "map_of (rev (map (\<lambda>x. (agg_nca x, x)) aggs)) (agg_nca x) = Some x"
    using assms by (intro map_of_is_SomeI) (auto simp: rev_map[symmetric] comp_def)
  ultimately show ?thesis by (simp add: nca_map_of_def)
qed

lemma nca_map_inner:
  assumes "wf_tree h t" "s \<in> set (inners t)"
  shows "nca_map_of (aggs_of t) (lab s) = Some (top_agg s)"
proof -
  have "top_agg s \<in> set (aggs_of t)" using assms(2) map_top_agg_inners by (metis imageI list.set_map)
  moreover have "agg_nca (top_agg s) = lab s" by (cases s) auto
  ultimately show ?thesis
    using nca_map_lookup[of "aggs_of t" "top_agg s"] distinct_ncas[OF assms(1)]
    by (simp add: map_agg_nca_aggs_of)
qed

lemma agg_children_kids:
  assumes "wf_tree h t" "s \<in> set (inners t)"
  shows "agg_children (nca_map_of (aggs_of t)) h (top_agg s) = map top_agg (kids s)"
proof -
  obtain l c r where s: "s = NNode l c r" using inners_inner[OF assms(2)] by (cases s) auto
  have look: "nca_map_of (aggs_of t) (lab u) = Some (top_agg u)" if "inner u" "u = l \<or> u = r" for u
    using nca_map_inner[OF assms(1)] inners_trans[OF assms(2)] inner_self[OF that(1)] that s by auto
  have lv: "nk_level (lab u) \<noteq> h \<longleftrightarrow> inner u" if "u = l \<or> u = r" for u
    using inners_wf[OF assms] that s by (cases u) auto
  show ?thesis using look lv s by (auto simp: agg_children_def)
qed

lemma children_of_lvl:
  assumes "wf_tree h t"
  shows "concat (map (agg_children (nca_map_of (aggs_of t)) h) (map top_agg (lvl n t))) =
    map top_agg (lvl (Suc n) t)"
proof -
  have "map (agg_children (nca_map_of (aggs_of t)) h \<circ> top_agg) (lvl n t) =
      map (map top_agg \<circ> kids) (lvl n t)"
    using agg_children_kids[OF assms] set_lvl[of n t] by (intro map_cong) auto
  thus ?thesis unfolding lvl_Suc map_concat map_map by (rule arg_cong)
qed

lemma group_loop_levels:
  assumes "wf_tree h t" "n < ht t"
  shows "group_loop (nca_map_of (aggs_of t)) h True (map top_agg (lvl n t)) acc =
    Some (acc @ map (\<lambda>n. map top_agg (lvl n t)) [n..<ht t], [])"
  using assms(2)
proof (induction "ht t - n" arbitrary: n acc)
  case (Suc d)
  let ?m = "nca_map_of (aggs_of t)"
  have step: "group_loop ?m h True (map top_agg (lvl n t)) acc =
      group_loop ?m h (lvl (Suc n) t \<noteq> []) (map top_agg (lvl (Suc n) t))
        (acc @ [map top_agg (lvl n t)])"
    by (subst group_loop.simps) (simp only: if_True Let_def children_of_lvl[OF assms(1)], simp)
  show ?case
  proof (cases "Suc n < ht t")
    case True
    thus ?thesis using step Suc.hyps(1)[of "Suc n"] Suc.hyps(2) Suc.prems
      by (simp add: lvl_nonempty[unfolded not_less] upt_conv_Cons lvl_nonempty)
  next
    case False
    hence e: "lvl (Suc n) t = []" "ht t = Suc n" using lvl_nonempty[of "Suc n" t] Suc.prems by auto
    thus ?thesis using step by (simp add: group_loop.simps[of _ _ False])
  qed
qed simp

lemma group_levels_tree:
  assumes "wf_tree h t" "inner t"
  shows "group_levels (aggs_of t) h (top_agg t) = Some (tree_groups t)"
proof -
  obtain l c r where t: "t = NNode l c r" using assms(2) by (cases t) auto
  have g: "group_loop (nca_map_of (aggs_of t)) h True [top_agg t] [] =
      Some (map (\<lambda>n. map top_agg (lvl n t)) [0..<ht t], [])"
    using group_loop_levels[OF assms(1), of 0 "[]"] t by simp
  have lf: "nk_level (lab u) = h \<longleftrightarrow> ht u = 0" if "u = l \<or> u = r" for u
    using assms(1) t that by (cases u) auto
  have top: "agg_left (top_agg t) = lab l" "agg_right (top_agg t) = lab r" using t by simp_all
  show ?thesis
  proof (cases "ht l = 0 \<and> ht r = 0")
    case True
    hence "group_levels (aggs_of t) h (top_agg t) = Some [[top_agg t]]"
      using lf unfolding group_levels_def top by simp
    thus ?thesis using True t by (simp add: tree_groups_def)
  next
    case False
    hence "\<not> (nk_level (agg_left (top_agg t)) = h \<and> nk_level (agg_right (top_agg t)) = h)"
      using lf unfolding top by blast
    thus ?thesis using g unfolding group_levels_def by (auto simp: tree_groups_def)
  qed
qed

lemma last_aggs_of: "inner t \<Longrightarrow> aggs_of t \<noteq> [] \<and> last (aggs_of t) = top_agg t"
  by (cases t) auto

lemma plan_tree:
  assumes "plan_input leaves h"
  shows "\<exists>t. wf_tree h t \<and> inner t \<and> leaves_of t = sort leaves \<and>
    generate_nca_tree_groups_v1 leaves leaf_level = Some (tree_groups t) \<and>
    generate_nca_tree_groups_v0 leaves h = Some (tree_groups t) \<and>
    build_recursive_v2 (sort leaves) (Node_Key 0 0) h [] = Some (Some (lab t, ht t), laggs_of t)"
proof -
  obtain t where t: "builds (sort leaves) (Node_Key 0 0) h t" using plan_builds[OF assms] by blast
  have len: "\<not> length leaves < 2" using assms by (simp add: plan_input_def)
  have lv: "nk_level (leaves ! 0) = h" using assms
    by (cases leaves) (auto simp: plan_input_def)
  have wf: "wf_tree h t" and lo: "leaves_of t = sort leaves"
    and b0: "build_recursive_v0 (sort leaves) (Node_Key 0 0) h [] = Some (Some (lab t), aggs_of t)"
    and b1: "build_recursive_v1 (sort leaves) (Node_Key 0 0) h [] = Some (Some (lab t), aggs_of t)"
    and b2: "build_recursive_v2 (sort leaves) (Node_Key 0 0) h [] = Some (Some (lab t, ht t), laggs_of t)"
    using t by (auto simp: builds_def)
  have i: "inner t" using lo len by (cases t) (auto dest: arg_cong[of _ _ length])
  note l = last_aggs_of[OF i] and g = group_levels_tree[OF wf i]
  have v1: "generate_nca_tree_groups_v1 leaves leaf_level = Some (tree_groups t)"
    unfolding generate_nca_tree_groups_v1_def Let_def lv b1 using len l g by simp
  have v0: "generate_nca_tree_groups_v0 leaves h = Some (tree_groups t)"
    unfolding generate_nca_tree_groups_v0_def generate_nca_tree_v0_def Let_def lv b0
    using len l g by simp
  show ?thesis using wf i lo v1 v0 b2 by blast
qed

section \<open>The levels of a tree pass the checker\<close>

lemma mset_concat_rev_map:
  "mset (concat (rev (map (\<lambda>n. map f (g n)) xs))) = image_mset f (mset (concat (map g xs)))"
  by (induction xs) auto

lemma concat_tree_groups: "mset (concat (tree_groups t)) = mset (aggs_of t)"
  unfolding tree_groups_def mset_concat_rev_map
  by (simp only: mset_lvls[of t "ht t", OF order_refl] mset_map[symmetric] map_top_agg_inners)

lemma mset_lvl_sub: "mset (lvl n t) \<subseteq># mset (inners t)"
proof (induction n t rule: lvl.induct)
  case (3 n l c r)
  hence "mset (lvl n l) + mset (lvl n r) \<subseteq># mset (inners l) + mset (inners r)"
    by (intro subset_mset.add_mono)
  thus ?case by (simp add: subset_mset.order_trans)
qed auto

lemma distinct_mset_sub: "distinct xs \<Longrightarrow> mset ys \<subseteq># mset xs \<Longrightarrow> distinct ys"
proof -
  assume a: "distinct xs" "mset ys \<subseteq># mset xs"
  have "count (mset ys) z \<le> 1" for z
    using mset_subset_eq_count[OF a(2), of z] distinct_count_atmost_1[of xs] a(1)
    by (metis le_SucI le_trans One_nat_def le_numeral_extra(4))
  hence "count (mset ys) z = (if z \<in> set ys then 1 else 0)" for z
    by (metis One_nat_def count_eq_zero_iff le_antisym set_mset_mset Suc_leI bot_nat_0.not_eq_extremum)
  thus ?thesis by (simp add: distinct_count_atmost_1)
qed

lemma filter_key_le1: "distinct (map f xs) \<Longrightarrow> length (filter (\<lambda>x. f x = v) xs) \<le> 1"
  by (induction xs) (auto simp: filter_empty_conv, metis image_eqI)

lemma leaves_level: "wf_tree h t \<Longrightarrow> k \<in> set (leaves_of t) \<Longrightarrow> nk_level k = h"
  by (induction t) auto

lemma ncas_level: "wf_tree h t \<Longrightarrow> k \<in> set (ncas_of t) \<Longrightarrow> nk_level k \<noteq> h"
  by (induction t) auto

lemma distinct_operands:
  assumes "wf_tree h t" "distinct (leaves_of t)"
  shows "distinct (map agg_left (aggs_of t))" "distinct (map agg_right (aggs_of t))"
proof -
  have "distinct (leaves_of t @ ncas_of t)"
    using assms distinct_ncas leaves_level ncas_level by fastforce
  moreover have "mset (leaves_of t @ ncas_of t) =
      mset (map agg_left (aggs_of t)) + (mset (map agg_right (aggs_of t)) + {#lab t#})"
    "mset (leaves_of t @ ncas_of t) =
      mset (map agg_right (aggs_of t)) + (mset (map agg_left (aggs_of t)) + {#lab t#})"
    using consumption_balance[of t] by (simp_all add: ac_simps)
  ultimately show "distinct (map agg_left (aggs_of t))" "distinct (map agg_right (aggs_of t))"
    using distinct_mset_sub mset_subset_eq_add_left by metis+
qed

lemma distinct_lvl:
  assumes "distinct (map f (aggs_of t))"
  shows "distinct (map f (map top_agg (lvl n t)))"
proof (rule distinct_mset_sub[OF assms])
  have "mset (map f (aggs_of t)) = image_mset f (image_mset top_agg (mset (inners t)))"
    by (simp add: map_top_agg_inners[symmetric] multiset.map_comp)
  thus "mset (map f (map top_agg (lvl n t))) \<subseteq># mset (map f (aggs_of t))"
    using image_mset_subseteq_mono[OF image_mset_subseteq_mono[OF mset_lvl_sub[of n t]]]
    by (simp add: multiset.map_comp)
qed

lemma operand_below:
  assumes "wf_tree h t" "s \<in> set (lvl n t)"
  shows "nk_level (agg_left (top_agg s)) \<noteq> h \<Longrightarrow>
      \<exists>u \<in> set (lvl (Suc n) t). agg_nca (top_agg u) = agg_left (top_agg s)"
    "nk_level (agg_right (top_agg s)) \<noteq> h \<Longrightarrow>
      \<exists>u \<in> set (lvl (Suc n) t). agg_nca (top_agg u) = agg_right (top_agg s)"
proof -
  have s: "s \<in> set (inners t)" using assms(2) set_lvl by blast
  obtain l c r where n: "s = NNode l c r" using inners_inner[OF s] by (cases s) auto
  have wf: "wf_tree h l" "wf_tree h r" using inners_wf[OF assms(1) s] n by auto
  have k: "set (kids s) \<subseteq> set (lvl (Suc n) t)" unfolding lvl_Suc using assms(2) by auto
  have *: "\<exists>u \<in> set (lvl (Suc n) t). agg_nca (top_agg u) = lab v"
    if "v = l \<or> v = r" "nk_level (lab v) \<noteq> h" for v
  proof -
    have "inner v" using that wf by (cases v) auto
    hence "v \<in> set (kids s)" using n that by auto
    moreover have "agg_nca (top_agg v) = lab v" by (cases v) auto
    ultimately show ?thesis using k by blast
  qed
  show "nk_level (agg_left (top_agg s)) \<noteq> h \<Longrightarrow>
      \<exists>u \<in> set (lvl (Suc n) t). agg_nca (top_agg u) = agg_left (top_agg s)"
    using *[of l] n by auto
  show "nk_level (agg_right (top_agg s)) \<noteq> h \<Longrightarrow>
      \<exists>u \<in> set (lvl (Suc n) t). agg_nca (top_agg u) = agg_right (top_agg s)"
    using *[of r] n by auto
qed

lemma tree_groups_nth:
  "i < ht t \<Longrightarrow> tree_groups t ! i = map top_agg (lvl (ht t - Suc i) t)"
  by (simp add: tree_groups_def rev_nth)

lemma length_tree_groups [simp]: "length (tree_groups t) = ht t"
  by (simp add: tree_groups_def)

lemma tree_groups_check:
  assumes "wf_tree h t" "distinct (leaves_of t)"
  shows "check_nca_tree_groups (tree_groups t) h"
  unfolding check_nca_tree_groups_def list_all_iff
proof (intro ballI)
  fix i node assume "i \<in> set [1..<length (tree_groups t)]" and node: "node \<in> set (tree_groups t ! i)"
  hence i: "0 < i" "i < ht t" by auto
  define n where "n = ht t - Suc i"
  have n: "ht t - Suc (i - 1) = Suc n" using i by (simp add: n_def)
  have g: "tree_groups t ! i = map top_agg (lvl n t)" "tree_groups t ! (i - 1) = map top_agg (lvl (Suc n) t)"
    using i tree_groups_nth[of i t] tree_groups_nth[of "i - 1" t] n by (simp_all add: n_def)
  obtain s where s: "s \<in> set (lvl n t)" "node = top_agg s" using node g by auto
  note d = distinct_lvl[of agg_nca t n] distinct_lvl[of agg_left t n] distinct_lvl[of agg_right t n]
  have "distinct (map agg_nca (aggs_of t))"
    using distinct_ncas[OF assms(1)] by (simp add: map_agg_nca_aggs_of)
  note u = d(1)[OF this] d(2)[OF distinct_operands(1)[OF assms]] d(3)[OF distinct_operands(2)[OF assms]]
  have len: "length (filter (\<lambda>x. agg_nca x = agg_nca node) (map top_agg (lvl n t))) \<le> 1"
    "length (filter (\<lambda>x. agg_left x = agg_left node) (map top_agg (lvl n t))) \<le> 1"
    "length (filter (\<lambda>x. agg_right x = agg_right node) (map top_agg (lvl n t))) \<le> 1"
    by (rule filter_key_le1[OF u(1)] filter_key_le1[OF u(2)] filter_key_le1[OF u(3)])+
  show "check_nca_node (tree_groups t ! (i - 1)) (tree_groups t ! i) h node"
    unfolding check_nca_node_def g using len operand_below[OF assms(1) s(1)] s(2)
    by (auto simp: list_ex_iff not_less)
qed

lemma tree_groups_first:
  assumes "wf_tree h t" "inner t" "a \<in> set (tree_groups t ! 0)"
  shows "nk_level (agg_left a) = h" "nk_level (agg_right a) = h"
proof -
  obtain m where m: "ht t = Suc m" using assms(2) by (cases t) auto
  obtain s where s: "s \<in> set (lvl m t)" "a = top_agg s"
    using assms(3) tree_groups_nth[of 0 t] m by auto
  have "lvl (Suc m) t = []" using lvl_nonempty[of "Suc m" t] m by auto
  thus "nk_level (agg_left a) = h" "nk_level (agg_right a) = h"
    using operand_below[OF assms(1) s(1)] s(2) by auto
qed

lemma tree_groups_last: "inner t \<Longrightarrow> tree_groups t \<noteq> [] \<and> last (tree_groups t) = [top_agg t]"
  by (cases t) (simp_all add: tree_groups_def last_rev hd_map upt_rec del: upt_Suc)

lemma tree_groups_width:
  assumes "i < length (tree_groups t)"
  shows "length (tree_groups t ! i) \<le> 2 ^ (length (tree_groups t) - 1 - i)"
  using assms tree_groups_nth[of i t] length_lvl[of "ht t - Suc i" t] by simp

lemma aggs_of_nca:
  "wf_tree h t \<Longrightarrow> a \<in> set (aggs_of t) \<Longrightarrow>
   find_nearest_common_ancestor (agg_left a) (agg_right a) = Some (agg_nca a) \<and>
   is_anc (left_child (agg_nca a)) (agg_left a) \<and> is_anc (right_child (agg_nca a)) (agg_right a)"
proof (induction t)
  case (NNode l c r)
  have l64: "lev c < 64" using NNode.prems wf_64[of h l] by auto
  have "is_nca c (lab l) (lab r)" using nca_of_split[OF _ l64] NNode.prems by auto
  hence "find_nearest_common_ancestor (lab l) (lab r) = Some c"
    using find_nca_iff lab_valid NNode.prems(1) by auto
  thus ?case using NNode by auto
qed simp

section \<open>The third generation: groups by height\<close>

lemma map_fst_laggs: "map fst (laggs_of t) = aggs_of t"
  by (induction t) auto

lemma laggs_range: "(a, n) \<in> set (laggs_of t) \<Longrightarrow> 0 < n \<and> n \<le> ht t"
  by (induction t) auto

lemma laggs_every_level: "0 < n \<Longrightarrow> n \<le> ht t \<Longrightarrow> \<exists>a. (a, n) \<in> set (laggs_of t)"
proof (induction t)
  case (NNode l c r)
  show ?case
  proof (cases "n = ht (NNode l c r)")
    case False
    hence "n \<le> ht l \<or> n \<le> ht r" using NNode.prems by auto
    thus ?thesis using NNode by auto
  qed auto
qed simp

lemma lab_in_laggs: "inner t \<Longrightarrow> (top_agg t, ht t) \<in> set (laggs_of t)"
  by (cases t) auto

lemma laggs_dep:
  "wf_tree h t \<Longrightarrow> (a, n) \<in> set (laggs_of t) \<Longrightarrow> k = agg_left a \<or> k = agg_right a \<Longrightarrow>
   nk_level k \<noteq> h \<Longrightarrow> \<exists>b m. (b, m) \<in> set (laggs_of t) \<and> agg_nca b = k \<and> m < n"
proof (induction t)
  case (NNode l c r)
  have *: "\<exists>b m. (b, m) \<in> set (laggs_of u) \<and> agg_nca b = lab u \<and> m < 1 + max (ht l) (ht r)"
    if "u = l \<or> u = r" "nk_level (lab u) \<noteq> h" for u
  proof -
    have i: "inner u" using that NNode.prems(1) by (cases u) auto
    moreover have "agg_nca (top_agg u) = lab u" by (cases u) auto
    ultimately show ?thesis using lab_in_laggs[OF i] that by fastforce
  qed
  consider "(a, n) \<in> set (laggs_of l)" | "(a, n) \<in> set (laggs_of r)"
    | "a = mk_agg c (lab l) (lab r)" "n = 1 + max (ht l) (ht r)"
    using NNode.prems(2) by auto
  thus ?case
  proof cases
    case 1
    then obtain b m where "(b, m) \<in> set (laggs_of l)" "agg_nca b = k" "m < n"
      using NNode.IH(1) NNode.prems by auto
    thus ?thesis by auto
  next
    case 2
    then obtain b m where "(b, m) \<in> set (laggs_of r)" "agg_nca b = k" "m < n"
      using NNode.IH(2) NNode.prems by auto
    thus ?thesis by auto
  next
    case 3
    hence "\<exists>u. (u = l \<or> u = r) \<and> k = lab u" using NNode.prems(3) by auto
    then obtain u b m where "u = l \<or> u = r" "(b, m) \<in> set (laggs_of u)" "agg_nca b = k" "m < n"
      using * NNode.prems(4) 3(2) by blast
    thus ?thesis by auto
  qed
qed simp

lemma length_push_group [simp]: "length (push_group al gs) = length gs"
  by (simp add: push_group_def)

lemma fold_push_group:
  "\<forall>al \<in> set als. 0 < snd al \<and> snd al \<le> length gs \<Longrightarrow>
   fold push_group als gs =
     map (\<lambda>i. gs ! i @ map fst (filter (\<lambda>al. snd al = Suc i) als)) [0..<length gs]"
proof (induction als arbitrary: gs)
  case Nil
  show ?case by (simp add: map_nth)
next
  case (Cons al als)
  have "fold push_group als (push_group al gs) =
      map (\<lambda>i. push_group al gs ! i @ map fst (filter (\<lambda>al. snd al = Suc i) als)) [0..<length gs]"
    using Cons.IH[of "push_group al gs"] Cons.prems by simp
  moreover have "push_group al gs ! i @ map fst (filter (\<lambda>x. snd x = Suc i) als) =
      gs ! i @ map fst (filter (\<lambda>x. snd x = Suc i) (al # als))" if "i < length gs" for i
    using that Cons.prems by (auto simp: push_group_def nth_list_update)
  ultimately show ?case by (simp del: filter.simps)
qed

lemma mset_buckets:
  "\<forall>al \<in> set als. 0 < snd al \<and> snd al \<le> m \<Longrightarrow>
   mset (concat (map (\<lambda>i. map fst (filter (\<lambda>al. snd al = Suc i) als)) [0..<m])) = mset (map fst als)"
proof (induction als)
  case Nil
  show ?case by (induction m) auto
next
  case (Cons al als)
  have "mset (concat (map (\<lambda>i. map fst (filter (\<lambda>x. snd x = Suc i) (al # als))) xs)) =
      mset (concat (map (\<lambda>i. if snd al = Suc i then [fst al] else []) xs)) +
      mset (concat (map (\<lambda>i. map fst (filter (\<lambda>x. snd x = Suc i) als)) xs))" for xs
    by (induction xs) auto
  moreover have "concat (map (\<lambda>i. if snd al = Suc i then [fst al] else []) [0..<n]) =
      (if 0 < snd al \<and> snd al \<le> n then [fst al] else [])" for n
    by (induction n) auto
  ultimately show ?case using Cons by simp
qed

lemma plan_v2:
  assumes "plan_input leaves h"
  shows "\<exists>t. wf_tree h t \<and> inner t \<and> leaves_of t = sort leaves \<and>
    generate_nca_tree_groups_v1 leaves leaf_level = Some (tree_groups t) \<and>
    generate_nca_tree_groups_v2 leaves leaf_level =
      Some (map (\<lambda>i. map fst (filter (\<lambda>al. snd al = Suc i) (laggs_of t))) [0..<ht t])"
proof -
  obtain t where t: "wf_tree h t" "inner t" "leaves_of t = sort leaves"
    "generate_nca_tree_groups_v1 leaves leaf_level = Some (tree_groups t)"
    "build_recursive_v2 (sort leaves) (Node_Key 0 0) h [] = Some (Some (lab t, ht t), laggs_of t)"
    using plan_tree[OF assms] by blast
  have len: "\<not> length leaves < 2" using assms by (simp add: plan_input_def)
  have lv: "nk_level (leaves ! 0) = h" using assms by (cases leaves) (auto simp: plan_input_def)
  let ?G = "map (\<lambda>i. map fst (filter (\<lambda>al. snd al = Suc i) (laggs_of t))) [0..<ht t]"
  have ne: "laggs_of t \<noteq> []" using lab_in_laggs[OF t(2)] by auto
  have mx: "Max (set (map snd (laggs_of t))) = ht t"
    using laggs_range[of _ _ t] lab_in_laggs[OF t(2)] by (intro Max_eqI) force+
  have rg: "\<forall>al\<in>set (laggs_of t). 0 < snd al \<and> snd al \<le> length (replicate (ht t) ([]::nca_agg list))"
    using laggs_range[of _ _ t] by auto
  have G: "fold push_group (laggs_of t) (replicate (ht t) []) = ?G"
    unfolding fold_push_group[OF rg] by simp
  have "filter (\<lambda>al. snd al = Suc i) (laggs_of t) \<noteq> []" if "i < ht t" for i
    using laggs_every_level[of "Suc i" t] that by (force simp: filter_empty_conv)
  hence "filter (\<lambda>g. g \<noteq> []) ?G = ?G" by (intro filter_True) auto
  hence "generate_nca_tree_groups_v2 leaves leaf_level = Some ?G"
    unfolding generate_nca_tree_groups_v2_def Let_def lv t(5) using len ne G
    by (simp only: mx if_False bind.bind_lunit prod.case)
  thus ?thesis using t by blast
qed

section \<open>Properties\<close>

text \<open>
  C1. For two or more distinct leaves of one level the planner returns a schedule: it has
  exactly one aggregation fewer than leaves, the checker accepts it, the first group works on
  leaves only, and the last group is the single final aggregation.
\<close>

theorem planner_schedule_correct:
  assumes "plan_input leaves h"
  shows "\<exists>groups root. generate_nca_tree_groups_v1 leaves leaf_level = Some groups \<and>
    groups \<noteq> [] \<and> last groups = [root] \<and>
    Suc (length (concat groups)) = length leaves \<and>
    check_nca_tree_groups groups h \<and>
    list_all (\<lambda>a. nk_level (agg_left a) = h \<and> nk_level (agg_right a) = h) (groups ! 0)"
proof -
  obtain t where t: "wf_tree h t" "inner t" "leaves_of t = sort leaves"
    "generate_nca_tree_groups_v1 leaves leaf_level = Some (tree_groups t)"
    using plan_tree[OF assms] by blast
  have "length (concat (tree_groups t)) = length (aggs_of t)"
    using concat_tree_groups by (rule mset_eq_length)
  moreover have "distinct (leaves_of t)" using assms t(3) by (simp add: plan_input_def)
  ultimately show ?thesis
    using t tree_groups_check[OF t(1)] tree_groups_first[OF t(1,2)] tree_groups_last[OF t(2)]
      length_aggs_of[of t] by (auto simp: list_all_iff)
qed

theorem planner_schedule_correct_witness:
  "\<exists>groups root.
    generate_nca_tree_groups_v1 [Node_Key 2 3, Node_Key 2 0, Node_Key 2 1] 2 = Some groups \<and>
    groups \<noteq> [] \<and> last groups = [root] \<and> 
    Suc (length (concat groups)) = length [Node_Key 2 3, Node_Key 2 0, Node_Key 2 1] \<and>
    check_nca_tree_groups groups 2 \<and>
    list_all (\<lambda>a. nk_level (agg_left a) = 2 \<and> nk_level (agg_right a) = 2) (groups ! 0)"
  using planner_schedule_correct[of "[Node_Key 2 3, Node_Key 2 0, Node_Key 2 1]" 2 2]
  by (simp add: plan_input_def valid_key_def)

text \<open>
  C5. Conservation: over the whole schedule every leaf and every intermediate result is an
  operand exactly once, the final result excepted.
\<close>

theorem planner_consumes_once:
  assumes "plan_input leaves h"
  shows "\<exists>groups. generate_nca_tree_groups_v1 leaves leaf_level = Some groups \<and>
    mset (map agg_left (concat groups)) + mset (map agg_right (concat groups)) +
      {#agg_nca (hd (last groups))#} = mset leaves + mset (map agg_nca (concat groups))"
proof -
  obtain t where t: "wf_tree h t" "inner t" "leaves_of t = sort leaves"
    "generate_nca_tree_groups_v1 leaves leaf_level = Some (tree_groups t)"
    using plan_tree[OF assms] by blast
  have m: "mset (map f (concat (tree_groups t))) = mset (map f (aggs_of t))" for f :: "nca_agg \<Rightarrow> node_key"
    using concat_tree_groups[of t] by (metis mset_map)
  have "agg_nca (hd (last (tree_groups t))) = lab t"
    using tree_groups_last[OF t(2)] t(2) by (cases t) auto
  hence "mset (map agg_left (concat (tree_groups t))) + mset (map agg_right (concat (tree_groups t))) +
      {#agg_nca (hd (last (tree_groups t)))#} =
      mset leaves + mset (map agg_nca (concat (tree_groups t)))"
    using consumption_balance[of t] t(3) unfolding m map_agg_nca_aggs_of by (metis mset_sort)
  thus ?thesis using t(4) by blast
qed

theorem planner_consumes_once_witness:
  "\<exists>groups. generate_nca_tree_groups_v1 [Node_Key 3 5, Node_Key 3 0] 3 = Some groups \<and>
    mset (map agg_left (concat groups)) + mset (map agg_right (concat groups)) +
      {#agg_nca (hd (last groups))#} =
    mset [Node_Key 3 5, Node_Key 3 0] + mset (map agg_nca (concat groups))"
  using planner_consumes_once[of "[Node_Key 3 5, Node_Key 3 0]" 3 3]
  by (simp add: plan_input_def valid_key_def)

text \<open>
  Every aggregation of the schedule is placed at the nearest common ancestor of its
  operands, the left operand in the left subtree of that node and the right one in the right.
\<close>

lemma planner_places_at_nca:
  assumes "plan_input leaves h"
  shows "\<exists>groups. generate_nca_tree_groups_v1 leaves leaf_level = Some groups \<and>
    list_all (\<lambda>a. find_nearest_common_ancestor (agg_left a) (agg_right a) = Some (agg_nca a) \<and>
        is_anc (left_child (agg_nca a)) (agg_left a) \<and>
        is_anc (right_child (agg_nca a)) (agg_right a)) (concat groups)"
proof -
  obtain t where t: "wf_tree h t" "generate_nca_tree_groups_v1 leaves leaf_level = Some (tree_groups t)"
    using plan_tree[OF assms] by blast
  have "set (concat (tree_groups t)) = set (aggs_of t)"
    using concat_tree_groups by (rule mset_eq_setD)
  thus ?thesis using t aggs_of_nca[OF t(1)] by (simp add: list_all_iff del: set_concat)
qed

lemma planner_places_at_nca_witness:
  "\<exists>groups. generate_nca_tree_groups_v1 [Node_Key 3 5, Node_Key 3 0, Node_Key 3 4] 3 = Some groups \<and>
    list_all (\<lambda>a. find_nearest_common_ancestor (agg_left a) (agg_right a) = Some (agg_nca a) \<and>
        is_anc (left_child (agg_nca a)) (agg_left a) \<and>
        is_anc (right_child (agg_nca a)) (agg_right a)) (concat groups)"
  using planner_places_at_nca[of "[Node_Key 3 5, Node_Key 3 0, Node_Key 3 4]" 3 3]
  by (simp add: plan_input_def valid_key_def)

text \<open>
  The two generations that group by breadth-first level agree on every admissible input.
\<close>

lemma planner_v0_v1_agree:
  assumes "plan_input leaves h"
  shows "generate_nca_tree_groups_v0 leaves h = generate_nca_tree_groups_v1 leaves leaf_level"
  using plan_tree[OF assms, of leaf_level] by metis

lemma planner_v0_v1_agree_witness:
  "generate_nca_tree_groups_v0 [Node_Key 4 9, Node_Key 4 2, Node_Key 4 3] 4 =
   generate_nca_tree_groups_v1 [Node_Key 4 9, Node_Key 4 2, Node_Key 4 3] 0"
  using planner_v0_v1_agree[of "[Node_Key 4 9, Node_Key 4 2, Node_Key 4 3]" 4 0]
  by (simp add: plan_input_def valid_key_def)

text \<open>
  C39. The third generation schedules the same aggregations as \<open>v1\<close>, and every operand that
  is not a leaf is the result of a strictly earlier group.
\<close>

theorem planner_v2_same_jobs_in_order:
  assumes "plan_input leaves h"
  shows "\<exists>g1 g2. generate_nca_tree_groups_v1 leaves leaf_level = Some g1 \<and>
    generate_nca_tree_groups_v2 leaves leaf_level = Some g2 \<and>
    mset (concat g2) = mset (concat g1) \<and>
    (\<forall>i a k. i < length g2 \<longrightarrow> a \<in> set (g2 ! i) \<longrightarrow> k = agg_left a \<or> k = agg_right a \<longrightarrow>
      nk_level k \<noteq> h \<longrightarrow> (\<exists>j < i. \<exists>b \<in> set (g2 ! j). agg_nca b = k))"
proof -
  obtain t where t: "wf_tree h t" "generate_nca_tree_groups_v1 leaves leaf_level = Some (tree_groups t)"
    "generate_nca_tree_groups_v2 leaves leaf_level =
      Some (map (\<lambda>i. map fst (filter (\<lambda>al. snd al = Suc i) (laggs_of t))) [0..<ht t])"
    using plan_v2[OF assms] by blast
  let ?G = "map (\<lambda>i. map fst (filter (\<lambda>al. snd al = Suc i) (laggs_of t))) [0..<ht t]"
  have "mset (concat ?G) = mset (aggs_of t)"
    using mset_buckets[of "laggs_of t" "ht t"] laggs_range[of _ _ t] unfolding map_fst_laggs by force
  moreover have "\<exists>j < i. \<exists>b \<in> set (?G ! j). agg_nca b = k"
    if i: "i < length ?G" "a \<in> set (?G ! i)" "k = agg_left a \<or> k = agg_right a" "nk_level k \<noteq> h" for i a k
  proof -
    have "(a, Suc i) \<in> set (laggs_of t)" using i(1,2) by auto
    then obtain b m where b: "(b, m) \<in> set (laggs_of t)" "agg_nca b = k" "m < Suc i"
      using laggs_dep[OF t(1) _ i(3,4)] by blast
    then obtain j where j: "m = Suc j" using laggs_range[OF b(1)] by (cases m) auto
    have "b \<in> set (?G ! j)" using b i(1) j by force
    thus ?thesis using b j by auto
  qed
  ultimately show ?thesis using t concat_tree_groups by (simp del: set_map)
qed

theorem planner_v2_same_jobs_in_order_witness:
  "\<exists>g1 g2. generate_nca_tree_groups_v1 [Node_Key 3 6, Node_Key 3 1, Node_Key 3 0] 3 = Some g1 \<and>
    generate_nca_tree_groups_v2 [Node_Key 3 6, Node_Key 3 1, Node_Key 3 0] 3 = Some g2 \<and>
    mset (concat g2) = mset (concat g1)"
  using planner_v2_same_jobs_in_order[of "[Node_Key 3 6, Node_Key 3 1, Node_Key 3 0]" 3 3]
  by (auto simp: plan_input_def valid_key_def)

end
