(* ===== verification/Merkle_Planner.thy ===== *)
theory Merkle_Planner
  imports Nca_Planner
begin

unbundle bit_operations_syntax

text \<open>
  The planner drivers of \<open>src/parth_core/src/data/hash/merkle_planner.rs\<close>: they compute the
  aggregation schedule of a set of leaves and call a visitor on every aggregation, passing the
  results of the operands and the position of the job in the reward tree. The visitor is a
  parameter: a function from its own state and the call's arguments to a result and a new
  state, or an error.
\<close>

section \<open>The drivers\<close>

type_synonym ('s, 'a, 'e) visitor =
  "'s \<Rightarrow> 'a \<Rightarrow> node_key \<Rightarrow> 'a \<Rightarrow> node_key \<Rightarrow> node_key \<Rightarrow> node_key \<Rightarrow> bool \<Rightarrow> 'e + ('a \<times> 's)"

type_synonym ('s, 'a) pure_visitor =
  "'s \<Rightarrow> 'a \<Rightarrow> node_key \<Rightarrow> 'a \<Rightarrow> node_key \<Rightarrow> node_key \<Rightarrow> node_key \<Rightarrow> 'a \<times> 's"

definition lift_visitor :: "('s, 'a) pure_visitor \<Rightarrow> ('s, 'a, 'e) visitor" where
  "lift_visitor visit = (\<lambda>s l lk r rk nk rw _. Inr (visit s l lk r rk nk rw))"

text \<open>
  The body of the inner loop, for one group. \<open>None\<close> is the \<open>unwrap\<close> of an operand that has
  no result; an error of the visitor ends the run.
\<close>

fun visit_group ::
  "('s, 'a, 'e) visitor \<Rightarrow> (nat \<Rightarrow> node_key) \<Rightarrow> bool \<Rightarrow> nat \<Rightarrow> nca_agg list \<Rightarrow>
   (node_key \<rightharpoonup> 'a) \<Rightarrow> 's \<Rightarrow> ('e + (node_key \<rightharpoonup> 'a) \<times> 's) option" where
  "visit_group visit reward_key is_reward_root index [] m s = Some (Inr (m, s))"
| "visit_group visit reward_key is_reward_root index (g # gl) m s =
     do { left_child \<leftarrow> m (agg_left g);
          right_child \<leftarrow> m (agg_right g);
          (case visit s left_child (agg_left g) right_child (agg_right g) (agg_nca g)
                  (reward_key index) is_reward_root of
             Inl e \<Rightarrow> Some (Inl e)
           | Inr (parent_result, s') \<Rightarrow>
               visit_group visit reward_key is_reward_root (Suc index) gl
                 (m(agg_nca g \<mapsto> parent_result)) s') }"

text \<open>The outer loop, \<open>group_levels.iter().enumerate()\<close>.\<close>

fun visit_groups ::
  "('s, 'a, 'e) visitor \<Rightarrow> (nat \<Rightarrow> nat \<Rightarrow> node_key) \<Rightarrow> nat \<Rightarrow> nca_agg list list \<Rightarrow>
   (node_key \<rightharpoonup> 'a) \<Rightarrow> 's \<Rightarrow> ('e + (node_key \<rightharpoonup> 'a) \<times> 's) option" where
  "visit_groups visit reward_key level [] m s = Some (Inr (m, s))"
| "visit_groups visit reward_key level (gl # gls) m s =
     do { r \<leftarrow> visit_group visit (reward_key level) (level = 0) 0 gl m s;
          (case r of Inl e \<Rightarrow> Some (Inl e)
           | Inr (m', s') \<Rightarrow> visit_groups visit reward_key (Suc level) gls m' s') }"

definition result_map_of :: "(node_key \<times> 'a) list \<Rightarrow> node_key \<rightharpoonup> 'a" where
  "result_map_of leaves = fold (\<lambda>(k, v) m. m(k \<mapsto> v)) leaves Map.empty"

text \<open>
  Loop and result extraction. On an empty schedule the subtraction wraps and
  \<open>group_levels.last().unwrap()\<close> panics.
\<close>

definition run_groups ::
  "('s, 'a, 'e) visitor \<Rightarrow> (nat \<Rightarrow> nat \<Rightarrow> nat \<Rightarrow> node_key) \<Rightarrow> (nca_agg list list \<Rightarrow> 's \<Rightarrow> 's) \<Rightarrow>
   (node_key \<times> 'a) list \<Rightarrow> u8 \<Rightarrow> 's \<Rightarrow> ('e + 'a \<times> 's) option" where
  "run_groups visit reward_key init leaves merkle_tree_height s =
     do { group_levels \<leftarrow> generate_nca_tree_groups_v1 (map fst leaves) merkle_tree_height;
          (if group_levels = [] then None
           else do {
             r \<leftarrow> visit_groups visit (reward_key (length group_levels - 1)) 0 group_levels
                   (result_map_of leaves) (init group_levels s);
             (case r of Inl e \<Rightarrow> Some (Inl e)
              | Inr (m, s') \<Rightarrow>
                  (if last group_levels = [] then None
                   else map_option (\<lambda>v. Inr (v, s')) (m (agg_nca (last group_levels ! 0))))) }) }"

definition base_reward_key :: "nat \<Rightarrow> nat \<Rightarrow> nat \<Rightarrow> node_key" where
  "base_reward_key reward_tree_height level index =
     Node_Key (of_nat (reward_tree_height - level)) (of_nat index)"

definition offset_reward_key :: "u8 \<Rightarrow> u64 \<Rightarrow> nat \<Rightarrow> nat \<Rightarrow> nat \<Rightarrow> node_key" where
  "offset_reward_key reward_tree_root_level reward_tree_root_index reward_tree_height level index =
     (let base_reward_tree_level = (of_nat (reward_tree_height - level) :: u8)
      in Node_Key (base_reward_tree_level + reward_tree_root_level)
           (shl64 reward_tree_root_index (unat base_reward_tree_level) OR of_nat index))"

definition run_merkle_planner_visitor ::
  "(node_key \<times> 'a) list \<Rightarrow> u8 \<Rightarrow> ('s, 'a) pure_visitor \<Rightarrow> 's \<Rightarrow> (unit + 'a \<times> 's) option" where
  "run_merkle_planner_visitor leaves merkle_tree_height visit s =
     run_groups (lift_visitor visit) base_reward_key (\<lambda>_ s. s) leaves merkle_tree_height s"

definition run_merkle_planner_visitor_with_offset_root ::
  "(node_key \<times> 'a) list \<Rightarrow> u8 \<Rightarrow> u8 \<Rightarrow> u64 \<Rightarrow> ('s, 'a) pure_visitor \<Rightarrow> (u8 \<Rightarrow> 's \<Rightarrow> 's) \<Rightarrow> 's \<Rightarrow>
   (unit + 'a \<times> 's) option" where
  "run_merkle_planner_visitor_with_offset_root leaves merkle_tree_height reward_tree_root_level
     reward_tree_root_index visit init_with_reward_tree_height s =
     run_groups (lift_visitor visit)
       (offset_reward_key reward_tree_root_level reward_tree_root_index)
       (\<lambda>group_levels. init_with_reward_tree_height (of_nat (length group_levels - 1)))
       leaves merkle_tree_height s"

datatype 'e planner_error = Too_Few_Leaves | Visit_Error 'e

definition run_merkle_planner_visitor_with_offset_root_and_trees ::
  "(node_key \<times> 'a) list \<Rightarrow> u8 \<Rightarrow> u8 \<Rightarrow> u64 \<Rightarrow> ('s, 'a, 'e) visitor \<Rightarrow>
   (nat \<Rightarrow> nat list \<Rightarrow> u8 \<Rightarrow> 's \<Rightarrow> 's) \<Rightarrow> 's \<Rightarrow> ('e planner_error + 'a \<times> 's) option" where
  "run_merkle_planner_visitor_with_offset_root_and_trees leaves merkle_tree_height
     reward_tree_root_level reward_tree_root_index visit init_with_reward_tree_height s =
     (if length leaves < 2 then Some (Inl Too_Few_Leaves)
      else map_option (map_sum Visit_Error id)
        (run_groups visit (offset_reward_key reward_tree_root_level reward_tree_root_index)
          (\<lambda>group_levels.
             let group_level_lengths = map length group_levels
             in init_with_reward_tree_height (sum_list group_level_lengths) group_level_lengths
                  (of_nat (length group_levels - 1)))
          leaves merkle_tree_height s))"

section \<open>Operands are available when they are needed\<close>

fun deps_ok :: "node_key set \<Rightarrow> nca_agg list list \<Rightarrow> bool" where
  "deps_ok D [] = True"
| "deps_ok D (g # gs) \<longleftrightarrow>
     (\<forall>a \<in> set g. agg_left a \<in> D \<and> agg_right a \<in> D) \<and> deps_ok (D \<union> agg_nca ` set g) gs"

lemma operand_leaf:
  "wf_tree h t \<Longrightarrow> a \<in> set (aggs_of t) \<Longrightarrow> k = agg_left a \<or> k = agg_right a \<Longrightarrow>
   nk_level k = h \<Longrightarrow> k \<in> set (leaves_of t)"
proof (induction t)
  case (NNode l c r)
  have "lab u \<in> set (leaves_of u)" if "wf_tree h u" "nk_level (lab u) = h" for u
    using that by (cases u) auto
  thus ?case using NNode by auto
qed simp

lemma deps_ok_levels:
  assumes "wf_tree h t" "set (leaves_of t) \<subseteq> D" "(agg_nca \<circ> top_agg) ` set (lvl n t) \<subseteq> D"
  shows "deps_ok D (rev (map (\<lambda>n. map top_agg (lvl n t)) [0..<n]))"
  using assms(2,3)
proof (induction n arbitrary: D)
  case (Suc n)
  have "k \<in> D" if s: "s \<in> set (lvl n t)" and k: "k = agg_left (top_agg s) \<or> k = agg_right (top_agg s)" for s k
  proof (cases "nk_level k = h")
    case True
    have "top_agg s \<in> set (aggs_of t)"
      using s set_lvl map_top_agg_inners by (metis image_eqI in_mono list.set_map)
    thus ?thesis using operand_leaf[OF assms(1) _ k True] Suc.prems(1) by blast
  next
    case False
    then obtain u where "u \<in> set (lvl (Suc n) t)" "agg_nca (top_agg u) = k"
      using operand_below[OF assms(1) s] k by blast
    thus ?thesis using Suc.prems(2) by force
  qed
  moreover have "deps_ok (D \<union> (agg_nca \<circ> top_agg) ` set (lvl n t))
      (rev (map (\<lambda>n. map top_agg (lvl n t)) [0..<n]))"
    using Suc.IH[of "D \<union> (agg_nca \<circ> top_agg) ` set (lvl n t)"] Suc.prems(1) by blast
  ultimately show ?case by (auto simp: image_comp)
qed simp

lemma deps_ok_tree: "wf_tree h t \<Longrightarrow> deps_ok (set (leaves_of t)) (tree_groups t)"
  unfolding tree_groups_def
  using lvl_nonempty[of "ht t" t] by (intro deps_ok_levels) auto

section \<open>Additive measures are conserved\<close>

text \<open>The weight of a key: the sum over the leaves below it.\<close>

definition weight :: "(node_key \<Rightarrow> 'm::comm_monoid_add) \<Rightarrow> nca_tree \<Rightarrow> node_key \<Rightarrow> 'm" where
  "weight w t k = sum_list (map w (filter (is_anc k) (leaves_of t)))"

lemma filter_anc_sub:
  assumes "wf_tree h (NNode l c r)"
  shows "is_anc (left_child c) k \<Longrightarrow> filter (is_anc k) (leaves_of (NNode l c r)) = filter (is_anc k) (leaves_of l)"
    "is_anc (right_child c) k \<Longrightarrow> filter (is_anc k) (leaves_of (NNode l c r)) = filter (is_anc k) (leaves_of r)"
proof -
  have L: "is_anc (left_child c) x" if "x \<in> set (leaves_of l)" for x
    using that assms keys_under_lab[of h l x] is_anc_trans by auto
  have R: "is_anc (right_child c) x" if "x \<in> set (leaves_of r)" for x
    using that assms keys_under_lab[of h r x] is_anc_trans by auto
  show "filter (is_anc k) (leaves_of (NNode l c r)) = filter (is_anc k) (leaves_of l)"
    if "is_anc (left_child c) k"
    using R left_right_disjoint is_anc_trans[OF that] by (auto simp: filter_empty_conv)
  show "filter (is_anc k) (leaves_of (NNode l c r)) = filter (is_anc k) (leaves_of r)"
    if "is_anc (right_child c) k"
    using L left_right_disjoint is_anc_trans[OF that] by (auto simp: filter_empty_conv)
qed

lemma agg_operands_under:
  assumes "wf_tree h t" "a \<in> set (aggs_of t)" "k = agg_left a \<or> k = agg_right a \<or> k = agg_nca a"
  shows "is_anc (lab t) k"
  using assms
proof (induction t)
  case (NNode l c r)
  have l64: "lev c < 64" using NNode.prems wf_64[of h l] by auto
  have v: "valid_key c" using NNode.prems by simp
  have "is_anc c (lab l)" "is_anc c (lab r)"
    using NNode.prems child_anc[OF v l64] is_anc_trans by auto
  thus ?case using NNode is_anc_trans by auto
qed simp

lemma filter_anc_lab: "wf_tree h t \<Longrightarrow> filter (is_anc (lab t)) (leaves_of t) = leaves_of t"
  using keys_under_lab[of h t] by (intro filter_True) auto

lemma agg_weight:
  "wf_tree h t \<Longrightarrow> a \<in> set (aggs_of t) \<Longrightarrow>
   weight w t (agg_nca a) = weight w t (agg_left a) + weight w t (agg_right a)"
proof (induction t)
  case (NNode l c r)
  note wl = filter_anc_sub(1)[OF NNode.prems(1)] and wr = filter_anc_sub(2)[OF NNode.prems(1)]
  have u: "is_anc (left_child c) (lab l)" "is_anc (right_child c) (lab r)"
    and wf: "wf_tree h l" "wf_tree h r" using NNode.prems(1) by auto
  consider "a \<in> set (aggs_of l)" | "a \<in> set (aggs_of r)" | "a = mk_agg c (lab l) (lab r)"
    using NNode.prems(2) by auto
  thus ?case
  proof cases
    case 1
    hence "weight w (NNode l c r) k = weight w l k" if "k = agg_left a \<or> k = agg_right a \<or> k = agg_nca a" for k
      using wl[OF is_anc_trans[OF u(1) agg_operands_under[OF wf(1) 1 that]]] by (simp add: weight_def)
    thus ?thesis using NNode.IH(1)[OF wf(1) 1] by simp
  next
    case 2
    hence "weight w (NNode l c r) k = weight w r k" if "k = agg_left a \<or> k = agg_right a \<or> k = agg_nca a" for k
      using wr[OF is_anc_trans[OF u(2) agg_operands_under[OF wf(2) 2 that]]] by (simp add: weight_def)
    thus ?thesis using NNode.IH(2)[OF wf(2) 2] by simp
  next
    case 3
    have "weight w (NNode l c r) c = sum_list (map w (leaves_of l)) + sum_list (map w (leaves_of r))"
      using filter_anc_lab[OF NNode.prems(1)] by (simp add: weight_def)
    moreover have "weight w (NNode l c r) (lab l) = sum_list (map w (leaves_of l))"
      "weight w (NNode l c r) (lab r) = sum_list (map w (leaves_of r))"
      unfolding weight_def wl[OF u(1)] wr[OF u(2)] using filter_anc_lab wf by simp_all
    ultimately show ?thesis using 3 by simp
  qed
qed simp

lemma filter_eq_single: "distinct xs \<Longrightarrow> k \<in> set xs \<Longrightarrow> filter (\<lambda>x. x = k) xs = [k]"
  by (induction xs) (auto simp: filter_empty_conv)

lemma weight_leaf:
  assumes "wf_tree h t" "distinct (leaves_of t)" "k \<in> set (leaves_of t)"
  shows "weight w t k = w k"
proof -
  have "is_anc k x \<longleftrightarrow> x = k" if "x \<in> set (leaves_of t)" for x
    using that assms leaves_level is_anc_same_level by (metis is_anc_refl)
  hence "filter (is_anc k) (leaves_of t) = filter (\<lambda>x. x = k) (leaves_of t)"
    by (intro filter_cong) auto
  also have "\<dots> = [k]" by (rule filter_eq_single[OF assms(2,3)])
  finally show ?thesis by (simp add: weight_def)
qed

text \<open>Results are present for a set of keys and carry the weights of these keys.\<close>

definition good :: "('a \<Rightarrow> 'm) \<Rightarrow> (node_key \<Rightarrow> 'm) \<Rightarrow> (node_key \<rightharpoonup> 'a) \<Rightarrow> node_key set \<Rightarrow> bool" where
  "good m wt M D \<longleftrightarrow> (\<forall>k \<in> D. \<exists>v. M k = Some v \<and> m v = wt k)"

text \<open>A visitor that adds up the measure and fails with errors of \<open>E\<close> only.\<close>

definition additive_visitor ::
  "('a \<Rightarrow> 'm::comm_monoid_add) \<Rightarrow> ('e \<Rightarrow> bool) \<Rightarrow> ('s, 'a, 'e) visitor \<Rightarrow> bool" where
  "additive_visitor m E visit \<longleftrightarrow>
     (\<forall>s l lk r rk nk rw b. case visit s l lk r rk nk rw b of
        Inl e \<Rightarrow> E e | Inr (v, s') \<Rightarrow> m v = m l + m r)"

definition outcome_ok :: "('e \<Rightarrow> bool) \<Rightarrow> ('r \<Rightarrow> bool) \<Rightarrow> ('e + 'r) option \<Rightarrow> bool" where
  "outcome_ok E P out = (case out of None \<Rightarrow> False | Some (Inl e) \<Rightarrow> E e | Some (Inr r) \<Rightarrow> P r)"

lemma outcome_ok_cases [consumes 1, case_names err ok]:
  assumes "outcome_ok E P out"
  obtains (err) e where "out = Some (Inl e)" "E e" | (ok) r where "out = Some (Inr r)" "P r"
  using assms by (auto simp: outcome_ok_def split: option.splits sum.splits)

lemma additive_visitorD:
  assumes "additive_visitor m E visit"
  shows "visit s l lk r rk nk rw b = Inl e \<Longrightarrow> E e"
    "visit s l lk r rk nk rw b = Inr (v, s') \<Longrightarrow> m v = m l + m r"
  using assms[unfolded additive_visitor_def, THEN spec[of _ s], THEN spec[of _ l], THEN spec[of _ lk],
      THEN spec[of _ r], THEN spec[of _ rk], THEN spec[of _ nk], THEN spec[of _ rw], THEN spec[of _ b]]
  by simp_all

lemma visit_group_good:
  assumes "additive_visitor m E visit" "good m wt M D"
    "\<forall>a \<in> set gl. agg_left a \<in> D \<and> agg_right a \<in> D \<and> wt (agg_nca a) = wt (agg_left a) + wt (agg_right a)"
  shows "outcome_ok E (\<lambda>(M', s'). good m wt M' (D \<union> agg_nca ` set gl))
    (visit_group visit rkey b i gl M s)"
  using assms(2,3)
proof (induction gl arbitrary: M D s i)
  case (Cons g gl)
  have in_D: "agg_left g \<in> D" "agg_right g \<in> D" using Cons.prems(2) by simp_all
  obtain l where l: "M (agg_left g) = Some l" "m l = wt (agg_left g)"
    using Cons.prems(1) in_D(1) unfolding good_def by blast
  obtain r where r: "M (agg_right g) = Some r" "m r = wt (agg_right g)"
    using Cons.prems(1) in_D(2) unfolding good_def by blast
  note lr = l r
  let ?v = "visit s l (agg_left g) r (agg_right g) (agg_nca g) (rkey i) b"
  show ?case
  proof (cases ?v)
    case (Inl e)
    have "E e" by (rule additive_visitorD(1)[OF assms(1) Inl])
    thus ?thesis using lr Inl by (simp add: outcome_ok_def)
  next
    case (Inr p)
    obtain v s' where p: "p = (v, s')" by (cases p)
    have "m v = m l + m r" by (rule additive_visitorD(2)[OF assms(1) Inr[unfolded p]])
    hence g: "good m wt (M(agg_nca g \<mapsto> v)) (insert (agg_nca g) D)"
      using Cons.prems lr by (auto simp: good_def)
    have "outcome_ok E (\<lambda>(M', s'). good m wt M' (insert (agg_nca g) D \<union> agg_nca ` set gl))
        (visit_group visit rkey b (Suc i) gl (M(agg_nca g \<mapsto> v)) s')"
      by (rule Cons.IH[OF g]) (use Cons.prems(2) in auto)
    thus ?thesis using lr Inr p by simp
  qed
qed (simp add: outcome_ok_def)

lemma visit_groups_good:
  assumes "additive_visitor m E visit" "good m wt M D" "deps_ok D gls"
    "\<forall>a \<in> set (concat gls). wt (agg_nca a) = wt (agg_left a) + wt (agg_right a)"
  shows "outcome_ok E (\<lambda>(M', s'). good m wt M' (D \<union> agg_nca ` set (concat gls)))
    (visit_groups visit rkey n gls M s)"
  using assms(2-)
proof (induction gls arbitrary: M D s n)
  case (Cons g gls)
  have "outcome_ok E (\<lambda>(M', s'). good m wt M' (D \<union> agg_nca ` set g))
      (visit_group visit (rkey n) (n = 0) 0 g M s)"
    using visit_group_good[OF assms(1) Cons.prems(1), of g] Cons.prems(2,3) by simp
  thus ?case
  proof (cases rule: outcome_ok_cases)
    case (err e)
    thus ?thesis by (simp add: outcome_ok_def)
  next
    case (ok p)
    obtain M' s' where p: "p = (M', s')" by (cases p)
    have "outcome_ok E (\<lambda>(M'', s''). good m wt M'' ((D \<union> agg_nca ` set g) \<union> agg_nca ` set (concat gls)))
        (visit_groups visit rkey (Suc n) gls M' s')"
      by (rule Cons.IH) (use ok p Cons.prems in auto)
    thus ?thesis using ok p by (simp add: image_Un Un_assoc)
  qed
qed (simp add: outcome_ok_def)

lemma result_map_of_lookup:
  assumes "distinct (map fst leaves)" "(k, v) \<in> set leaves"
  shows "result_map_of leaves k = Some v"
proof -
  have "fold (\<lambda>(k, v) m. m(k \<mapsto> v)) xs m k' =
      (case map_of (rev xs) k' of Some v \<Rightarrow> Some v | None \<Rightarrow> m k')" for xs and m :: "node_key \<rightharpoonup> 'a" and k'
    by (induction xs arbitrary: m) (auto simp: map_add_def split: option.splits)
  moreover have "map_of (rev leaves) k = Some v"
    using assms by (intro map_of_is_SomeI) (auto simp: rev_map[symmetric])
  ultimately show ?thesis by (simp add: result_map_of_def)
qed

lemma run_groups_conserves:
  assumes "plan_input (map fst leaves) h" "additive_visitor m E visit"
  shows "outcome_ok E (\<lambda>(v, s'). m v = sum_list (map (m \<circ> snd) leaves))
    (run_groups visit rkey init leaves leaf_level s)"
proof -
  obtain t where t: "wf_tree h t" "inner t" "leaves_of t = sort (map fst leaves)"
    "generate_nca_tree_groups_v1 (map fst leaves) leaf_level = Some (tree_groups t)"
    using plan_tree[OF assms(1)] by blast
  have d: "distinct (map fst leaves)" using assms(1) by (simp add: plan_input_def)
  define w where "w k = m (the (result_map_of leaves k))" for k
  have w: "w k = m v" if "(k, v) \<in> set leaves" for k v
    using result_map_of_lookup[OF d that] by (simp add: w_def)
  have "good m (weight w t) (result_map_of leaves) (set (leaves_of t))"
    unfolding good_def
  proof
    fix k assume k: "k \<in> set (leaves_of t)"
    then obtain v where v: "(k, v) \<in> set leaves" using t(3) by auto
    have "weight w t k = m v"
      using weight_leaf[OF t(1) _ k, of w] d t(3) w[OF v] by simp
    thus "\<exists>v. result_map_of leaves k = Some v \<and> m v = weight w t k"
      using result_map_of_lookup[OF d v] by auto
  qed
  note g = visit_groups_good[OF assms(2) this deps_ok_tree[OF t(1)]]
  have st: "set (concat (tree_groups t)) = set (aggs_of t)"
    using concat_tree_groups by (rule mset_eq_setD)
  have nc: "agg_nca (last (tree_groups t) ! 0) = lab t" "last (tree_groups t) \<noteq> []"
    "tree_groups t \<noteq> []" "lab t \<in> agg_nca ` set (aggs_of t)"
    using tree_groups_last[OF t(2)] t(2) by (cases t, auto)+
  have "weight w t (lab t) = sum_list (map w (leaves_of t))"
    using filter_anc_lab[OF t(1)] by (simp add: weight_def)
  also have "\<dots> = sum_list (map w (map fst leaves))"
    unfolding t(3) by (metis mset_map mset_sort sum_mset_sum_list)
  also have "\<dots> = sum_list (map (m \<circ> snd) leaves)"
    using w by (intro arg_cong[where f=sum_list]) auto
  finally have wt: "weight w t (lab t) = sum_list (map (m \<circ> snd) leaves)" .
  have "\<forall>a\<in>set (concat (tree_groups t)).
      weight w t (agg_nca a) = weight w t (agg_left a) + weight w t (agg_right a)"
    using agg_weight[OF t(1), of _ w] unfolding st by blast
  from g[OF this, of "rkey (length (tree_groups t) - 1)" 0 "init (tree_groups t) s"] show ?thesis
  proof (cases rule: outcome_ok_cases)
    case (err e)
    thus ?thesis unfolding run_groups_def t(4) using nc by (simp add: outcome_ok_def)
  next
    case (ok p)
    obtain M' s' where p: "p = (M', s')" by (cases p)
    then obtain v where "M' (lab t) = Some v" "m v = weight w t (lab t)"
      using ok nc(4) unfolding st good_def by auto
    thus ?thesis unfolding run_groups_def t(4) using nc ok p wt by (simp add: outcome_ok_def)
  qed
qed

section \<open>Positions in the reward tree\<close>

lemma ht_bound: "wf_tree h t \<Longrightarrow> ht t + lev (lab t) \<le> unat h"
proof (induction t)
  case (NNode l c r)
  have l64: "lev c < 64" using NNode.prems wf_64[of h l] by auto
  have "Suc (lev c) \<le> lev (lab l)" "Suc (lev c) \<le> lev (lab r)"
    using NNode.prems lev_child[OF l64] by (auto simp: is_anc_def)
  thus ?case using NNode by auto
qed auto

definition reward_positions ::
  "(nat \<Rightarrow> nat \<Rightarrow> nat \<Rightarrow> node_key) \<Rightarrow> nca_agg list list \<Rightarrow> node_key list" where
  "reward_positions rkey groups =
     concat (map (\<lambda>level. map (rkey (length groups - 1) level) [0..<length (groups ! level)])
       [0..<length groups])"

lemma base_is_offset: "base_reward_key = offset_reward_key 0 0"
  by (intro ext) (simp add: base_reward_key_def offset_reward_key_def shl64_def)

lemma of_nat_index_bits:
  assumes "i < 2 ^ d" shows "bit (of_nat i :: u64) n \<Longrightarrow> n < d"
proof (rule ccontr)
  assume "bit (of_nat i :: u64) n" "\<not> n < d"
  hence "bit i n" by (simp add: bit_simps)
  moreover have "i < 2 ^ n" using assms \<open>\<not> n < d\<close>
    by (meson le_less_trans less_le_trans not_less one_le_numeral power_increasing)
  ultimately show False by (simp add: bit_iff_odd)
qed

lemma offset_reward_key_props:
  assumes "valid_key (Node_Key rl ri)" "unat rl + d \<le> 64" "i < 2 ^ d" "d < 64" "H - n = d"
  shows "lev (offset_reward_key rl ri H n i) = unat rl + d"
    "is_anc (Node_Key rl ri) (offset_reward_key rl ri H n i)"
    "valid_key (offset_reward_key rl ri H n i)"
    "nk_index (offset_reward_key rl ri H n i) AND mask d = of_nat i"
proof -
  let ?k = "offset_reward_key rl ri H n i"
  have ud: "unat (of_nat d :: u8) = d" using assms(4) by (simp add: unat_of_nat)
  have k: "?k = Node_Key (of_nat d + rl) (push_bit d ri OR of_nat i)"
    unfolding offset_reward_key_def assms(5) Let_def ud using assms(4) by simp
  show lv: "lev ?k = unat rl + d"
    using ud assms(2) unfolding k by (simp add: unat_word_ariths add.commute)
  have ri: "m + d < 64" if "bit ri m" for m
    using that valid_key_bits[OF assms(1), of m] assms(2) by (force simp: not_le)
  have idx: "\<not> bit (of_nat i :: u64) m" if "d \<le> m" for m
    using of_nat_index_bits[OF assms(3), of m] that by auto
  have drop: "drop_bit d (push_bit d ri OR of_nat i) = ri"
  proof -
    have "drop_bit d (of_nat i :: u64) = 0"
      by (rule bit_word_eqI) (use idx in \<open>simp add: bit_drop_bit_eq\<close>)
    moreover have "drop_bit d (push_bit d ri) = ri" by (rule drop_push_u64) (use ri in blast)
    ultimately show ?thesis by (simp only: drop_bit_or or.right_neutral)
  qed
  thus anc: "is_anc (Node_Key rl ri) ?k" using lv by (simp add: is_anc_def k)
  have "drop_bit (unat rl + d) (push_bit d ri OR of_nat i) = drop_bit (unat rl) ri"
    using drop by (metis drop_bit_drop_bit)
  thus "valid_key ?k" using assms(1,2) lv by (simp add: valid_key_def k)
  show "nk_index ?k AND mask d = of_nat i"
    unfolding k node_key.sel
    by (rule bit_word_eqI)
      (use of_nat_index_bits[OF assms(3)] in
        \<open>auto simp: bit_or_iff bit_and_iff bit_push_bit_iff bit_mask_iff not_less\<close>)
qed

lemma offset_reward_key_inj:
  assumes "valid_key (Node_Key rl ri)" "unat rl + H \<le> 64" "H < 64" "n \<le> H" "n' \<le> H"
    "i < 2 ^ (H - n)" "i' < 2 ^ (H - n')"
    "offset_reward_key rl ri H n i = offset_reward_key rl ri H n' i'"
  shows "n = n' \<and> i = i'"
proof -
  note p = offset_reward_key_props[OF assms(1), of "H - n" i H n]
    and p' = offset_reward_key_props[OF assms(1), of "H - n'" i' H n']
  have "unat rl + (H - n) = unat rl + (H - n')" using p(1) p'(1) assms(2-8) by auto
  hence n: "n = n'" using assms(4,5) by simp
  have b: "i < 2 ^ 64" "i' < 2 ^ 64"
    using assms(6,7,3) by (meson diff_le_self le_less_trans less_le_trans less_imp_le
        one_le_numeral power_increasing)+
  have "(of_nat i :: u64) = of_nat i'" using p(4) p'(4) assms(2-8) n by auto
  hence "i = i'" using of_nat_u64_inj[OF b] by blast
  thus ?thesis using n by simp
qed

lemma reward_positions_distinct:
  assumes "valid_key (Node_Key rl ri)" "unat rl + (length groups - 1) \<le> 64" "length groups \<le> 64"
    "\<forall>n < length groups. length (groups ! n) \<le> 2 ^ (length groups - 1 - n)"
  shows "distinct (reward_positions (offset_reward_key rl ri) groups)"
    "list_all (\<lambda>k. valid_key k \<and> is_anc (Node_Key rl ri) k)
       (reward_positions (offset_reward_key rl ri) groups)"
proof -
  define H where "H = length groups - 1"
  let ?P = "concat (map (\<lambda>n. map (\<lambda>i. (n, i)) [0..<length (groups ! n)]) [0..<length groups])"
  let ?f = "\<lambda>(n, i). offset_reward_key rl ri H n i"
  have e: "reward_positions (offset_reward_key rl ri) groups = map ?f ?P"
    by (simp add: reward_positions_def map_concat comp_def H_def)
  have inP: "n < length groups \<and> n \<le> H \<and> H < 64 \<and> i < 2 ^ (H - n)" if "(n, i) \<in> set ?P" for n i
  proof -
    have "n < length groups" "i < length (groups ! n)" using that by auto
    moreover have "length (groups ! n) \<le> 2 ^ (H - n)" using assms(4) calculation(1) by (simp add: H_def)
    ultimately show ?thesis using assms(3) by (auto simp: H_def)
  qed
  have "distinct (concat (map (\<lambda>n. map (\<lambda>i. (n, i)) [0..<f n]) [0..<m]))" for f m
    by (induction m) (auto simp: distinct_map inj_on_def)
  hence "distinct ?P" .
  moreover have "inj_on ?f (set ?P)"
  proof (rule inj_onI)
    fix x y assume x: "x \<in> set ?P" "y \<in> set ?P" "?f x = ?f y"
    obtain n i n' i' where xy: "x = (n, i)" "y = (n', i')" by (cases x, cases y)
    have u: "unat rl + H \<le> 64" using assms(2) by (simp add: H_def)
    have p: "n \<le> H \<and> H < 64 \<and> i < 2 ^ (H - n)" "n' \<le> H \<and> i' < 2 ^ (H - n')"
      using inP[of n i] inP[of n' i'] x(1,2) unfolding xy by blast+
    show "x = y" unfolding xy
      using offset_reward_key_inj[OF assms(1) u, of n n' i i'] p x(3) unfolding xy by simp
  qed
  ultimately show "distinct (reward_positions (offset_reward_key rl ri) groups)"
    unfolding e by (simp add: distinct_map)
  show "list_all (\<lambda>k. valid_key k \<and> is_anc (Node_Key rl ri) k)
       (reward_positions (offset_reward_key rl ri) groups)"
    unfolding e list_all_iff
  proof
    fix k assume "k \<in> set (map ?f ?P)"
    then obtain n i where k: "(n, i) \<in> set ?P" "k = offset_reward_key rl ri H n i" by auto
    have "unat rl + (H - n) \<le> 64" "H - n < 64" "i < 2 ^ (H - n)"
      using assms(2) inP[OF k(1)] by (auto simp: H_def)
    thus "valid_key k \<and> is_anc (Node_Key rl ri) k"
      using offset_reward_key_props(2,3)[OF assms(1), of "H - n" i H n] k(2) by auto
  qed
qed

section \<open>Properties\<close>

text \<open>
  C3. A planner run never panics on two or more distinct leaves of one level, and any additive
  measure of the results (for instance the number of transactions below a node) is conserved:
  the measure of the final result is the sum over all leaves, each counted once.
\<close>

theorem visitor_conserves_measure:
  fixes m :: "'a \<Rightarrow> 'm::comm_monoid_add"
  assumes "plan_input (map fst leaves) h"
    and "\<forall>s l lk r rk nk rw. m (fst (visit s l lk r rk nk rw)) = m l + m r"
  shows "\<exists>v s'. run_merkle_planner_visitor leaves merkle_tree_height visit s = Some (Inr (v, s')) \<and>
    m v = sum_list (map (m \<circ> snd) leaves)"
proof -
  have a: "additive_visitor m (\<lambda>_. False) (lift_visitor visit)"
    using assms(2) by (simp add: additive_visitor_def lift_visitor_def split_beta)
  from run_groups_conserves[OF assms(1) a, of base_reward_key "\<lambda>_ s. s" merkle_tree_height s]
  show ?thesis unfolding run_merkle_planner_visitor_def
    by (cases rule: outcome_ok_cases) auto
qed

theorem visitor_conserves_measure_witness:
  "\<exists>v s'. run_merkle_planner_visitor
      [(Node_Key 2 0, 1), (Node_Key 2 1, 2), (Node_Key 2 2, 3), (Node_Key 2 3, 4)] 3
      (\<lambda>s l _ r _ _ _. (l + r, s)) () = Some (Inr (v, s')) \<and> v = (10 :: nat)"
  using visitor_conserves_measure[of
      "[(Node_Key 2 0, 1), (Node_Key 2 1, 2), (Node_Key 2 2, 3), (Node_Key 2 3, 4)]" 2
      "\<lambda>v. v :: nat" "\<lambda>s l _ r _ _ _. (l + r, s)" 3 "()"]
  by (simp add: plan_input_def valid_key_def)

text \<open>
  C36. The driver with tree stores: with a fallible visitor it never panics, fails only with an
  error the visitor returned, and otherwise conserves the measure.
\<close>

theorem tree_visitor_outcome:
  assumes "plan_input (map fst leaves) h" and "additive_visitor m E visit"
  shows "case run_merkle_planner_visitor_with_offset_root_and_trees leaves merkle_tree_height rl ri
           visit init s of
      None \<Rightarrow> False
    | Some (Inl Too_Few_Leaves) \<Rightarrow> False
    | Some (Inl (Visit_Error e)) \<Rightarrow> E e
    | Some (Inr (v, s')) \<Rightarrow> m v = sum_list (map (m \<circ> snd) leaves)"
proof -
  have len: "\<not> length leaves < 2" using assms(1) by (simp add: plan_input_def)
  let ?init = "\<lambda>group_levels. let group_level_lengths = map length group_levels
      in init (sum_list group_level_lengths) group_level_lengths (of_nat (length group_levels - 1))"
  from run_groups_conserves[OF assms, of "offset_reward_key rl ri" ?init merkle_tree_height s]
  show ?thesis unfolding run_merkle_planner_visitor_with_offset_root_and_trees_def if_not_P[OF len]
    by (cases rule: outcome_ok_cases) auto
qed

theorem tree_visitor_outcome_witness:
  "case run_merkle_planner_visitor_with_offset_root_and_trees
      [(Node_Key 2 0, 5), (Node_Key 2 3, 7 :: nat)] 2 1 1
      (\<lambda>s l _ r _ _ _ b. if s = (0 :: nat) then Inr (l + r, s) else Inl s) (\<lambda>_ _ _ s. s) 0 of
      None \<Rightarrow> False
    | Some (Inl Too_Few_Leaves) \<Rightarrow> False
    | Some (Inl (Visit_Error e)) \<Rightarrow> e \<noteq> 0
    | Some (Inr (v, s')) \<Rightarrow> v = 12"
proof -
  have p: "plan_input (map fst [(Node_Key 2 0, 5), (Node_Key 2 3, 7 :: nat)]) 2"
    by (simp add: plan_input_def valid_key_def)
  have a: "additive_visitor (\<lambda>v. v) (\<lambda>e. e \<noteq> 0)
      (\<lambda>s l _ r _ _ _ b. if s = (0 :: nat) then Inr (l + r :: nat, s) else Inl s)"
    by (simp add: additive_visitor_def split: if_splits)
  have e: "sum_list (map ((\<lambda>v. v) \<circ> snd) [(Node_Key 2 0, 5), (Node_Key 2 3, 7 :: nat)]) = 12" by simp
  show ?thesis
    using tree_visitor_outcome[OF p a, of 2 1 1 "\<lambda>_ _ _ s. s" 0] unfolding e .
qed

text \<open>
  The reward-tree positions handed out by a run are pairwise distinct valid nodes below the
  reward root the caller chose, whatever the number of groups and their widths.
\<close>

lemma reward_positions_valid_distinct:
  assumes "plan_input leaves h" "valid_key (Node_Key rl ri)" "unat rl + unat h \<le> 64"
  shows "\<exists>groups. generate_nca_tree_groups_v1 leaves leaf_level = Some groups \<and>
    distinct (reward_positions (offset_reward_key rl ri) groups) \<and>
    list_all (\<lambda>k. valid_key k \<and> is_anc (Node_Key rl ri) k)
      (reward_positions (offset_reward_key rl ri) groups)"
proof -
  obtain t where t: "wf_tree h t" "generate_nca_tree_groups_v1 leaves leaf_level = Some (tree_groups t)"
    using plan_tree[OF assms(1)] by blast
  have "ht t \<le> unat h" using ht_bound[OF t(1)] by simp
  hence "unat rl + (length (tree_groups t) - 1) \<le> 64" "length (tree_groups t) \<le> 64"
    using assms(3) wf_64[OF t(1)] by auto
  thus ?thesis
    using t(2) reward_positions_distinct[OF assms(2), of "tree_groups t"] tree_groups_width[of _ t]
    by blast
qed

lemma reward_positions_valid_distinct_witness:
  "\<exists>groups. generate_nca_tree_groups_v1 [Node_Key 3 1, Node_Key 3 6, Node_Key 3 7] 3 = Some groups \<and>
    distinct (reward_positions (offset_reward_key 2 3) groups) \<and>
    list_all (\<lambda>k. valid_key k \<and> is_anc (Node_Key 2 3) k)
      (reward_positions (offset_reward_key 2 3) groups)"
  using reward_positions_valid_distinct[of "[Node_Key 3 1, Node_Key 3 6, Node_Key 3 7]" 3 2 3 3]
  by (simp add: plan_input_def valid_key_def)

end
