(* ===== verification/Codec.thy ===== *)
theory Codec
  imports Psy_Prelude
begin

text \<open>
  Byte readers and writers. A reader takes the unread bytes and returns an error or a value
  with the bytes left (\<open>std::io::Read\<close> on an in-memory buffer, \<open>ProtocolReader\<close>); a writer
  appends bytes. The locale \<open>codec\<close> is the contract between an encoder and its reader, and
  \<open>strict_codec\<close> adds that the reader accepts nothing but encodings. Every wire type of the
  development is an interpretation.
\<close>

type_synonym ('e, 'a) reader = "u8 list \<Rightarrow> 'e + ('a \<times> u8 list)"

section \<open>The error monad\<close>

definition rbind :: "'e + 'a \<Rightarrow> ('a \<Rightarrow> 'e + 'b) \<Rightarrow> 'e + 'b" where
  "rbind m f = (case m of Inl e \<Rightarrow> Inl e | Inr a \<Rightarrow> f a)"

definition rmap :: "('a \<Rightarrow> 'b) \<Rightarrow> ('e, 'a) reader \<Rightarrow> ('e, 'b) reader" where
  "rmap f rd bs = rbind (rd bs) (\<lambda>(a, rest). Inr (f a, rest))"

definition guard_or :: "'e \<Rightarrow> bool \<Rightarrow> 'e + unit" where
  "guard_or e b = (if b then Inr () else Inl e)"

lemma rbind_simps [simp]: "rbind (Inl e) f = Inl e" "rbind (Inr a) f = f a"
  by (simp_all add: rbind_def)

lemma rbind_Inr: "rbind m f = Inr b \<longleftrightarrow> (\<exists>a. m = Inr a \<and> f a = Inr b)"
  by (cases m) auto

lemma rbind_Inl: "rbind m f = Inl e \<longleftrightarrow> m = Inl e \<or> (\<exists>a. m = Inr a \<and> f a = Inl e)"
  by (cases m) auto

lemma guard_or_simps [simp]:
  "guard_or e b = Inr u \<longleftrightarrow> b" "guard_or e b = Inl e' \<longleftrightarrow> \<not> b \<and> e' = e"
  "guard_or e True = Inr ()" "guard_or e False = Inl e"
  by (auto simp: guard_or_def)

section \<open>Repeated reads\<close>

text \<open>\<open>for _ in 0..n { items.push(read()?) }\<close>\<close>

fun read_many :: "nat \<Rightarrow> ('e, 'a) reader \<Rightarrow> ('e, 'a list) reader" where
  "read_many 0 rd bs = Inr ([], bs)"
| "read_many (Suc n) rd bs =
     rbind (rd bs) (\<lambda>(x, bs). rbind (read_many n rd bs) (\<lambda>(xs, bs). Inr (x # xs, bs)))"

text \<open>\<open>read_exact\<close> into a buffer of \<open>n\<close> bytes; \<open>e\<close> is the end-of-input error.\<close>

definition read_exact :: "'e \<Rightarrow> nat \<Rightarrow> ('e, u8 list) reader" where
  "read_exact e n bs = (if n \<le> length bs then Inr (take n bs, drop n bs) else Inl e)"

definition read_word :: "'e \<Rightarrow> nat \<Rightarrow> ('e, 'w::len word) reader" where
  "read_word e n = rmap from_le_bytes (read_exact e n)"

section \<open>The contract\<close>

locale codec =
  fixes enc :: "'a \<Rightarrow> u8 list"
    and dec :: "('e, 'a) reader"
    and wf :: "'a \<Rightarrow> bool"
  assumes dec_enc: "wf x \<Longrightarrow> dec (enc x @ rest) = Inr (x, rest)"
begin

lemma enc_prefix_free: "wf x \<Longrightarrow> wf y \<Longrightarrow> enc x @ r = enc y @ s \<Longrightarrow> x = y \<and> r = s"
  using dec_enc by (metis Inr_inject prod.inject)

lemma enc_inj: "wf x \<Longrightarrow> wf y \<Longrightarrow> enc x = enc y \<longleftrightarrow> x = y"
  using enc_prefix_free[of x y "[]" "[]"] by auto

lemma many_roundtrip:
  "list_all wf xs \<Longrightarrow> n = length xs \<Longrightarrow> read_many n dec (concat (map enc xs) @ rest) = Inr (xs, rest)"
  by (induction xs arbitrary: n) (auto simp: dec_enc)

end

locale strict_codec = codec +
  assumes dec_strict: "dec bs = Inr (x, rest) \<Longrightarrow> bs = enc x @ rest \<and> wf x"
begin

lemma dec_iff: "dec bs = Inr (x, rest) \<longleftrightarrow> wf x \<and> bs = enc x @ rest"
  using dec_enc dec_strict by blast

lemma many_strict:
  "read_many n dec bs = Inr (xs, rest) \<Longrightarrow>
   bs = concat (map enc xs) @ rest \<and> length xs = n \<and> list_all wf xs"
proof (induction n arbitrary: bs xs)
  case (Suc n)
  then obtain x bs' ys where "dec bs = Inr (x, bs')" "read_many n dec bs' = Inr (ys, rest)" "xs = x # ys"
    by (auto simp: rbind_Inr)
  thus ?case using Suc.IH dec_strict by fastforce
qed simp

end

section \<open>Machine integers and fixed-size arrays\<close>

lemma read_exact_append [simp]:
  "n = length xs \<Longrightarrow> read_exact e n (xs @ rest) = Inr (xs, rest)"
  by (simp add: read_exact_def)

lemma read_exact_Inr:
  "read_exact e n bs = Inr (xs, rest) \<longleftrightarrow> bs = xs @ rest \<and> length xs = n"
  by (auto simp: read_exact_def)

interpretation bytes: strict_codec "\<lambda>xs. xs" "read_exact e n" "\<lambda>xs. length xs = n" for e n
  by unfold_locales (auto simp: read_exact_Inr)

lemma word_codec:
  assumes "8 * n = LENGTH('w::len)"
  shows "strict_codec (le_bytes n) (read_word e n :: ('e, 'w word) reader) (\<lambda>_. True)"
proof
  fix x :: "'w word" and rest
  show "read_word e n (le_bytes n x @ rest) = Inr (x, rest)"
    using assms by (simp add: read_word_def rmap_def)
next
  fix bs rest and x :: "'w word"
  assume "read_word e n bs = Inr (x, rest)"
  thus "bs = le_bytes n x @ rest \<and> True"
    using assms by (auto simp: read_word_def rmap_def rbind_Inr read_exact_Inr)
qed

interpretation w8: strict_codec "le_bytes 1" "read_word e 1 :: ('e, u8) reader" "\<lambda>_. True" for e
  by (rule word_codec) simp

interpretation w16: strict_codec "le_bytes 2" "read_word e 2 :: ('e, u16) reader" "\<lambda>_. True" for e
  by (rule word_codec) simp

interpretation w32: strict_codec "le_bytes 4" "read_word e 4 :: ('e, u32) reader" "\<lambda>_. True" for e
  by (rule word_codec) simp

interpretation w64: strict_codec "le_bytes 8" "read_word e 8 :: ('e, u64) reader" "\<lambda>_. True" for e
  by (rule word_codec) simp

interpretation w128: strict_codec "le_bytes 16" "read_word e 16 :: ('e, 128 word) reader" "\<lambda>_. True" for e
  by (rule word_codec) simp

lemma le_bytes_1: "le_bytes 1 x = [x]" for x :: u8
  by (simp add: le_bytes_def)

lemmas read_word_rt [wire_simps] = w8.dec_enc[OF TrueI] w16.dec_enc[OF TrueI] w32.dec_enc[OF TrueI]
  w64.dec_enc[OF TrueI] w128.dec_enc[OF TrueI]

lemmas read_word_iff = w8.dec_iff w16.dec_iff w32.dec_iff w64.dec_iff w128.dec_iff

end
