(* ===== verification/Psy_Io.thy ===== *)
theory Psy_Io
  imports Codec
begin

text \<open>
  The reader and writer extensions of \<open>src/psy_io/src/lib.rs\<close> on in-memory buffers: integers
  are little-endian, a vector is preceded by its length as a \<open>u32\<close>. A writer is the bytes it
  appends, or the error of a length that does not fit. A signed integer is its bit pattern.
\<close>

datatype io_error =
    Read_Failed
  | Length_Exceeds_U32 nat
  | Length_Exceeds_Max nat nat

section \<open>Readers\<close>

definition psy_read_u8 :: "(io_error, u8) reader" where
  "psy_read_u8 = read_word Read_Failed 1"

definition psy_read_u16 :: "(io_error, u16) reader" where
  "psy_read_u16 = read_word Read_Failed 2"

definition psy_read_u32 :: "(io_error, u32) reader" where
  "psy_read_u32 = read_word Read_Failed 4"

definition psy_read_u64 :: "(io_error, u64) reader" where
  "psy_read_u64 = read_word Read_Failed 8"

definition psy_read_u128 :: "(io_error, 128 word) reader" where
  "psy_read_u128 = read_word Read_Failed 16"

definition psy_read_bytes_fixed :: "nat \<Rightarrow> (io_error, u8 list) reader" where
  "psy_read_bytes_fixed n = read_exact Read_Failed n"

definition psy_read_bytes_32 :: "(io_error, u8 list) reader" where
  "psy_read_bytes_32 = psy_read_bytes_fixed 32"

definition psy_read_vec_length :: "(io_error, nat) reader" where
  "psy_read_vec_length = rmap unat psy_read_u32"

definition psy_read_vec_of_fixed_bytes :: "nat \<Rightarrow> (io_error, u8 list list) reader" where
  "psy_read_vec_of_fixed_bytes n bs =
     rbind (psy_read_vec_length bs) (\<lambda>(len, bs). read_many len (psy_read_bytes_fixed n) bs)"

definition psy_read_bytes_vec :: "(io_error, u8 list) reader" where
  "psy_read_bytes_vec bs =
     rbind (psy_read_vec_length bs) (\<lambda>(len, bs). read_exact Read_Failed len bs)"

definition psy_read_bytes_vec_with_max_length :: "nat \<Rightarrow> (io_error, u8 list) reader" where
  "psy_read_bytes_vec_with_max_length max_length bs =
     rbind (psy_read_vec_length bs) (\<lambda>(len, bs).
       if len > max_length then Inl (Length_Exceeds_Max len max_length)
       else read_exact Read_Failed len bs)"

section \<open>Writers\<close>

definition psy_write_u8 :: "u8 \<Rightarrow> u8 list" where
  "psy_write_u8 x = [x]"

definition psy_write_u32 :: "u32 \<Rightarrow> u8 list" where
  "psy_write_u32 x = le_bytes 4 x"

definition psy_write_u64 :: "u64 \<Rightarrow> u8 list" where
  "psy_write_u64 x = le_bytes 8 x"

definition psy_write_vec_length :: "nat \<Rightarrow> io_error + u8 list" where
  "psy_write_vec_length len =
     (if len < 2 ^ 32 then Inr (psy_write_u32 (of_nat len)) else Inl (Length_Exceeds_U32 len))"

definition psy_write_bytes_vec :: "u8 list \<Rightarrow> io_error + u8 list" where
  "psy_write_bytes_vec bytes = rbind (psy_write_vec_length (length bytes)) (\<lambda>hd. Inr (hd @ bytes))"

text \<open>\<open>n >= u32::MAX\<close> is refused by \<open>p_write_varuint\<close>, \<open>n > u32::MAX\<close> by the item count.\<close>

definition p_write_varuint :: "nat \<Rightarrow> io_error + u8 list" where
  "p_write_varuint n =
     (if n \<ge> 2 ^ 32 - 1 then Inl (Length_Exceeds_U32 n) else Inr (le_bytes 4 (of_nat n :: u32)))"

definition p_read_varuint :: "(io_error, nat) reader" where
  "p_read_varuint = rmap unat (read_word Read_Failed 4 :: (io_error, u32) reader)"

definition p_write_fixed_items_manycount :: "nat \<Rightarrow> io_error + u8 list" where
  "p_write_fixed_items_manycount n =
     (if n > 2 ^ 32 - 1 then Inl (Length_Exceeds_U32 n) else Inr (le_bytes 4 (of_nat n :: u32)))"

definition p_read_fixed_items_many_count :: "(io_error, nat) reader" where
  "p_read_fixed_items_many_count = rmap unat (read_word Read_Failed 4 :: (io_error, u32) reader)"

section \<open>Round trips\<close>

lemma unat_of_nat_u32: "n < 2 ^ 32 \<Longrightarrow> unat (of_nat n :: u32) = n"
  by (simp add: unat_of_nat)

text \<open>The bytes of a length that fits.\<close>

definition len_bytes :: "nat \<Rightarrow> u8 list" where
  "len_bytes n = le_bytes 4 (of_nat n :: u32)"

interpretation vec_len: strict_codec len_bytes psy_read_vec_length "\<lambda>n. n < 2 ^ 32"
proof
  fix n :: nat and rest assume "n < 2 ^ 32"
  thus "psy_read_vec_length (len_bytes n @ rest) = Inr (n, rest)"
    using unat_of_nat_u32[of n]
    by (simp add: psy_read_vec_length_def psy_read_u32_def len_bytes_def rmap_def wire_simps)
next
  fix bs rest and n :: nat
  assume "psy_read_vec_length bs = Inr (n, rest)"
  then obtain x :: u32 where "bs = le_bytes 4 x @ rest" "n = unat x"
    by (auto simp: psy_read_vec_length_def psy_read_u32_def rmap_def rbind_Inr read_word_iff)
  thus "bs = len_bytes n @ rest \<and> n < 2 ^ 32"
    using unsigned_less[of x, where 'a=nat] by (simp add: len_bytes_def)
qed

lemma psy_write_vec_length_len: "n < 2 ^ 32 \<Longrightarrow> psy_write_vec_length n = Inr (len_bytes n)"
  by (simp add: psy_write_vec_length_def psy_write_u32_def len_bytes_def)

lemma read_u64_rt [wire_simps]: "psy_read_u64 (le_bytes 8 x @ rest) = Inr (x, rest)"
  by (simp add: psy_read_u64_def wire_simps)

lemma read_u64_iff: "psy_read_u64 bs = Inr (x, rest) \<longleftrightarrow> bs = le_bytes 8 x @ rest"
  by (simp add: psy_read_u64_def read_word_iff)

lemma read_fixed_iff: "psy_read_bytes_fixed n bs = Inr (xs, rest) \<longleftrightarrow> bs = xs @ rest \<and> length xs = n"
  by (simp add: psy_read_bytes_fixed_def read_exact_Inr)

lemma read_fixed_rt [wire_simps]: "length xs = n \<Longrightarrow> psy_read_bytes_fixed n (xs @ rest) = Inr (xs, rest)"
  by (simp add: read_fixed_iff)

section \<open>Properties\<close>

text \<open>
  Byte vectors: what \<open>psy_write_bytes_vec\<close> writes is read back exactly, with the rest of
  the stream untouched, and a vector too long for the length field is refused when written.
\<close>

lemma bytes_vec_roundtrip:
  "case psy_write_bytes_vec bytes of
     Inr out \<Rightarrow> psy_read_bytes_vec (out @ rest) = Inr (bytes, rest)
   | Inl e \<Rightarrow> e = Length_Exceeds_U32 (length bytes) \<and> 2 ^ 32 \<le> length bytes"
proof (cases "length bytes < 2 ^ 32")
  case True
  hence w: "psy_write_bytes_vec bytes = Inr (len_bytes (length bytes) @ bytes)"
    unfolding psy_write_bytes_vec_def psy_write_vec_length_len[OF True] by simp
  show ?thesis unfolding w sum.case psy_read_bytes_vec_def append_assoc vec_len.dec_enc[OF True]
    by simp
next
  case False
  thus ?thesis by (simp add: psy_write_bytes_vec_def psy_write_vec_length_def)
qed

end
