(* ===== verification/Merkle_Proof.thy ===== *)
theory Merkle_Proof
  imports Node_Key Psy_Io
begin

unbundle bit_operations_syntax

text \<open>
  Merkle hashing and Merkle proofs: \<open>src/parth_core/src/crypto/hash/traits/merkle.rs\<close>,
  \<open>src/parth_core/src/crypto/hash/merkle_proof.rs\<close> and the integer helpers of
  \<open>src/parth_core/src/utils/math.rs\<close>. The two-to-one compression function is a parameter of
  every definition: nothing is assumed of it, and binding properties are stated as an explicit
  collision that two conflicting proofs yield. The cached zero hashes are the table
  \<open>generate_zero_hashes\<close> computes; the locale \<open>zero_hasher\<close> is that contract.
\<close>

section \<open>Hashers\<close>

text \<open>\<open>MerkleHasher\<close> with the table of \<open>MerkleZeroHasherWithCache\<close>.\<close>

record 'h hasher =
  two_to_one :: "'h \<Rightarrow> 'h \<Rightarrow> 'h"
  cached_zero_hashes :: "'h list"

definition two_to_one_swap :: "'h hasher \<Rightarrow> bool \<Rightarrow> 'h \<Rightarrow> 'h \<Rightarrow> 'h" where
  "two_to_one_swap H swap left right =
     (if swap then two_to_one H right left else two_to_one H left right)"

definition ZERO_HASH_CACHE_SIZE :: nat where
  "ZERO_HASH_CACHE_SIZE = 128"

fun iterate_merkle_hasher :: "('h \<Rightarrow> 'h \<Rightarrow> 'h) \<Rightarrow> 'h \<Rightarrow> nat \<Rightarrow> 'h" where
  "iterate_merkle_hasher t current 0 = current"
| "iterate_merkle_hasher t current (Suc n) = iterate_merkle_hasher t (t current current) n"

definition generate_zero_hashes :: "('h \<Rightarrow> 'h \<Rightarrow> 'h) \<Rightarrow> 'h \<Rightarrow> 'h list" where
  "generate_zero_hashes t zero_value =
     fold (\<lambda>i zero_hashes. zero_hashes[i := t (zero_hashes ! (i - 1)) (zero_hashes ! (i - 1))])
       [1..<ZERO_HASH_CACHE_SIZE] ((replicate ZERO_HASH_CACHE_SIZE zero_value)[0 := zero_value])"

text \<open>A hasher with its generated table.\<close>

definition mk_hasher :: "('h \<Rightarrow> 'h \<Rightarrow> 'h) \<Rightarrow> 'h \<Rightarrow> 'h hasher" where
  "mk_hasher t zero_value =
     \<lparr>two_to_one = t, cached_zero_hashes = generate_zero_hashes t zero_value\<rparr>"

definition get_zero_hash :: "'h hasher \<Rightarrow> nat \<Rightarrow> 'h" where
  "get_zero_hash H reverse_level =
     (if reverse_level < ZERO_HASH_CACHE_SIZE then cached_zero_hashes H ! reverse_level
      else iterate_merkle_hasher (two_to_one H) (cached_zero_hashes H ! (ZERO_HASH_CACHE_SIZE - 1))
             (reverse_level - ZERO_HASH_CACHE_SIZE + 1))"

section \<open>Integer helpers\<close>

text \<open>\<open>usize::BITS - leading_zeros\<close> is the bit length.\<close>

fun bit_length :: "nat \<Rightarrow> nat" where
  "bit_length n = (if n = 0 then 0 else Suc (bit_length (n div 2)))"

definition bits_u64 :: "u64 \<Rightarrow> nat" where
  "bits_u64 n = bit_length (unat n)"

definition log2_ceil :: "nat \<Rightarrow> nat" where
  "log2_ceil n = bit_length (n - 1)"

fun trailing_zeros :: "nat \<Rightarrow> nat" where
  "trailing_zeros n = (if n = 0 then 64 else if odd n then 0 else Suc (trailing_zeros (n div 2)))"

text \<open>\<open>None\<close> is the failed assertion "Not a power of two"; \<open>wrapping_shr\<close> masks the amount.\<close>

definition log2_strict :: "nat \<Rightarrow> nat option" where
  "log2_strict n =
     (let res = trailing_zeros n in if n div 2 ^ (res mod 64) = 1 then Some res else None)"

definition ceil_div_usize :: "nat \<Rightarrow> nat \<Rightarrow> nat" where
  "ceil_div_usize a b = (a + b - 1) div b"

section \<open>Roots of leaf lists\<close>

text \<open>One level: \<open>two_to_one\<close> of the pairs \<open>2i\<close>, \<open>2i + 1\<close>.\<close>

definition hash_pairs :: "('h \<Rightarrow> 'h \<Rightarrow> 'h) \<Rightarrow> 'h list \<Rightarrow> nat \<Rightarrow> 'h list" where
  "hash_pairs t leaves n = map (\<lambda>i. t (leaves ! (2 * i)) (leaves ! (2 * i + 1))) [0..<n]"

function leaves_loop :: "('h \<Rightarrow> 'h \<Rightarrow> 'h) \<Rightarrow> 'h list \<Rightarrow> nat \<Rightarrow> 'h list" where
  "leaves_loop t current_leaves current_leaves_len =
     (if current_leaves_len > 1
      then leaves_loop t (hash_pairs t current_leaves (current_leaves_len div 2))
             (current_leaves_len div 2)
      else current_leaves)"
  by auto
termination by (relation "measure (\<lambda>(t, ls, n). n)") auto

datatype leaves_error = Empty_Leaves | Not_Power_Of_Two

definition compute_root_from_leaves :: "('h \<Rightarrow> 'h \<Rightarrow> 'h) \<Rightarrow> 'h list \<Rightarrow> leaves_error + 'h" where
  "compute_root_from_leaves t leaves =
     (let leaves_len = length leaves in
      if leaves_len = 0 then Inl Empty_Leaves
      else if leaves_len = 1 then Inr (leaves ! 0)
      else if leaves_len = 2 then Inr (t (leaves ! 0) (leaves ! 1))
      else let height = log2_ceil leaves_len in
        if leaves_len \<noteq> 2 ^ height then Inl Not_Power_Of_Two
        else let current_leaves_len = leaves_len div 2;
                 current_leaves = hash_pairs t leaves current_leaves_len
             in Inr (leaves_loop t current_leaves current_leaves_len ! 0))"

text \<open>\<open>None\<close> is the index panic on no leaves.\<close>

function partial_loop :: "('h \<Rightarrow> 'h \<Rightarrow> 'h) \<Rightarrow> 'h list \<Rightarrow> 'h list" where
  "partial_loop t current =
     (if length current > 1
      then partial_loop t
        (hash_pairs t current (length current div 2) @
         (if length current mod 2 = 1 then [current ! (length current - 1)] else []))
      else current)"
  by auto
termination by (relation "measure (\<lambda>(t, ls). length ls)") (auto simp: hash_pairs_def, presburger)

definition compute_partial_merkle_root_from_leaves :: "('h \<Rightarrow> 'h \<Rightarrow> 'h) \<Rightarrow> 'h list \<Rightarrow> 'h option" where
  "compute_partial_merkle_root_from_leaves t leaves =
     (if leaves = [] then None else Some (partial_loop t leaves ! 0))"

declare bit_length.simps [simp del] trailing_zeros.simps [simp del]
  leaves_loop.simps [simp del] partial_loop.simps [simp del]

section \<open>Merkle proofs\<close>

record 'h merkle_proof =
  mp_root :: 'h
  mp_value :: 'h
  mp_index :: u64
  mp_siblings :: "'h list"

record 'h delta_merkle_proof =
  dmp_old_root :: 'h
  dmp_old_value :: 'h
  dmp_new_root :: 'h
  dmp_new_value :: 'h
  dmp_index :: u64
  dmp_siblings :: "'h list"

text \<open>The loop \<open>for (i, sibling) in siblings.iter().enumerate()\<close>; \<open>1 << i\<close> is a \<open>u64\<close> shift.\<close>

fun root_loop :: "('h \<Rightarrow> 'h \<Rightarrow> 'h) \<Rightarrow> u64 \<Rightarrow> nat \<Rightarrow> 'h \<Rightarrow> 'h list \<Rightarrow> 'h" where
  "root_loop t index i current [] = current"
| "root_loop t index i current (sib # sibs) =
     root_loop t index (Suc i)
       (if index AND shl64 1 i = 0 then t current sib else t sib current) sibs"

definition compute_root_merkle_proof_generic :: "('h \<Rightarrow> 'h \<Rightarrow> 'h) \<Rightarrow> 'h \<Rightarrow> u64 \<Rightarrow> 'h list \<Rightarrow> 'h" where
  "compute_root_merkle_proof_generic t value index sibs = root_loop t index 0 value sibs"

fun path_loop :: "'h hasher \<Rightarrow> u64 \<Rightarrow> 'h \<Rightarrow> 'h list \<Rightarrow> 'h list" where
  "path_loop H index current [] = []"
| "path_loop H index current (sib # sibs) =
     (let current = two_to_one_swap H (index AND 1 = 1) current sib
      in current # path_loop H (shr64 index 1) current sibs)"

definition compute_path_merkle_proof_generic :: "'h hasher \<Rightarrow> 'h \<Rightarrow> u64 \<Rightarrow> 'h list \<Rightarrow> 'h list" where
  "compute_path_merkle_proof_generic H value index sibs = value # path_loop H index value sibs"

definition verify_merkle_proof_core :: "('h \<Rightarrow> 'h \<Rightarrow> 'h) \<Rightarrow> 'h merkle_proof \<Rightarrow> bool" where
  "verify_merkle_proof_core t proof \<longleftrightarrow>
     \<not> length (mp_siblings proof) > 64 \<and>
     root_loop t (mp_index proof) 0 (mp_value proof) (mp_siblings proof) = mp_root proof"

text \<open>Both roots in one pass; the historical one sees zero hashes to the right.\<close>

fun historical_loop :: "'h hasher \<Rightarrow> u64 \<Rightarrow> nat \<Rightarrow> 'h \<Rightarrow> 'h \<Rightarrow> 'h list \<Rightarrow> 'h \<times> 'h" where
  "historical_loop H index i historical current [] = (historical, current)"
| "historical_loop H index i historical current (sib # sibs) =
     (if index AND shl64 1 i = 0
      then historical_loop H index (Suc i) (two_to_one H historical (get_zero_hash H i))
             (two_to_one H current sib) sibs
      else historical_loop H index (Suc i) (two_to_one H sib historical)
             (two_to_one H sib current) sibs)"

definition compute_historical_and_current_merkle_roots_core ::
  "'h hasher \<Rightarrow> 'h merkle_proof \<Rightarrow> 'h \<times> 'h" where
  "compute_historical_and_current_merkle_roots_core H proof =
     historical_loop H (mp_index proof) 0 (get_zero_hash H 0) (mp_value proof) (mp_siblings proof)"

definition compute_historical_and_current_merkle_roots_core_gt ::
  "'h hasher \<Rightarrow> 'h merkle_proof \<Rightarrow> 'h \<times> 'h" where
  "compute_historical_and_current_merkle_roots_core_gt H proof =
     historical_loop H (mp_index proof) 0 (mp_value proof) (mp_value proof) (mp_siblings proof)"

definition compute_historical_and_current_merkle_roots_core_gt_alt ::
  "'h hasher \<Rightarrow> 'h merkle_proof \<Rightarrow> 'h \<times> 'h" where
  "compute_historical_and_current_merkle_roots_core_gt_alt H proof =
     historical_loop H (mp_index proof) 0 (get_zero_hash H 0) (mp_value proof) (mp_siblings proof)"

fun append_root_loop :: "'h hasher \<Rightarrow> u64 \<Rightarrow> nat \<Rightarrow> 'h \<Rightarrow> 'h list \<Rightarrow> 'h" where
  "append_root_loop H index i current [] = current"
| "append_root_loop H index i current (sib # sibs) =
     append_root_loop H index (Suc i)
       (if index AND shl64 1 i = 0 then two_to_one H current (get_zero_hash H i)
        else two_to_one H sib current) sibs"

definition compute_historical_append_root :: "'h hasher \<Rightarrow> 'h \<Rightarrow> u64 \<Rightarrow> 'h list \<Rightarrow> 'h" where
  "compute_historical_append_root H value index sibs = append_root_loop H index 0 value sibs"

definition compute_historical_append_root_core :: "'h hasher \<Rightarrow> 'h merkle_proof \<Rightarrow> 'h" where
  "compute_historical_append_root_core H proof =
     append_root_loop H (mp_index proof) 0 (mp_value proof) (mp_siblings proof)"

definition verify_delta_merkle_proof_core :: "('h \<Rightarrow> 'h \<Rightarrow> 'h) \<Rightarrow> 'h delta_merkle_proof \<Rightarrow> bool" where
  "verify_delta_merkle_proof_core t proof \<longleftrightarrow>
     \<not> length (dmp_siblings proof) > 64 \<and>
     root_loop t (dmp_index proof) 0 (dmp_old_value proof) (dmp_siblings proof) = dmp_old_root proof \<and>
     root_loop t (dmp_index proof) 0 (dmp_new_value proof) (dmp_siblings proof) = dmp_new_root proof"

section \<open>Methods of the proof types\<close>

definition mp_get_append_root :: "'h hasher \<Rightarrow> 'h merkle_proof \<Rightarrow> 'h" where
  "mp_get_append_root H proof = compute_historical_append_root_core H proof"

definition compute_root_with_value :: "('h \<Rightarrow> 'h \<Rightarrow> 'h) \<Rightarrow> 'h merkle_proof \<Rightarrow> 'h \<Rightarrow> 'h" where
  "compute_root_with_value t proof new_value =
     compute_root_merkle_proof_generic t new_value (mp_index proof) (mp_siblings proof)"

definition to_append_proof :: "'h hasher \<Rightarrow> 'h merkle_proof \<Rightarrow> 'h merkle_proof" where
  "to_append_proof H proof =
     (let sibs = map (\<lambda>i. if mp_index proof AND shl64 1 i = 0 then get_zero_hash H i
                               else mp_siblings proof ! i) [0..<length (mp_siblings proof)]
      in \<lparr>mp_root = compute_root_merkle_proof_generic (two_to_one H) (mp_value proof)
                      (mp_index proof) sibs,
          mp_value = mp_value proof, mp_index = mp_index proof, mp_siblings = sibs\<rparr>)"

text \<open>The loop of \<open>get_all_merkle_nodes_and_verify\<close>: nodes, final key and value.\<close>

fun all_nodes_loop ::
  "'h hasher \<Rightarrow> node_key \<Rightarrow> u64 \<Rightarrow> 'h \<Rightarrow> 'h list \<Rightarrow> (node_key \<times> 'h) list" where
  "all_nodes_loop H key index current [] = [(key, current)]"
| "all_nodes_loop H key index current (sibling_value # sibs) =
     (sibling key, sibling_value) # (key, current) #
     all_nodes_loop H (parent key) (shr64 index 1)
       (two_to_one_swap H (index AND 1 = 1) current sibling_value) sibs"

definition get_all_merkle_nodes_and_verify ::
  "'h hasher \<Rightarrow> 'h merkle_proof \<Rightarrow> unit + (node_key \<times> 'h) list" where
  "get_all_merkle_nodes_and_verify H proof =
     (let nodes = all_nodes_loop H (Node_Key (of_nat (length (mp_siblings proof))) (mp_index proof))
                    (mp_index proof) (mp_value proof) (mp_siblings proof)
      in if snd (last nodes) \<noteq> mp_root proof then Inl () else Inr nodes)"

definition mp_new_from_params :: "('h \<Rightarrow> 'h \<Rightarrow> 'h) \<Rightarrow> u64 \<Rightarrow> 'h \<Rightarrow> 'h list \<Rightarrow> 'h merkle_proof" where
  "mp_new_from_params t index value sibs =
     \<lparr>mp_root = compute_root_merkle_proof_generic t value index sibs,
      mp_value = value, mp_index = index, mp_siblings = sibs\<rparr>"

definition mp_verify :: "('h \<Rightarrow> 'h \<Rightarrow> 'h) \<Rightarrow> 'h merkle_proof \<Rightarrow> bool" where
  "mp_verify t proof \<longleftrightarrow> \<not> length (mp_siblings proof) > 64 \<and> verify_merkle_proof_core t proof"

definition to_delta_merkle_proof_template :: "'h merkle_proof \<Rightarrow> 'h delta_merkle_proof" where
  "to_delta_merkle_proof_template p =
     \<lparr>dmp_old_root = mp_root p, dmp_old_value = mp_value p, dmp_new_root = mp_root p,
      dmp_new_value = mp_value p, dmp_index = mp_index p, dmp_siblings = mp_siblings p\<rparr>"

definition dmp_get_append_root :: "'h hasher \<Rightarrow> 'h delta_merkle_proof \<Rightarrow> 'h" where
  "dmp_get_append_root H p =
     compute_historical_append_root H (dmp_new_value p) (dmp_index p) (dmp_siblings p)"

definition dmp_from_params ::
  "('h \<Rightarrow> 'h \<Rightarrow> 'h) \<Rightarrow> u64 \<Rightarrow> 'h \<Rightarrow> 'h \<Rightarrow> 'h list \<Rightarrow> 'h delta_merkle_proof" where
  "dmp_from_params t index old_value new_value sibs =
     \<lparr>dmp_old_root = compute_root_merkle_proof_generic t old_value index sibs,
      dmp_old_value = old_value,
      dmp_new_root = compute_root_merkle_proof_generic t new_value index sibs,
      dmp_new_value = new_value, dmp_index = index, dmp_siblings = sibs\<rparr>"

definition dmp_verify :: "('h \<Rightarrow> 'h \<Rightarrow> 'h) \<Rightarrow> 'h delta_merkle_proof \<Rightarrow> bool" where
  "dmp_verify t proof \<longleftrightarrow> \<not> length (dmp_siblings proof) > 64 \<and> verify_delta_merkle_proof_core t proof"

definition single_value :: "u64 \<Rightarrow> 'h \<Rightarrow> 'h \<Rightarrow> 'h delta_merkle_proof" where
  "single_value index old_value new_value =
     \<lparr>dmp_old_root = old_value, dmp_old_value = old_value, dmp_new_root = new_value,
      dmp_new_value = new_value, dmp_index = index, dmp_siblings = []\<rparr>"

text \<open>\<open>None\<close> is the failed assertion on the new height.\<close>

definition with_shortened_height_from_bottom ::
  "('h \<Rightarrow> 'h \<Rightarrow> 'h) \<Rightarrow> 'h delta_merkle_proof \<Rightarrow> nat \<Rightarrow> 'h delta_merkle_proof option" where
  "with_shortened_height_from_bottom t p new_height =
     (if \<not> new_height \<le> length (dmp_siblings p) then None
      else if new_height = length (dmp_siblings p) then Some p
      else let height_diff = length (dmp_siblings p) - new_height;
               low_index = dmp_index p AND (shl64 1 height_diff - 1);
               new_index = shr64 (dmp_index p) height_diff;
               low = take height_diff (dmp_siblings p);
               old_value = compute_root_merkle_proof_generic t (dmp_old_value p) low_index low;
               new_value = compute_root_merkle_proof_generic t (dmp_new_value p) low_index low
           in Some (dmp_from_params t new_index old_value new_value
                (drop height_diff (dmp_siblings p))))"

definition shorten_height ::
  "('h \<Rightarrow> 'h \<Rightarrow> 'h) \<Rightarrow> 'h delta_merkle_proof \<Rightarrow> nat \<Rightarrow> 'h delta_merkle_proof option" where
  "shorten_height t p new_height =
     (if \<not> new_height \<le> length (dmp_siblings p) then None
      else if new_height = length (dmp_siblings p) then Some p
      else Some (dmp_from_params t (dmp_index p) (dmp_old_value p) (dmp_new_value p)
             (take new_height (dmp_siblings p))))"

section \<open>Zero hashes\<close>

definition zero_at :: "('h \<Rightarrow> 'h \<Rightarrow> 'h) \<Rightarrow> 'h \<Rightarrow> nat \<Rightarrow> 'h" where
  "zero_at t z n = ((\<lambda>x. t x x) ^^ n) z"

lemma zero_at_simps [simp]:
  "zero_at t z 0 = z" "zero_at t z (Suc n) = t (zero_at t z n) (zero_at t z n)"
  by (simp_all add: zero_at_def)

lemma iterate_zero_at: "iterate_merkle_hasher t (zero_at t z m) n = zero_at t z (m + n)"
proof (induction n arbitrary: m)
  case (Suc n)
  have "iterate_merkle_hasher t (zero_at t z m) (Suc n) = iterate_merkle_hasher t (zero_at t z (Suc m)) n"
    by simp
  thus ?case unfolding Suc.IH by simp
qed simp

lemma zero_hashes_fold:
  "m \<le> N \<Longrightarrow> 0 < m \<Longrightarrow>
   fold (\<lambda>i zh. zh[i := t (zh ! (i - 1)) (zh ! (i - 1))]) [1..<m] (replicate N z) =
   map (\<lambda>j. if j < m then zero_at t z j else z) [0..<N]"
proof (induction m)
  case (Suc m)
  show ?case
  proof (cases "m = 0")
    case True
    show ?thesis unfolding True by (rule nth_equalityI) (use Suc.prems in auto)
  next
    case False
    then obtain k where m: "m = Suc k" by (cases m) auto
    show ?thesis using Suc False
      by (auto simp: m nth_list_update intro!: nth_equalityI)
  qed
qed simp

lemma cache_size_pos: "0 < ZERO_HASH_CACHE_SIZE"
  by (simp add: ZERO_HASH_CACHE_SIZE_def)

lemma generate_zero_hashes_eq:
  "generate_zero_hashes t z = map (zero_at t z) [0..<ZERO_HASH_CACHE_SIZE]"
proof -
  have "(replicate ZERO_HASH_CACHE_SIZE z)[0 := z] = replicate ZERO_HASH_CACHE_SIZE z"
    using cache_size_pos by (simp add: list_update_same_conv)
  thus ?thesis unfolding generate_zero_hashes_def zero_hashes_fold[OF order_refl cache_size_pos]
    using zero_hashes_fold[OF order_refl cache_size_pos, of t z] by simp
qed

locale zero_hasher =
  fixes H :: "'h hasher" and z :: 'h
  assumes cached: "cached_zero_hashes H = generate_zero_hashes (two_to_one H) z"
begin

lemma get_zero: "get_zero_hash H n = zero_at (two_to_one H) z n"
  using iterate_zero_at[of "two_to_one H" z "ZERO_HASH_CACHE_SIZE - 1" "n - ZERO_HASH_CACHE_SIZE + 1"]
    cache_size_pos
  by (cases "n < ZERO_HASH_CACHE_SIZE")
    (simp_all add: get_zero_hash_def cached generate_zero_hashes_eq)

lemma get_zero_0: "get_zero_hash H 0 = z"
  by (simp add: get_zero)

lemma get_zero_Suc: "get_zero_hash H (Suc n) = two_to_one H (get_zero_hash H n) (get_zero_hash H n)"
  by (simp add: get_zero)

end

interpretation mk: zero_hasher "mk_hasher t z" z for t z
  by unfold_locales (simp add: mk_hasher_def)

section \<open>The reference tree\<close>

text \<open>The value of the node with index \<open>j\<close> at distance \<open>n\<close> above the leaves \<open>f\<close>.\<close>

fun mnode :: "('h \<Rightarrow> 'h \<Rightarrow> 'h) \<Rightarrow> (nat \<Rightarrow> 'h) \<Rightarrow> nat \<Rightarrow> nat \<Rightarrow> 'h" where
  "mnode t f 0 j = f j"
| "mnode t f (Suc n) j = t (mnode t f n (2 * j)) (mnode t f n (2 * j + 1))"

definition sib_index :: "nat \<Rightarrow> nat" where
  "sib_index j = (if even j then j + 1 else j - 1)"

lemma mnode_sib:
  "mnode t f (Suc n) (j div 2) =
     (if even j then t (mnode t f n j) (mnode t f n (sib_index j))
      else t (mnode t f n (sib_index j)) (mnode t f n j))"
  by (auto simp: sib_index_def elim!: evenE oddE)

lemma mnode_cong: "(\<And>i. j * 2 ^ n \<le> i \<Longrightarrow> i < (j + 1) * 2 ^ n \<Longrightarrow> f i = g i) \<Longrightarrow> mnode t f n j = mnode t g n j"
proof (induction n arbitrary: j)
  case (Suc n)
  have "mnode t f n (2 * j) = mnode t g n (2 * j)"
    by (rule Suc.IH, rule Suc.prems) (auto simp: algebra_simps)
  moreover have "mnode t f n (2 * j + 1) = mnode t g n (2 * j + 1)"
    by (rule Suc.IH, rule Suc.prems) (auto simp: algebra_simps)
  ultimately show ?case by simp
qed simp

lemma mnode_zero: "mnode t (\<lambda>_. z) n j = zero_at t z n"
  by (induction n arbitrary: j) auto

section \<open>The root computation\<close>

lemma root_loop_append:
  "root_loop t index i v (xs @ ys) = root_loop t index (i + length xs) (root_loop t index i v xs) ys"
  by (induction xs arbitrary: i v) auto

lemma root_loop_shift:
  "i + k + length ss \<le> 64 \<Longrightarrow> root_loop t index (i + k) v ss = root_loop t (drop_bit k index) i v ss"
proof (induction ss arbitrary: i v)
  case (Cons s ss)
  have "(index AND shl64 1 (i + k) = 0) = (drop_bit k index AND shl64 1 i = 0)"
    using Cons.prems bit_test_u64[of "i + k" index] bit_test_u64[of i "drop_bit k index"]
    by (simp add: bit_drop_bit_eq add.commute del: shl64_small)
  moreover have "root_loop t index (Suc (i + k)) w ss = root_loop t (drop_bit k index) (Suc i) w ss" for w
    using Cons.IH[of "Suc i" w] Cons.prems by simp
  ultimately show ?case by (simp only: root_loop.simps)
qed simp

lemma root_loop_low:
  "(\<And>n. n < i + length ss \<Longrightarrow> bit index n = bit index' n) \<Longrightarrow> i + length ss \<le> 64 \<Longrightarrow>
   root_loop t index i v ss = root_loop t index' i v ss"
proof (induction ss arbitrary: i v)
  case (Cons s ss)
  have "(index AND shl64 1 i = 0) = (index' AND shl64 1 i = 0)"
    using Cons.prems(1)[of i] Cons.prems(2) bit_test_u64[of i index] bit_test_u64[of i index'] by simp
  thus ?case using Cons.IH[of "Suc i"] Cons.prems by (simp only: root_loop.simps) simp
qed simp

lemma bit_unat_div: "bit (index :: u64) i = odd (unat index div 2 ^ i)"
  unfolding bit_iff_odd[of "unat index" i, symmetric] by (simp add: bit_unsigned_iff)

text \<open>The siblings of leaf \<open>j\<close>, bottom up, from height \<open>i\<close> to height \<open>h\<close>.\<close>

definition ref_siblings :: "('h \<Rightarrow> 'h \<Rightarrow> 'h) \<Rightarrow> (nat \<Rightarrow> 'h) \<Rightarrow> nat \<Rightarrow> nat \<Rightarrow> nat \<Rightarrow> 'h list" where
  "ref_siblings t f j i h = map (\<lambda>n. mnode t f n (sib_index (j div 2 ^ n))) [i..<h]"

lemma root_loop_ref:
  assumes "i \<le> h" "h \<le> 64"
  shows "root_loop t index i (mnode t f i (unat index div 2 ^ i)) (ref_siblings t f (unat index) i h) =
    mnode t f h (unat index div 2 ^ h)"
  using assms(1)
proof (induction "h - i" arbitrary: i)
  case 0
  thus ?case by (simp add: ref_siblings_def)
next
  case (Suc d)
  let ?j = "unat index div 2 ^ i"
  have e: "ref_siblings t f (unat index) i h =
      mnode t f i (sib_index ?j) # ref_siblings t f (unat index) (Suc i) h"
    using Suc.hyps(2) by (simp add: ref_siblings_def upt_conv_Cons)
  have i: "i < 64" using Suc.hyps(2) assms(2) by simp
  have "(if index AND shl64 1 i = 0 then t (mnode t f i ?j) (mnode t f i (sib_index ?j))
      else t (mnode t f i (sib_index ?j)) (mnode t f i ?j)) = mnode t f (Suc i) (?j div 2)"
    unfolding mnode_sib using bit_test_u64[OF i, of index] bit_unat_div[of index i] by simp
  moreover have "?j div 2 = unat index div 2 ^ Suc i" by (metis div_mult2_eq power_Suc2)
  ultimately show ?case using Suc.hyps(1)[of "Suc i"] Suc.hyps(2) Suc.prems e by simp
qed

lemma mnode_other:
  assumes "\<And>k. k div 2 ^ n = j \<Longrightarrow> f k = g k"
  shows "mnode t f n j = mnode t g n j"
proof (rule mnode_cong, rule assms)
  fix k :: nat
  assume "j * 2 ^ n \<le> k" "k < (j + 1) * 2 ^ n"
  thus "k div 2 ^ n = j" by (intro div_nat_eqI) (simp_all add: mult.commute)
qed

lemma sib_index_neq: "sib_index j \<noteq> j"
  by (cases j) (auto simp: sib_index_def)

lemma ref_siblings_cong:
  assumes "\<And>k. k \<noteq> j \<Longrightarrow> f k = g k"
  shows "ref_siblings t f j i h = ref_siblings t g j i h"
proof -
  have "mnode t f n (sib_index (j div 2 ^ n)) = mnode t g n (sib_index (j div 2 ^ n))" for n
    by (rule mnode_other) (metis assms sib_index_neq)
  thus ?thesis by (simp add: ref_siblings_def)
qed

section \<open>Roots of leaf lists against the reference tree\<close>

lemma mnode_compose: "mnode t (mnode t f a) b j = mnode t f (a + b) j"
  by (induction b arbitrary: j) auto

lemma hash_pairs_nth: "j < n \<Longrightarrow> hash_pairs t ls n ! j = mnode t ((!) ls) 1 j"
  by (simp add: hash_pairs_def)

lemma length_hash_pairs [simp]: "length (hash_pairs t ls n) = n"
  by (simp add: hash_pairs_def)

lemma mnode_hash_pairs:
  "mnode t ((!) (hash_pairs t ls (2 ^ k))) k 0 = mnode t ((!) ls) (Suc k) 0"
proof -
  have "mnode t ((!) (hash_pairs t ls (2 ^ k))) k 0 = mnode t (mnode t ((!) ls) 1) k 0"
    by (rule mnode_cong) (simp add: hash_pairs_nth)
  thus ?thesis by (simp only: mnode_compose) simp
qed

lemma two_pow_gt1 [simp]: "Suc 0 < 2 * 2 ^ k"
  by (induction k) auto

lemma leaves_loop_root: "leaves_loop t ls (2 ^ k) ! 0 = mnode t ((!) ls) k 0"
proof (induction k arbitrary: ls)
  case 0
  show ?case by (simp add: leaves_loop.simps)
next
  case (Suc k)
  have "leaves_loop t ls (2 ^ Suc k) = leaves_loop t (hash_pairs t ls (2 ^ k)) (2 ^ k)"
    by (subst leaves_loop.simps) simp
  thus ?case using Suc.IH[of "hash_pairs t ls (2 ^ k)"] mnode_hash_pairs by metis
qed

lemma bit_length_pow: "bit_length (2 ^ k - 1) = k"
proof (induction k)
  case 0
  show ?case by (simp add: bit_length.simps)
next
  case (Suc k)
  have "(2 * x - 1) div 2 = x - 1" if "0 < x" for x :: nat using that by (cases x) auto
  hence "(2 ^ Suc k - 1 :: nat) div 2 = 2 ^ k - 1" by simp
  moreover have "(2 ^ Suc k - 1 :: nat) \<noteq> 0" using two_pow_gt1[of k] by (simp add: not_le)
  ultimately show ?case using Suc.IH by (subst bit_length.simps) simp
qed

lemma log2_ceil_pow: "log2_ceil (2 ^ k) = k"
  unfolding log2_ceil_def by (rule bit_length_pow)

lemma compute_root_pow:
  assumes "length leaves = 2 ^ k"
  shows "compute_root_from_leaves t leaves = Inr (mnode t ((!) leaves) k 0)"
proof -
  consider "k = 0" | "k = 1" | m where "k = Suc m" "0 < m" by (cases k; cases "k - 1") auto
  thus ?thesis
  proof cases
    case 3
    have "length leaves div 2 = 2 ^ m" "length leaves \<noteq> 0" "length leaves \<noteq> 1" "length leaves \<noteq> 2"
      using assms 3 two_pow_gt1[of "m - 1"] by (cases m, simp_all)+
    moreover have "leaves_loop t (hash_pairs t leaves (2 ^ m)) (2 ^ m) ! 0 = mnode t ((!) leaves) k 0"
      unfolding leaves_loop_root mnode_hash_pairs 3(1) ..
    ultimately show ?thesis
      using log2_ceil_pow[of k] assms by (simp add: compute_root_from_leaves_def Let_def)
  qed (use assms in \<open>simp_all add: compute_root_from_leaves_def\<close>)
qed

lemma compute_root_error:
  "compute_root_from_leaves t leaves = Inl e \<longleftrightarrow>
     (if leaves = [] then e = Empty_Leaves
      else (\<forall>k. length leaves \<noteq> 2 ^ k) \<and> e = Not_Power_Of_Two)"
proof (cases "\<exists>k. length leaves = 2 ^ k")
  case True
  then obtain k where k: "length leaves = 2 ^ k" by blast
  hence "leaves \<noteq> []" by auto
  thus ?thesis using k compute_root_pow[OF k] by auto
next
  case False
  hence "length leaves \<noteq> 1" "length leaves \<noteq> 2" "length leaves \<noteq> 2 ^ log2_ceil (length leaves)"
    by (metis power_0, metis power_one_right, blast)
  thus ?thesis using False by (auto simp: compute_root_from_leaves_def Let_def)
qed

lemma partial_loop_root: "length ls = 2 ^ k \<Longrightarrow> partial_loop t ls ! 0 = mnode t ((!) ls) k 0"
proof (induction k arbitrary: ls)
  case 0
  thus ?case by (simp add: partial_loop.simps)
next
  case (Suc k)
  have "partial_loop t ls = partial_loop t (hash_pairs t ls (2 ^ k))"
    using Suc.prems by (subst partial_loop.simps) simp
  thus ?case using Suc.IH[of "hash_pairs t ls (2 ^ k)"] mnode_hash_pairs length_hash_pairs by metis
qed

section \<open>Conflicting proofs yield a collision\<close>

definition ordered :: "u64 \<Rightarrow> nat \<Rightarrow> 'h \<Rightarrow> 'h \<Rightarrow> 'h \<times> 'h" where
  "ordered index i v s = (if index AND shl64 1 i = 0 then (v, s) else (s, v))"

text \<open>Walk up both paths and return the first pair of different inputs with equal hashes.\<close>

fun extract_collision ::
  "('h \<Rightarrow> 'h \<Rightarrow> 'h) \<Rightarrow> u64 \<Rightarrow> nat \<Rightarrow> 'h \<Rightarrow> 'h list \<Rightarrow> 'h \<Rightarrow> 'h list \<Rightarrow> (('h \<times> 'h) \<times> ('h \<times> 'h)) option"
where
  "extract_collision t index i v (s # ss) w (r # rs) =
     (let p = ordered index i v s; q = ordered index i w r in
      if p \<noteq> q \<and> case_prod t p = case_prod t q then Some (p, q)
      else extract_collision t index (Suc i) (case_prod t p) ss (case_prod t q) rs)"
| "extract_collision t index i v _ w _ = None"

lemma root_loop_ordered:
  "root_loop t index i v (s # ss) = root_loop t index (Suc i) (case_prod t (ordered index i v s)) ss"
  by (simp add: ordered_def)

lemma ordered_inj: "ordered index i v s = ordered index i w r \<longleftrightarrow> v = w \<and> s = r"
  by (auto simp: ordered_def)

lemma extract_collision_correct:
  assumes "root_loop t index i v ss = root_loop t index i w rs" "length ss = length rs"
    "v \<noteq> w \<or> ss \<noteq> rs"
  shows "\<exists>p q. extract_collision t index i v ss w rs = Some (p, q) \<and> p \<noteq> q \<and>
    case_prod t p = case_prod t q"
  using assms
proof (induction ss arbitrary: i v w rs)
  case (Cons s ss)
  then obtain r rs' where rs: "rs = r # rs'" by (cases rs) auto
  let ?p = "ordered index i v s" and ?q = "ordered index i w r"
  show ?case
  proof (cases "?p \<noteq> ?q \<and> case_prod t ?p = case_prod t ?q")
    case True
    thus ?thesis unfolding rs extract_collision.simps Let_def by auto
  next
    case False
    have "case_prod t ?p \<noteq> case_prod t ?q \<or> ss \<noteq> rs'"
      using False Cons.prems(3) rs by (auto simp: ordered_inj)
    thus ?thesis using Cons.IH[of "Suc i" "case_prod t ?p" "case_prod t ?q" rs'] Cons.prems False
      unfolding rs root_loop_ordered extract_collision.simps Let_def by auto
  qed
qed auto

section \<open>Derived proofs\<close>

lemma swap_step:
  "i < 64 \<Longrightarrow>
   (if index AND shl64 1 i = 0 then two_to_one H v s else two_to_one H s v) =
   two_to_one_swap H (drop_bit i index AND 1 = 1) v s" for index :: u64
  using bit_test_u64[of i index] and_one_u64(2)[of "drop_bit i index"]
  by (simp add: two_to_one_swap_def bit_drop_bit_eq)

lemma path_loop_last:
  "i + length ss \<le> 64 \<Longrightarrow>
   last (v # path_loop H (drop_bit i index) v ss) = root_loop (two_to_one H) index i v ss"
proof (induction ss arbitrary: i v)
  case (Cons s ss)
  have i: "i < 64" using Cons.prems by simp
  let ?c = "two_to_one_swap H (drop_bit i index AND 1 = 1) v s"
  have "shr64 (drop_bit i index) 1 = drop_bit (Suc i) index" by simp
  hence "last (v # path_loop H (drop_bit i index) v (s # ss)) =
      last (?c # path_loop H (drop_bit (Suc i) index) ?c ss)" by (simp add: Let_def)
  also have "\<dots> = root_loop (two_to_one H) index (Suc i) ?c ss"
    using Cons.IH[of "Suc i" ?c] Cons.prems by simp
  finally show ?case unfolding root_loop.simps swap_step[OF i] .
qed simp

lemma length_path_loop [simp]: "length (path_loop H index v ss) = length ss"
  by (induction ss arbitrary: index v) (auto simp: Let_def)

lemma all_nodes_last:
  "i + length ss \<le> 64 \<Longrightarrow>
   snd (last (all_nodes_loop H k (drop_bit i index) v ss)) = root_loop (two_to_one H) index i v ss"
proof (induction ss arbitrary: i k v)
  case (Cons s ss)
  have i: "i < 64" using Cons.prems by simp
  let ?c = "two_to_one_swap H (drop_bit i index AND 1 = 1) v s"
  have "shr64 (drop_bit i index) 1 = drop_bit (Suc i) index" by simp
  moreover have "all_nodes_loop H (parent k) x c ss \<noteq> []" for x c by (cases ss) auto
  ultimately have "snd (last (all_nodes_loop H k (drop_bit i index) v (s # ss))) =
      snd (last (all_nodes_loop H (parent k) (drop_bit (Suc i) index) ?c ss))" by simp
  also have "\<dots> = root_loop (two_to_one H) index (Suc i) ?c ss"
    using Cons.IH[of "Suc i"] Cons.prems by simp
  finally show ?case unfolding root_loop.simps swap_step[OF i] .
qed simp

lemma append_loop_root:
  "append_root_loop H index i v ss =
   root_loop (two_to_one H) index i v
     (map (\<lambda>n. if index AND shl64 1 (i + n) = 0 then get_zero_hash H (i + n) else ss ! n) [0..<length ss])"
proof (induction ss arbitrary: i v)
  case (Cons s ss)
  have "map (\<lambda>n. if index AND shl64 1 (i + n) = 0 then get_zero_hash H (i + n) else (s # ss) ! n)
      [0..<length (s # ss)] =
    (if index AND shl64 1 i = 0 then get_zero_hash H i else s) #
    map (\<lambda>n. if index AND shl64 1 (Suc i + n) = 0 then get_zero_hash H (Suc i + n) else ss ! n)
      [0..<length ss]"
    by (simp add: upt_conv_Cons map_Suc_upt[symmetric] del: upt_Suc shl64_small)
  thus ?case using Cons.IH[of "Suc i"] by (simp del: shl64_small)
qed simp

lemma historical_loop_eq:
  "historical_loop H index i hist v ss =
   (append_root_loop H index i hist ss, root_loop (two_to_one H) index i v ss)"
  by (induction ss arbitrary: i hist v) (auto simp del: shl64_small)

section \<open>Canonical serialization\<close>

text \<open>
  \<open>Q256BitHash\<close>: the conversions between a hash and its 32 bytes. The hash of the node is
  \<open>QHashOut\<close>, four 64-bit limbs stored little-endian (\<open>bytemuck::cast\<close>).
\<close>

datatype q_hash_out = QHashOut u64 u64 u64 u64

fun into_owned_32bytes :: "q_hash_out \<Rightarrow> u8 list" where
  "into_owned_32bytes (QHashOut a b c d) = le_bytes 8 a @ le_bytes 8 b @ le_bytes 8 c @ le_bytes 8 d"

definition from_owned_32bytes :: "u8 list \<Rightarrow> q_hash_out" where
  "from_owned_32bytes bs =
     QHashOut (from_le_bytes (take 8 bs)) (from_le_bytes (take 8 (drop 8 bs)))
       (from_le_bytes (take 8 (drop 16 bs))) (from_le_bytes (take 8 (drop 24 bs)))"

text \<open>The bytes a hash writes and the reader of one hash.\<close>

definition read_hash :: "(u8 list \<Rightarrow> 'h) \<Rightarrow> (io_error, 'h) reader" where
  "read_hash from32 = rmap from32 (psy_read_bytes_fixed 32)"

definition mp_serialized_size :: "'h merkle_proof \<Rightarrow> nat" where
  "mp_serialized_size p = 32 + 32 + 8 + 4 + length (mp_siblings p) * 32"

definition mp_write_to_io :: "('h \<Rightarrow> u8 list) \<Rightarrow> 'h merkle_proof \<Rightarrow> io_error + u8 list" where
  "mp_write_to_io to32 p =
     rbind (psy_write_vec_length (length (mp_siblings p))) (\<lambda>len_bytes.
       Inr (to32 (mp_root p) @ to32 (mp_value p) @ psy_write_u64 (mp_index p) @ len_bytes @
            concat (map to32 (mp_siblings p))))"

definition mp_read_from_io :: "(u8 list \<Rightarrow> 'h) \<Rightarrow> (io_error, 'h merkle_proof) reader" where
  "mp_read_from_io from32 bs =
     rbind (read_hash from32 bs) (\<lambda>(root, bs).
     rbind (read_hash from32 bs) (\<lambda>(value, bs).
     rbind (psy_read_u64 bs) (\<lambda>(index, bs).
     rbind (psy_read_vec_length bs) (\<lambda>(sibling_count, bs).
     rbind (read_many sibling_count (read_hash from32) bs) (\<lambda>(sibs, bs).
       Inr (\<lparr>mp_root = root, mp_value = value, mp_index = index, mp_siblings = sibs\<rparr>, bs))))))"

definition dmp_serialized_size :: "'h delta_merkle_proof \<Rightarrow> nat" where
  "dmp_serialized_size p = 32 + 32 + 32 + 32 + 8 + 4 + length (dmp_siblings p) * 32"

definition dmp_write_to_io :: "('h \<Rightarrow> u8 list) \<Rightarrow> 'h delta_merkle_proof \<Rightarrow> io_error + u8 list" where
  "dmp_write_to_io to32 p =
     rbind (psy_write_vec_length (length (dmp_siblings p))) (\<lambda>len_bytes.
       Inr (to32 (dmp_old_root p) @ to32 (dmp_old_value p) @ to32 (dmp_new_root p) @
            to32 (dmp_new_value p) @ psy_write_u64 (dmp_index p) @ len_bytes @
            concat (map to32 (dmp_siblings p))))"

definition dmp_read_from_io :: "(u8 list \<Rightarrow> 'h) \<Rightarrow> (io_error, 'h delta_merkle_proof) reader" where
  "dmp_read_from_io from32 bs =
     rbind (read_hash from32 bs) (\<lambda>(old_root, bs).
     rbind (read_hash from32 bs) (\<lambda>(old_value, bs).
     rbind (read_hash from32 bs) (\<lambda>(new_root, bs).
     rbind (read_hash from32 bs) (\<lambda>(new_value, bs).
     rbind (psy_read_u64 bs) (\<lambda>(index, bs).
     rbind (psy_read_vec_length bs) (\<lambda>(sibling_count, bs).
     rbind (read_many sibling_count (read_hash from32) bs) (\<lambda>(sibs, bs).
       Inr (\<lparr>dmp_old_root = old_root, dmp_old_value = old_value, dmp_new_root = new_root,
              dmp_new_value = new_value, dmp_index = index, dmp_siblings = sibs\<rparr>, bs))))))))"

locale hash32 =
  fixes to32 :: "'h \<Rightarrow> u8 list" and from32 :: "u8 list \<Rightarrow> 'h"
  assumes length_to32: "length (to32 h) = 32"
    and from_to: "from32 (to32 h) = h"
    and to_from: "length bs = 32 \<Longrightarrow> to32 (from32 bs) = bs"
begin

lemma read_hash_rt: "read_hash from32 (to32 h @ rest) = Inr (h, rest)"
  by (simp add: read_hash_def rmap_def wire_simps length_to32 from_to)

lemma read_hash_iff: "read_hash from32 bs = Inr (h, rest) \<longleftrightarrow> bs = to32 h @ rest"
  by (auto simp: read_hash_def rmap_def rbind_Inr read_fixed_iff length_to32 from_to to_from)

end

sublocale hash32 \<subseteq> hash_codec: strict_codec to32 "read_hash from32" "\<lambda>_. True"
  by unfold_locales (auto simp: read_hash_iff)

context hash32
begin

lemma concat_hashes_length: "length (concat (map to32 xs)) = length xs * 32"
  by (induction xs) (auto simp: length_to32)

lemma mp_roundtrip:
  assumes "mp_write_to_io to32 p = Inr bs"
  shows "mp_read_from_io from32 (bs @ rest) = Inr (p, rest)" "length bs = mp_serialized_size p"
proof -
  have len: "length (mp_siblings p) < 2 ^ 32"
    and bs: "bs = to32 (mp_root p) @ to32 (mp_value p) @ psy_write_u64 (mp_index p) @
      len_bytes (length (mp_siblings p)) @ concat (map to32 (mp_siblings p))"
    using assms
    by (auto simp: mp_write_to_io_def psy_write_vec_length_def psy_write_u32_def len_bytes_def split: if_splits)
  show "mp_read_from_io from32 (bs @ rest) = Inr (p, rest)"
    unfolding mp_read_from_io_def bs psy_write_u64_def
    by (simp add: read_hash_rt read_u64_rt vec_len.dec_enc[OF len] hash_codec.many_roundtrip list_all_iff)
  show "length bs = mp_serialized_size p"
    by (simp add: bs mp_serialized_size_def length_to32 psy_write_u64_def len_bytes_def
        concat_hashes_length)
qed

lemma dmp_roundtrip:
  assumes "dmp_write_to_io to32 p = Inr bs"
  shows "dmp_read_from_io from32 (bs @ rest) = Inr (p, rest)" "length bs = dmp_serialized_size p"
proof -
  have len: "length (dmp_siblings p) < 2 ^ 32"
    and bs: "bs = to32 (dmp_old_root p) @ to32 (dmp_old_value p) @ to32 (dmp_new_root p) @
      to32 (dmp_new_value p) @ psy_write_u64 (dmp_index p) @
      len_bytes (length (dmp_siblings p)) @ concat (map to32 (dmp_siblings p))"
    using assms
    by (auto simp: dmp_write_to_io_def psy_write_vec_length_def psy_write_u32_def len_bytes_def split: if_splits)
  show "dmp_read_from_io from32 (bs @ rest) = Inr (p, rest)"
    unfolding dmp_read_from_io_def bs psy_write_u64_def
    by (simp add: read_hash_rt read_u64_rt vec_len.dec_enc[OF len] hash_codec.many_roundtrip list_all_iff)
  show "length bs = dmp_serialized_size p"
    by (simp add: bs dmp_serialized_size_def length_to32 psy_write_u64_def len_bytes_def
        concat_hashes_length)
qed

lemma mp_canonical:
  assumes "mp_read_from_io from32 bs = Inr (p, rest)"
  shows "\<exists>out. mp_write_to_io to32 p = Inr out \<and> bs = out @ rest"
proof -
  obtain root v index n sibs where *:
    "bs = to32 root @ to32 v @ le_bytes 8 index @ len_bytes n @ concat (map to32 sibs) @ rest"
    "n < 2 ^ 32" "length sibs = n"
    "p = \<lparr>mp_root = root, mp_value = v, mp_index = index, mp_siblings = sibs\<rparr>"
    using assms unfolding mp_read_from_io_def
    by (auto simp: rbind_Inr read_hash_iff read_u64_iff vec_len.dec_iff dest!: hash_codec.many_strict)
  thus ?thesis by (simp add: mp_write_to_io_def psy_write_vec_length_len psy_write_u64_def)
qed

end

interpretation qhash: hash32 into_owned_32bytes from_owned_32bytes
proof
  fix h
  show "length (into_owned_32bytes h) = 32" by (cases h) simp
  show "from_owned_32bytes (into_owned_32bytes h) = h" by (cases h) (simp add: from_owned_32bytes_def)
next
  fix bs :: "u8 list" assume l: "length bs = 32"
  have "bs = take 8 bs @ take 8 (drop 8 bs) @ take 8 (drop 16 bs) @ take 8 (drop 24 bs)"
  proof -
    have "drop 24 bs = take 8 (drop 24 bs)" using l by simp
    moreover have "drop 16 bs = take 8 (drop 16 bs) @ drop 24 bs"
      using append_take_drop_id[of 8 "drop 16 bs"] by simp
    moreover have "drop 8 bs = take 8 (drop 8 bs) @ drop 16 bs"
      using append_take_drop_id[of 8 "drop 8 bs"] by simp
    ultimately show ?thesis using append_take_drop_id[of 8 bs] by metis
  qed
  thus "into_owned_32bytes (from_owned_32bytes bs) = bs"
    using l by (simp add: from_owned_32bytes_def)
qed

section \<open>Shortened delta proofs\<close>

lemma mask_low_index: "d < 64 \<Longrightarrow> shl64 1 d - 1 = (mask d :: u64)"
  by (simp add: mask_eq_exp_minus_1 push_bit_of_1)

lemma root_loop_split:
  assumes "length ss \<le> 64" "d < 64" "d \<le> length ss"
  shows "root_loop t index 0 v ss =
    root_loop t (shr64 index d) 0 (root_loop t (index AND (shl64 1 d - 1)) 0 v (take d ss)) (drop d ss)"
proof -
  have "root_loop t index 0 v ss = root_loop t index 0 v (take d ss @ drop d ss)" by simp
  also have "\<dots> = root_loop t index (0 + d) (root_loop t index 0 v (take d ss)) (drop d ss)"
    unfolding root_loop_append using assms(3) by simp
  also have "\<dots> = root_loop t (drop_bit d index) 0 (root_loop t index 0 v (take d ss)) (drop d ss)"
    by (rule root_loop_shift) (use assms in simp)
  also have "root_loop t index 0 v (take d ss) = root_loop t (index AND (shl64 1 d - 1)) 0 v (take d ss)"
    unfolding mask_low_index[OF assms(2)]
    by (rule root_loop_low) (use assms in \<open>auto simp: bit_and_iff bit_mask_iff\<close>)
  finally show ?thesis using assms(2) by simp
qed

lemma shortened_verifies:
  assumes "dmp_verify t p" "n \<le> length (dmp_siblings p)" "length (dmp_siblings p) - n < 64"
  shows "\<exists>q. with_shortened_height_from_bottom t p n = Some q \<and> dmp_verify t q \<and>
    dmp_old_root q = dmp_old_root p \<and> dmp_new_root q = dmp_new_root p \<and> length (dmp_siblings q) = n"
proof (cases "n = length (dmp_siblings p)")
  case True
  thus ?thesis using assms by (simp add: with_shortened_height_from_bottom_def)
next
  case False
  define d where "d = length (dmp_siblings p) - n"
  have l: "length (dmp_siblings p) \<le> 64" "d < 64" "d \<le> length (dmp_siblings p)"
    using assms by (auto simp: dmp_verify_def d_def)
  note sp = root_loop_split[OF l, of t "dmp_index p"]
  have v: "root_loop t (dmp_index p) 0 (dmp_old_value p) (dmp_siblings p) = dmp_old_root p"
    "root_loop t (dmp_index p) 0 (dmp_new_value p) (dmp_siblings p) = dmp_new_root p"
    using assms(1) by (auto simp: dmp_verify_def verify_delta_merkle_proof_core_def)
  have "length (drop d (dmp_siblings p)) = n" using assms(2) by (simp add: d_def)
  thus ?thesis using v[symmetric] assms(2) False l
    unfolding with_shortened_height_from_bottom_def d_def[symmetric] Let_def dmp_from_params_def
      compute_root_merkle_proof_generic_def sp
    by (simp add: dmp_verify_def verify_delta_merkle_proof_core_def del: shl64_small shr64_small)
qed

section \<open>Properties\<close>

text \<open>
  Completeness: in the reference tree over any leaf function, the value of a leaf with its
  siblings and the tree's root is a proof that verifies, for every height up to 64.
\<close>

lemma reference_proof_verifies:
  assumes "h \<le> 64" "unat index < 2 ^ h"
  shows "mp_verify t \<lparr>mp_root = mnode t f h 0, mp_value = f (unat index), mp_index = index,
    mp_siblings = ref_siblings t f (unat index) 0 h\<rparr>"
  using root_loop_ref[of 0 h t index f] assms
  by (simp add: mp_verify_def verify_merkle_proof_core_def) (simp add: ref_siblings_def)

lemma reference_proof_verifies_witness:
  "mp_verify (\<lambda>l r. 2 * l + 3 * r) \<lparr>mp_root = mnode (\<lambda>l r. 2 * l + 3 * r) (\<lambda>i. i + 1) 2 0,
    mp_value = 3, mp_index = 2, mp_siblings = ref_siblings (\<lambda>l r. 2 * l + 3 * r) (\<lambda>i. i + 1) 2 0 2\<rparr>"
  using reference_proof_verifies[of 2 2 "\<lambda>l r. 2 * l + 3 * r" "\<lambda>i. i + 1"] by simp

text \<open>
  C2. Binding: two verifying proofs of the same root, index and height with different values
  give a collision of the compression function, which \<open>extract_collision\<close> computes.
\<close>

theorem merkle_proof_binding:
  assumes "mp_verify t p" "mp_verify t q" "mp_root p = mp_root q" "mp_index p = mp_index q"
    "length (mp_siblings p) = length (mp_siblings q)" "mp_value p \<noteq> mp_value q"
  shows "\<exists>a b c d. extract_collision t (mp_index p) 0 (mp_value p) (mp_siblings p)
      (mp_value q) (mp_siblings q) = Some ((a, b), (c, d)) \<and> (a, b) \<noteq> (c, d) \<and> t a b = t c d"
  using extract_collision_correct[of t "mp_index p" 0 "mp_value p" "mp_siblings p" "mp_value q" "mp_siblings q"]
    assms by (auto simp: mp_verify_def verify_merkle_proof_core_def)

theorem merkle_proof_binding_witness:
  "\<exists>a b c d. extract_collision (+) 1 0 2 [3] 1 [4 :: nat] = Some ((a, b), (c, d)) \<and>
    (a, b) \<noteq> (c, d) \<and> a + b = c + d"
  using merkle_proof_binding[of "(+)"
      "\<lparr>mp_root = 5, mp_value = 2, mp_index = 1, mp_siblings = [3 :: nat]\<rparr>"
      "\<lparr>mp_root = 5, mp_value = 1, mp_index = 1, mp_siblings = [4]\<rparr>"]
  by (simp add: mp_verify_def verify_merkle_proof_core_def)

text \<open>
  \<open>compute_root_from_leaves\<close> returns the root of the reference tree when the number of
  leaves is a power of two, and is an error exactly otherwise.
\<close>

lemma compute_root_from_leaves_correct:
  "case compute_root_from_leaves t leaves of
     Inr root \<Rightarrow> (\<exists>k. length leaves = 2 ^ k \<and> root = mnode t ((!) leaves) k 0 \<and>
        compute_partial_merkle_root_from_leaves t leaves = Some root)
   | Inl Empty_Leaves \<Rightarrow> leaves = []
   | Inl Not_Power_Of_Two \<Rightarrow> leaves \<noteq> [] \<and> (\<nexists>k. length leaves = 2 ^ k)"
proof (cases "\<exists>k. length leaves = 2 ^ k")
  case True
  then obtain k where k: "length leaves = 2 ^ k" by blast
  hence "leaves \<noteq> []" by auto
  thus ?thesis unfolding compute_root_pow[OF k] sum.case
    using k partial_loop_root[OF k] by (auto simp: compute_partial_merkle_root_from_leaves_def)
next
  case False
  show ?thesis
    using compute_root_error[of t leaves Empty_Leaves] compute_root_error[of t leaves Not_Power_Of_Two] False
    by (cases "leaves = []") simp_all
qed

text \<open>
  Cutting the lower levels off a verifying delta proof leaves a verifying delta proof of the
  same root transition, for any new height, as long as fewer than 64 levels are cut.
\<close>

lemma shortened_delta_proof_verifies:
  assumes "dmp_verify t p" "n \<le> length (dmp_siblings p)" "length (dmp_siblings p) - n < 64"
  shows "\<exists>q. with_shortened_height_from_bottom t p n = Some q \<and> dmp_verify t q \<and>
    dmp_old_root q = dmp_old_root p \<and> dmp_new_root q = dmp_new_root p \<and> length (dmp_siblings q) = n"
  by (rule shortened_verifies[OF assms])

lemma shortened_delta_proof_verifies_witness:
  "\<exists>q. with_shortened_height_from_bottom (\<lambda>l r. 2 * l + 3 * r)
      (dmp_from_params (\<lambda>l r. 2 * l + 3 * r) 5 10 20 [1, 2, 3 :: nat]) 1 = Some q \<and>
    dmp_verify (\<lambda>l r. 2 * l + 3 * r) q \<and> dmp_old_root q = 216 \<and> length (dmp_siblings q) = 1"
  using shortened_delta_proof_verifies[of "\<lambda>l r. 2 * l + 3 * r"
      "dmp_from_params (\<lambda>l r. 2 * l + 3 * r) 5 10 20 [1, 2, 3 :: nat]" 1]
  by (simp add: dmp_from_params_def dmp_verify_def verify_delta_merkle_proof_core_def
      compute_root_merkle_proof_generic_def) auto

text \<open>
  Append proofs: replacing every right-hand sibling by the zero hash of its level gives a
  verifying proof whose root is \<open>get_append_root\<close>, and the one-pass computation of the
  historical and the current root returns the append root of the empty leaf and the root of
  the proof.
\<close>

lemma append_proof_verifies:
  assumes "length (mp_siblings p) \<le> 64"
  shows "mp_verify (two_to_one H) (to_append_proof H p) \<and>
    mp_root (to_append_proof H p) = mp_get_append_root H p \<and>
    compute_historical_and_current_merkle_roots_core H p =
      (compute_historical_append_root H (get_zero_hash H 0) (mp_index p) (mp_siblings p),
       compute_root_with_value (two_to_one H) p (mp_value p))"
  using assms append_loop_root[of H "mp_index p" 0 "mp_value p" "mp_siblings p", unfolded add_0]
  by (simp add: to_append_proof_def Let_def mp_verify_def verify_merkle_proof_core_def
      compute_root_merkle_proof_generic_def mp_get_append_root_def
      compute_historical_append_root_core_def compute_historical_and_current_merkle_roots_core_def
      historical_loop_eq compute_historical_append_root_def compute_root_with_value_def
      del: shl64_small)

lemma append_proof_verifies_witness:
  "mp_verify (+) (to_append_proof (mk_hasher (+) 0)
     \<lparr>mp_root = 6, mp_value = 1, mp_index = 1, mp_siblings = [2, 3 :: nat]\<rparr>)"
  using append_proof_verifies[of "\<lparr>mp_root = 6, mp_value = 1, mp_index = 1, mp_siblings = [2, 3 :: nat]\<rparr>"
      "mk_hasher (+) 0"]
  by (simp add: mk_hasher_def)

text \<open>
  \<open>get_all_merkle_nodes_and_verify\<close> succeeds exactly on the proofs that \<open>verify\<close> accepts,
  for every proof of at most 64 siblings.
\<close>

lemma all_nodes_iff_verify:
  assumes "length (mp_siblings p) \<le> 64"
  shows "(\<exists>nodes. get_all_merkle_nodes_and_verify H p = Inr nodes) \<longleftrightarrow> mp_verify (two_to_one H) p"
  using assms all_nodes_last[of 0 "mp_siblings p" H _ "mp_index p" "mp_value p"]
  by (auto simp: get_all_merkle_nodes_and_verify_def Let_def mp_verify_def verify_merkle_proof_core_def)

lemma all_nodes_iff_verify_witness:
  "\<not> (\<exists>nodes. get_all_merkle_nodes_and_verify (mk_hasher (+) 0)
      \<lparr>mp_root = 7, mp_value = 1, mp_index = 1, mp_siblings = [2, 3 :: nat]\<rparr> = Inr nodes)"
  using all_nodes_iff_verify[of "\<lparr>mp_root = 7, mp_value = 1, mp_index = 1, mp_siblings = [2, 3 :: nat]\<rparr>"
      "mk_hasher (+) 0"]
  by (simp add: mk_hasher_def mp_verify_def verify_merkle_proof_core_def)

text \<open>
  Canonical serialization of Merkle proofs over the node's hash type: what is written is
  read back with the announced size, and the reader accepts nothing but written proofs.
\<close>

lemma merkle_proof_serialization:
  "(\<forall>out rest. mp_write_to_io into_owned_32bytes p = Inr out \<longrightarrow>
      mp_read_from_io from_owned_32bytes (out @ rest) = Inr (p, rest) \<and>
      length out = mp_serialized_size p) \<and>
   (\<forall>bs rest. mp_read_from_io from_owned_32bytes bs = Inr (p, rest) \<longrightarrow>
      (\<exists>out. mp_write_to_io into_owned_32bytes p = Inr out \<and> bs = out @ rest))"
  using qhash.mp_roundtrip qhash.mp_canonical by blast

lemma merkle_proof_serialization_witness:
  "\<exists>out. mp_write_to_io into_owned_32bytes
      \<lparr>mp_root = QHashOut 1 2 3 4, mp_value = QHashOut 5 6 7 8, mp_index = 9, mp_siblings = []\<rparr> = Inr out \<and>
    mp_read_from_io from_owned_32bytes (out @ [1, 2]) =
      Inr (\<lparr>mp_root = QHashOut 1 2 3 4, mp_value = QHashOut 5 6 7 8, mp_index = 9, mp_siblings = []\<rparr>, [1, 2])"
  using merkle_proof_serialization[of
      "\<lparr>mp_root = QHashOut 1 2 3 4, mp_value = QHashOut 5 6 7 8, mp_index = 9, mp_siblings = []\<rparr>"]
  by (simp add: mp_write_to_io_def psy_write_vec_length_def)

text \<open>
  Canonical serialization of delta Merkle proofs: what is written is read back exactly, the
  bytes after it untouched, and its length is the announced size.
\<close>

lemma delta_proof_serialization:
  assumes "dmp_write_to_io into_owned_32bytes p = Inr out"
  shows "dmp_read_from_io from_owned_32bytes (out @ rest) = Inr (p, rest) \<and>
    length out = dmp_serialized_size p"
  using qhash.dmp_roundtrip[OF assms] by blast

lemma delta_proof_serialization_witness:
  "\<exists>out. dmp_write_to_io into_owned_32bytes (single_value 3 (QHashOut 0 0 0 0) (QHashOut 1 0 0 0)) = Inr out \<and>
    dmp_read_from_io from_owned_32bytes (out @ [7]) =
      Inr (single_value 3 (QHashOut 0 0 0 0) (QHashOut 1 0 0 0), [7])"
  using delta_proof_serialization[of "single_value 3 (QHashOut 0 0 0 0) (QHashOut 1 0 0 0)" _ "[7]"]
  by (simp add: dmp_write_to_io_def psy_write_vec_length_def single_value_def)

end
