(* ===== verification/Spiderman.thy ===== *)
theory Spiderman
  imports Merkle_Proof
begin

unbundle bit_operations_syntax

text \<open>
  Spiderman update proofs (\<open>src/parth_core/src/crypto/hash/spiderman.rs\<close>): a batch update of a
  whole subtree (the web) whose root moves along one delta Merkle proof (the top line). The
  main result is that a verifying Spiderman proof stands for an ordinary Merkle proof of every
  leaf of the web, before and after the update.
\<close>

section \<open>Partial leaf hashing\<close>

text \<open>
  The first level reads the leaves, the later ones overwrite \<open>current_level\<close> in place in
  ascending order; index \<open>i\<close> reads \<open>2i\<close> and \<open>2i + 1\<close>, which are not overwritten yet.
\<close>

definition partial_first_level :: "'h hasher \<Rightarrow> 'h list \<Rightarrow> 'h list" where
  "partial_first_level H leaves =
     map (\<lambda>i. two_to_one H (leaves ! (2 * i)) (leaves ! (2 * i + 1))) [0..<length leaves div 2] @
     (if length leaves mod 2 = 1
      then [two_to_one H (leaves ! (length leaves - 1)) (get_zero_hash H 0)] else [])"

definition partial_level :: "'h hasher \<Rightarrow> nat \<Rightarrow> 'h list \<Rightarrow> 'h list" where
  "partial_level H level_from_bottom cur =
     (let pairs = length cur div 2;
          cur1 = fold (\<lambda>i c. c[i := two_to_one H (c ! (2 * i)) (c ! (2 * i + 1))]) [0..<pairs] cur;
          odd_nodes = length cur1 mod 2;
          cur2 = (if odd_nodes = 1
                  then cur1[pairs := two_to_one H (cur1 ! (length cur1 - 1))
                                       (get_zero_hash H level_from_bottom)]
                  else cur1)
      in take (pairs + odd_nodes) cur2)"

lemma length_partial_fold [simp]:
  "length (fold (\<lambda>i c. c[i := f c i]) is c) = length c"
  by (induction "is" arbitrary: c) auto

lemma length_partial_level: "length (partial_level H n cur) = (length cur + 1) div 2"
proof -
  have "min (length cur) (length cur div 2 + length cur mod 2) = (length cur + 1) div 2" by presburger
  thus ?thesis by (simp add: partial_level_def Let_def)
qed

function partial_levels :: "'h hasher \<Rightarrow> nat \<Rightarrow> 'h list \<Rightarrow> 'h list" where
  "partial_levels H level_from_bottom cur =
     (if length cur > 1
      then partial_levels H (Suc level_from_bottom) (partial_level H level_from_bottom cur)
      else cur)"
  by auto
termination by (relation "measure (\<lambda>(H, n, cur). length cur)") (auto simp: length_partial_level)

declare partial_levels.simps [simp del]

definition hash_merkle_leaves_partial :: "'h hasher \<Rightarrow> 'h list \<Rightarrow> leaves_error + 'h" where
  "hash_merkle_leaves_partial H leaves =
     (if length leaves = 0 then Inl Empty_Leaves
      else if length leaves = 1 then Inr (leaves ! 0)
      else if length leaves = 2 then Inr (two_to_one H (leaves ! 0) (leaves ! 1))
      else Inr (partial_levels H 1 (partial_first_level H leaves) ! 0))"

section \<open>Spiderman proofs\<close>

record 'h spiderman_update_proof =
  top_line_proof :: "'h delta_merkle_proof"
  web_proof_old_leaves :: "'h list"
  web_proof_new_leaves :: "'h list"

definition get_non_zero_leaves_count :: "'h \<Rightarrow> 'h spiderman_update_proof \<Rightarrow> nat" where
  "get_non_zero_leaves_count zero_value sp =
     length (takeWhile (\<lambda>leaf. leaf \<noteq> zero_value) (web_proof_new_leaves sp))"

definition get_modified_leaves_count :: "'h spiderman_update_proof \<Rightarrow> nat" where
  "get_modified_leaves_count sp =
     length (filter (\<lambda>(a, b). a \<noteq> b) (zip (web_proof_old_leaves sp) (web_proof_new_leaves sp)))"

definition get_existing_prepended_leaves_count :: "'h \<Rightarrow> 'h spiderman_update_proof \<Rightarrow> nat" where
  "get_existing_prepended_leaves_count zero_value sp =
     length (takeWhile (\<lambda>(a, b). a = b \<and> a \<noteq> zero_value)
       (zip (web_proof_old_leaves sp) (web_proof_new_leaves sp)))"

definition get_existing_prepended_leaves_count_including_non_zero ::
  "'h spiderman_update_proof \<Rightarrow> nat" where
  "get_existing_prepended_leaves_count_including_non_zero sp =
     length (takeWhile (\<lambda>(a, b). a = b) (zip (web_proof_old_leaves sp) (web_proof_new_leaves sp)))"

definition unwrap :: "'e + 'a \<Rightarrow> 'a option" where
  "unwrap r = (case r of Inl _ \<Rightarrow> None | Inr a \<Rightarrow> Some a)"

text \<open>
  \<open>leaves_len - (existing + new)\<close> wraps when the web cannot hold the leaves, and the padding
  loop then never ends in practice: \<open>None\<close>. The other panics are the two \<open>unwrap\<close>s and the
  slice \<open>siblings[web_tree_height..]\<close>.
\<close>

definition append_from_from_old_new_values ::
  "('h \<Rightarrow> 'h \<Rightarrow> 'h) \<Rightarrow> 'h \<Rightarrow> 'h merkle_proof \<Rightarrow> 'h list \<Rightarrow> 'h list \<Rightarrow> nat \<Rightarrow>
   'h spiderman_update_proof option" where
  "append_from_from_old_new_values t zero_value old_proof_to_inside existing_leaves new_leaves
     web_tree_height =
     (let leaves_len = 2 ^ (web_tree_height mod 64) in
      if length existing_leaves + length new_leaves > leaves_len then None
      else let old_leaves = existing_leaves @
                 replicate (leaves_len - length existing_leaves) zero_value;
               new_leaves = existing_leaves @ new_leaves @
                 replicate (leaves_len - (length existing_leaves + length new_leaves)) zero_value
           in do {
             old_root \<leftarrow> unwrap (compute_root_from_leaves t old_leaves);
             new_root \<leftarrow> unwrap (compute_root_from_leaves t new_leaves);
             (if web_tree_height > length (mp_siblings old_proof_to_inside) then None
              else Some \<lparr>top_line_proof =
                           dmp_from_params t (shr64 (mp_index old_proof_to_inside) web_tree_height)
                             old_root new_root (drop web_tree_height (mp_siblings old_proof_to_inside)),
                         web_proof_old_leaves = old_leaves, web_proof_new_leaves = new_leaves\<rparr>) })"

definition from_delta_merkle_proofs ::
  "('h \<Rightarrow> 'h \<Rightarrow> 'h) \<Rightarrow> 'h delta_merkle_proof list \<Rightarrow> 'h spiderman_update_proof option" where
  "from_delta_merkle_proofs t proofs =
     do { web_tree_height \<leftarrow> log2_strict (length proofs);
          let old_leaves = map dmp_old_value proofs;
              new_leaves = map dmp_new_value proofs in
          do { old_root \<leftarrow> unwrap (compute_root_from_leaves t old_leaves);
               new_root \<leftarrow> unwrap (compute_root_from_leaves t new_leaves);
               (if web_tree_height > length (dmp_siblings (proofs ! 0)) then None
                else Some \<lparr>top_line_proof =
                       \<lparr>dmp_old_root = dmp_old_root (proofs ! 0), dmp_old_value = old_root,
                        dmp_new_root = dmp_new_root (last proofs), dmp_new_value = new_root,
                        dmp_index = shr64 (dmp_index (proofs ! 0)) web_tree_height,
                        dmp_siblings = drop web_tree_height (dmp_siblings (proofs ! 0))\<rparr>,
                      web_proof_old_leaves = old_leaves, web_proof_new_leaves = new_leaves\<rparr>) } }"

definition get_web_sub_tree_height :: "'h spiderman_update_proof \<Rightarrow> nat option" where
  "get_web_sub_tree_height sp = log2_strict (length (web_proof_new_leaves sp))"

definition is_power_of_two :: "nat \<Rightarrow> bool" where
  "is_power_of_two n \<longleftrightarrow> n \<noteq> 0 \<and> n = 2 ^ log2_ceil n"

text \<open>The \<open>unwrap\<close>s of \<open>verify\<close> see powers of two only.\<close>

definition spiderman_verify :: "('h \<Rightarrow> 'h \<Rightarrow> 'h) \<Rightarrow> 'h spiderman_update_proof \<Rightarrow> bool option" where
  "spiderman_verify t sp =
     (let leaves_len = length (web_proof_new_leaves sp) in
      if length (web_proof_old_leaves sp) \<noteq> leaves_len \<or> \<not> is_power_of_two leaves_len
      then Some False
      else if \<not> dmp_verify t (top_line_proof sp) then Some False
      else do {
        old_root \<leftarrow> unwrap (compute_root_from_leaves t (web_proof_old_leaves sp));
        (if old_root \<noteq> dmp_old_value (top_line_proof sp) then Some False
         else do {
           new_root \<leftarrow> unwrap (compute_root_from_leaves t (web_proof_new_leaves sp));
           Some (new_root = dmp_new_value (top_line_proof sp)) }) })"

section \<open>Serialization\<close>

definition sp_write_to_io :: "('h \<Rightarrow> u8 list) \<Rightarrow> 'h spiderman_update_proof \<Rightarrow> io_error + u8 list" where
  "sp_write_to_io to32 sp =
     rbind (dmp_write_to_io to32 (top_line_proof sp)) (\<lambda>top.
     rbind (psy_write_vec_length (length (web_proof_old_leaves sp))) (\<lambda>old_len.
     rbind (psy_write_vec_length (length (web_proof_new_leaves sp))) (\<lambda>new_len.
       Inr (top @ old_len @ concat (map to32 (web_proof_old_leaves sp)) @
            new_len @ concat (map to32 (web_proof_new_leaves sp))))))"

definition sp_read_from_io :: "(u8 list \<Rightarrow> 'h) \<Rightarrow> (io_error, 'h spiderman_update_proof) reader" where
  "sp_read_from_io from32 bs =
     rbind (dmp_read_from_io from32 bs) (\<lambda>(top, bs).
     rbind (psy_read_vec_length bs) (\<lambda>(old_len, bs).
     rbind (read_many old_len (read_hash from32) bs) (\<lambda>(old_leaves, bs).
     rbind (psy_read_vec_length bs) (\<lambda>(new_len, bs).
     rbind (read_many new_len (read_hash from32) bs) (\<lambda>(new_leaves, bs).
       Inr (\<lparr>top_line_proof = top, web_proof_old_leaves = old_leaves,
              web_proof_new_leaves = new_leaves\<rparr>, bs))))))"

definition sp_serialized_size :: "'h spiderman_update_proof \<Rightarrow> nat" where
  "sp_serialized_size sp = dmp_serialized_size (top_line_proof sp) +
     4 + length (web_proof_old_leaves sp) * 32 + 4 + length (web_proof_new_leaves sp) * 32"

section \<open>Partial hashing equals hashing the padded tree\<close>

definition pad :: "'h hasher \<Rightarrow> nat \<Rightarrow> 'h list \<Rightarrow> nat \<Rightarrow> 'h" where
  "pad H n cur j = (if j < length cur then cur ! j else get_zero_hash H n)"

lemma in_place_pairs:
  "m \<le> length cur div 2 \<Longrightarrow> i < length cur \<Longrightarrow>
   fold (\<lambda>i c. c[i := two_to_one H (c ! (2 * i)) (c ! (2 * i + 1))]) [0..<m] cur ! i =
   (if i < m then two_to_one H (cur ! (2 * i)) (cur ! (2 * i + 1)) else cur ! i)"
proof (induction m arbitrary: i)
  case (Suc m)
  let ?c = "fold (\<lambda>i c. c[i := two_to_one H (c ! (2 * i)) (c ! (2 * i + 1))]) [0..<m] cur"
  have lt: "2 * m < length cur" "2 * m + 1 < length cur" "m \<le> length cur div 2" using Suc.prems by auto
  have "?c ! (2 * m) = cur ! (2 * m)" "?c ! (2 * m + 1) = cur ! (2 * m + 1)"
    using Suc.IH[of "2 * m"] Suc.IH[of "2 * m + 1"] lt by (cases m, auto)+
  thus ?case using Suc.IH[of i] Suc.prems lt by (auto simp: nth_list_update)
qed simp

lemma partial_level_nth:
  assumes "i < (length cur + 1) div 2"
  shows "partial_level H n cur ! i = two_to_one H (pad H n cur (2 * i)) (pad H n cur (2 * i + 1))"
proof -
  let ?p = "length cur div 2"
  let ?c = "fold (\<lambda>i c. c[i := two_to_one H (c ! (2 * i)) (c ! (2 * i + 1))]) [0..<?p] cur"
  note ip = in_place_pairs[OF order_refl, of _ cur H]
  have il: "i < length cur" using assms by linarith
  have tk: "i < ?p + length cur mod 2" using assms by presburger
  have "i < ?p \<or> i = ?p \<and> length cur mod 2 = 1" using tk by presburger
  then consider "i < ?p" | "i = ?p" "length cur mod 2 = 1" by blast
  thus ?thesis
  proof cases
    case 1
    hence "2 * i + 1 < length cur" by linarith
    thus ?thesis using 1 tk ip[OF il] by (simp add: partial_level_def Let_def pad_def)
  next
    case 2
    hence l: "length cur - 1 = 2 * i" "length cur - 1 < length cur" "\<not> 2 * i + 1 < length cur" by presburger+
    have "?c ! (length cur - 1) = cur ! (2 * i)" using ip[OF l(2)] 2(1) l(1) by (cases i) auto
    thus ?thesis using 2 tk l il by (auto simp: partial_level_def Let_def pad_def)
  qed
qed

lemma first_level_eq: "partial_first_level H leaves = partial_level H 0 leaves"
proof (rule nth_equalityI)
  have len: "length (partial_first_level H leaves) = (length leaves + 1) div 2"
    by (auto simp: partial_first_level_def) presburger+
  thus "length (partial_first_level H leaves) = length (partial_level H 0 leaves)"
    by (simp add: length_partial_level)
  fix i assume "i < length (partial_first_level H leaves)"
  hence i: "i < (length leaves + 1) div 2" using len by simp
  show "partial_first_level H leaves ! i = partial_level H 0 leaves ! i"
  proof (cases "i < length leaves div 2")
    case True
    hence "2 * i + 1 < length leaves" by linarith
    thus ?thesis using True by (simp add: partial_level_nth[OF i] partial_first_level_def nth_append pad_def)
  next
    case False
    hence "length leaves mod 2 = 1" "i = length leaves div 2" "length leaves - 1 = 2 * i" "2 * i < length leaves"
      "\<not> 2 * i + 1 < length leaves" using i by presburger+
    thus ?thesis unfolding partial_level_nth[OF i] by (simp add: partial_first_level_def nth_append pad_def)
  qed
qed

lemma log2_ceil_half: "1 < n \<Longrightarrow> log2_ceil n = Suc (log2_ceil ((n + 1) div 2))"
proof -
  assume n: "1 < n"
  hence "(n - 1) div 2 = (n + 1) div 2 - 1" by presburger
  moreover have "bit_length (n - 1) = Suc (bit_length ((n - 1) div 2))"
    using n by (subst bit_length.simps) simp
  ultimately show ?thesis by (simp only: log2_ceil_def)
qed

context zero_hasher
begin

lemma pad_level:
  "pad H (Suc n) (partial_level H n cur) i = two_to_one H (pad H n cur (2 * i)) (pad H n cur (2 * i + 1))"
proof (cases "i < (length cur + 1) div 2")
  case True
  thus ?thesis using partial_level_nth[OF True] by (simp add: pad_def length_partial_level)
next
  case False
  hence "\<not> 2 * i < length cur" "\<not> 2 * i + 1 < length cur" by presburger+
  thus ?thesis using False by (simp add: pad_def length_partial_level get_zero_Suc)
qed

lemma mnode_pad_level:
  "mnode (two_to_one H) (pad H (Suc n) (partial_level H n cur)) k j =
   mnode (two_to_one H) (pad H n cur) (Suc k) j"
proof -
  have "pad H (Suc n) (partial_level H n cur) = mnode (two_to_one H) (pad H n cur) 1"
    by (rule ext) (simp add: pad_level)
  thus ?thesis using mnode_compose[of "two_to_one H" "pad H n cur" 1 k j] by simp
qed

lemma partial_levels_root:
  "cur \<noteq> [] \<Longrightarrow>
   partial_levels H n cur ! 0 = mnode (two_to_one H) (pad H n cur) (log2_ceil (length cur)) 0"
proof (induction "length cur" arbitrary: n cur rule: less_induct)
  case less
  show ?case
  proof (cases "length cur > 1")
    case False
    hence "length cur = 1" using less.prems by (cases cur) auto
    thus ?thesis by (simp add: partial_levels.simps pad_def log2_ceil_def bit_length.simps)
  next
    case True
    let ?next = "partial_level H n cur"
    have "length ?next < length cur" "?next \<noteq> []"
      using True length_partial_level[of H n cur] by (linarith, fastforce)
    hence "partial_levels H (Suc n) ?next ! 0 =
        mnode (two_to_one H) (pad H (Suc n) ?next) (log2_ceil (length ?next)) 0"
      by (rule less.hyps)
    thus ?thesis using True
      by (subst partial_levels.simps) (simp add: mnode_pad_level log2_ceil_half length_partial_level)
  qed
qed

lemma hash_partial_root:
  assumes "leaves \<noteq> []"
  shows "hash_merkle_leaves_partial H leaves =
    Inr (mnode (two_to_one H) (pad H 0 leaves) (log2_ceil (length leaves)) 0)"
proof -
  consider "length leaves = 1" | "length leaves = 2" | "length leaves > 2"
    using assms by (cases leaves; cases "tl leaves") auto
  thus ?thesis
  proof cases
    case 3
    let ?next = "partial_level H 0 leaves"
    have ne: "?next \<noteq> []" using 3 length_partial_level[of H 0 leaves] by fastforce
    have "partial_levels H 1 ?next ! 0 = mnode (two_to_one H) (pad H 0 leaves) (log2_ceil (length leaves)) 0"
      using partial_levels_root[OF ne, of 1] 3
      by (simp add: mnode_pad_level log2_ceil_half[of "length leaves"] length_partial_level)
    thus ?thesis using 3 by (auto simp: hash_merkle_leaves_partial_def first_level_eq)
  qed (simp_all add: hash_merkle_leaves_partial_def pad_def log2_ceil_def bit_length.simps)
qed

end

section \<open>A Spiderman proof stands for a proof of every leaf\<close>

lemma is_power_of_two_iff: "is_power_of_two n \<longleftrightarrow> (\<exists>k. n = 2 ^ k)"
  using log2_ceil_pow by (auto simp: is_power_of_two_def)

lemma unwrap_root: "length leaves = 2 ^ k \<Longrightarrow>
   unwrap (compute_root_from_leaves t leaves) = Some (mnode t ((!) leaves) k 0)"
  by (simp add: unwrap_def compute_root_pow)

lemma spiderman_verify_iff:
  "spiderman_verify t sp = Some True \<longleftrightarrow>
     (\<exists>k. length (web_proof_new_leaves sp) = 2 ^ k \<and> length (web_proof_old_leaves sp) = 2 ^ k \<and>
        dmp_verify t (top_line_proof sp) \<and>
        dmp_old_value (top_line_proof sp) = mnode t ((!) (web_proof_old_leaves sp)) k 0 \<and>
        dmp_new_value (top_line_proof sp) = mnode t ((!) (web_proof_new_leaves sp)) k 0)"
proof (cases "\<exists>k. length (web_proof_new_leaves sp) = 2 ^ k \<and> length (web_proof_old_leaves sp) = 2 ^ k")
  case True
  then obtain k where k: "length (web_proof_new_leaves sp) = 2 ^ k" "length (web_proof_old_leaves sp) = 2 ^ k"
    by blast
  have p: "is_power_of_two (2 ^ k)" using is_power_of_two_iff by blast
  have inj: "(2 ^ k = (2 ^ m :: nat)) = (k = m)" for m by simp
  show ?thesis unfolding spiderman_verify_def Let_def k unwrap_root[OF k(1)] unwrap_root[OF k(2)]
    using p by (auto simp: inj)
next
  case False
  thus ?thesis by (auto simp: spiderman_verify_def Let_def is_power_of_two_iff split: if_splits)
qed





lemma append_verifies:
  assumes "length existing + length new \<le> 2 ^ k" "k < 64" "k \<le> length (mp_siblings p)"
    "length (mp_siblings p) - k \<le> 64"
  shows "\<exists>sp. append_from_from_old_new_values t z p existing new k = Some sp \<and>
    spiderman_verify t sp = Some True"
proof -
  define old where "old = existing @ replicate (2 ^ k - length existing) z"
  define nw where "nw = existing @ new @ replicate (2 ^ k - (length existing + length new)) z"
  have l: "length old = 2 ^ k" "length nw = 2 ^ k" using assms(1) by (auto simp: old_def nw_def)
  let ?sp = "\<lparr>top_line_proof = dmp_from_params t (shr64 (mp_index p) k) (mnode t ((!) old) k 0)
      (mnode t ((!) nw) k 0) (drop k (mp_siblings p)), web_proof_old_leaves = old, web_proof_new_leaves = nw\<rparr>"
  have "append_from_from_old_new_values t z p existing new k = Some ?sp"
    unfolding append_from_from_old_new_values_def Let_def mod_less[OF assms(2)] old_def[symmetric]
      nw_def[symmetric] unwrap_root[OF l(1)] unwrap_root[OF l(2)] using assms by auto
  moreover have "spiderman_verify t ?sp = Some True"
    unfolding spiderman_verify_iff using l assms(4)
    by (auto simp: dmp_verify_def verify_delta_merkle_proof_core_def dmp_from_params_def
        compute_root_merkle_proof_generic_def)
  ultimately show ?thesis by blast
qed

context hash32
begin

lemma sp_roundtrip:
  assumes "sp_write_to_io to32 sp = Inr bs"
  shows "sp_read_from_io from32 (bs @ rest) = Inr (sp, rest)" "length bs = sp_serialized_size sp"
proof -
  obtain dtop where dt: "dmp_write_to_io to32 (top_line_proof sp) = Inr dtop"
    and len: "length (web_proof_old_leaves sp) < 2 ^ 32" "length (web_proof_new_leaves sp) < 2 ^ 32"
    and bs: "bs = dtop @ len_bytes (length (web_proof_old_leaves sp)) @
      concat (map to32 (web_proof_old_leaves sp)) @ len_bytes (length (web_proof_new_leaves sp)) @
      concat (map to32 (web_proof_new_leaves sp))"
    using assms by (auto simp: sp_write_to_io_def rbind_Inr psy_write_vec_length_def psy_write_u32_def
        len_bytes_def split: if_splits)
  show "sp_read_from_io from32 (bs @ rest) = Inr (sp, rest)"
    unfolding sp_read_from_io_def bs
    by (simp add: dmp_roundtrip(1)[OF dt] vec_len.dec_enc[OF len(1)] vec_len.dec_enc[OF len(2)]
        hash_codec.many_roundtrip list_all_iff)
  show "length bs = sp_serialized_size sp"
    using dmp_roundtrip(2)[OF dt]
    by (simp add: bs sp_serialized_size_def len_bytes_def concat_hashes_length)
qed

end

section \<open>Properties\<close>



text \<open>
  A batch append built from an existing proof verifies whenever the web can hold the old
  and the new leaves together and the proof reaches down to the leaves of the web.
\<close>

lemma spiderman_append_verifies:
  assumes "length existing + length new \<le> 2 ^ k" "k < 64" "k \<le> length (mp_siblings p)"
    "length (mp_siblings p) - k \<le> 64"
  shows "\<exists>sp. append_from_from_old_new_values t z p existing new k = Some sp \<and>
    spiderman_verify t sp = Some True"
  by (rule append_verifies[OF assms])

lemma spiderman_append_verifies_witness:
  "\<exists>sp. append_from_from_old_new_values (+) 0
      \<lparr>mp_root = 6, mp_value = 0, mp_index = 1, mp_siblings = [1, 2, 3 :: nat]\<rparr> [1] [5, 6] 2 = Some sp \<and>
    spiderman_verify (+) sp = Some True"
  using spiderman_append_verifies[of "[1]" "[5, 6]" 2
      "\<lparr>mp_root = 6, mp_value = 0, mp_index = 1, mp_siblings = [1, 2, 3 :: nat]\<rparr>" "(+)" 0]
  by simp

text \<open>
  The in-place partial hashing of a leaf list returns the root of the smallest full tree
  over these leaves padded with the empty leaf, for every non-empty list.
\<close>

lemma partial_hash_is_padded_root:
  assumes "leaves \<noteq> []"
  shows "hash_merkle_leaves_partial (mk_hasher t z) leaves =
    Inr (mnode t (\<lambda>i. if i < length leaves then leaves ! i else z) (log2_ceil (length leaves)) 0)"
proof -
  have "pad (mk_hasher t z) 0 leaves = (\<lambda>i. if i < length leaves then leaves ! i else z)"
    by (rule ext) (simp add: pad_def mk.get_zero_0)
  thus ?thesis using mk.hash_partial_root[OF assms, of t z] by (simp add: mk_hasher_def)
qed

lemma partial_hash_is_padded_root_witness:
  "hash_merkle_leaves_partial (mk_hasher (\<lambda>l r. 2 * l + 3 * r) 0) [1, 2, 3 :: nat] = Inr 34"
  using partial_hash_is_padded_root[of "[1, 2, 3 :: nat]" "\<lambda>l r. 2 * l + 3 * r" 0]
  by (simp add: log2_ceil_def bit_length.simps)

text \<open>
  Canonical serialization of Spiderman proofs: what is written is read back exactly and has
  the announced size.
\<close>

lemma spiderman_serialization:
  assumes "sp_write_to_io into_owned_32bytes sp = Inr out"
  shows "sp_read_from_io from_owned_32bytes (out @ rest) = Inr (sp, rest) \<and>
    length out = sp_serialized_size sp"
  using qhash.sp_roundtrip[OF assms] by blast

lemma spiderman_serialization_witness:
  "\<exists>out. sp_write_to_io into_owned_32bytes
      \<lparr>top_line_proof = single_value 3 (QHashOut 0 0 0 0) (QHashOut 1 0 0 0),
        web_proof_old_leaves = [QHashOut 0 0 0 0], web_proof_new_leaves = [QHashOut 1 0 0 0]\<rparr> = Inr out \<and>
    sp_read_from_io from_owned_32bytes (out @ [7]) = Inr
      (\<lparr>top_line_proof = single_value 3 (QHashOut 0 0 0 0) (QHashOut 1 0 0 0),
        web_proof_old_leaves = [QHashOut 0 0 0 0], web_proof_new_leaves = [QHashOut 1 0 0 0]\<rparr>, [7])"
  using spiderman_serialization[of
      "\<lparr>top_line_proof = single_value 3 (QHashOut 0 0 0 0) (QHashOut 1 0 0 0),
        web_proof_old_leaves = [QHashOut 0 0 0 0], web_proof_new_leaves = [QHashOut 1 0 0 0]\<rparr>" _ "[7]"]
  by (simp add: sp_write_to_io_def dmp_write_to_io_def psy_write_vec_length_def single_value_def)

end
