(* ===== verification/Store_Trait.thy ===== *)
theory Store_Trait
  imports Spiderman
begin

unbundle bit_operations_syntax

text \<open>
  The Merkle store trait \<open>PsyMemoryMerkleStoreImm\<close>
  (\<open>src/parth_common/src/memory_stores/traits.rs\<close>). The four required methods are the fields of
  \<open>store_ops\<close>; every provided method is a definition over them. The state of a store is a
  parameter, and an operation that panics returns \<open>None\<close>. The locale \<open>node_store\<close> is the
  contract the provided methods rely on: nodes read back what was written and an unwritten node
  is the zero hash of its level. Inside it the provided methods are shown to implement an array
  of leaves: \<open>rep s f\<close> says that every node of \<open>s\<close> is the node of the reference tree over \<open>f\<close>.
\<close>

section \<open>The trait\<close>

record ('s, 'h) store_ops =
  op_height :: "'s \<Rightarrow> u8"
  op_zero :: "'s \<Rightarrow> u8 \<Rightarrow> 'h option"
  op_set :: "'s \<Rightarrow> node_key \<Rightarrow> 'h \<Rightarrow> 's option"
  op_get :: "'s \<Rightarrow> node_key \<Rightarrow> 'h option"

definition tr_get_max_leaf_index :: "('s, 'h) store_ops \<Rightarrow> 's \<Rightarrow> u64" where
  "tr_get_max_leaf_index ops s = shl64 1 (unat (op_height ops s)) - 1"

definition tr_get_root :: "('s, 'h) store_ops \<Rightarrow> 's \<Rightarrow> 'h option" where
  "tr_get_root ops s = op_get ops s new_root"

definition tr_get_leaf_value :: "('s, 'h) store_ops \<Rightarrow> 's \<Rightarrow> u64 \<Rightarrow> 'h option" where
  "tr_get_leaf_value ops s index = op_get ops s (Node_Key (op_height ops s) index)"

text \<open>\<open>while current_key.level > 0\<close>: the sibling values and the key the walk ends at.\<close>

function tr_sibling_values ::
  "('s, 'h) store_ops \<Rightarrow> 's \<Rightarrow> node_key \<Rightarrow> ('h list \<times> node_key) option" where
  "tr_sibling_values ops s current_key =
     (if nk_level current_key > 0
      then do { v \<leftarrow> op_get ops s (sibling current_key);
                (vs, k) \<leftarrow> tr_sibling_values ops s (parent current_key);
                Some (v # vs, k) }
      else Some ([], current_key))"
  by auto
termination
  by (relation "measure (\<lambda>(ops, s, k). lev k)")
    (auto simp: lev_parent lev_pos simp flip: word_neq_0_conv)

declare tr_sibling_values.simps [simp del]

definition tr_get_leaf :: "('s, 'h) store_ops \<Rightarrow> 's \<Rightarrow> u64 \<Rightarrow> 'h merkle_proof option" where
  "tr_get_leaf ops s index =
     do { v \<leftarrow> op_get ops s (Node_Key (op_height ops s) index);
          (sibs, current_key) \<leftarrow> tr_sibling_values ops s (Node_Key (op_height ops s) index);
          root \<leftarrow> op_get ops s current_key;
          Some \<lparr>mp_root = root, mp_value = v, mp_index = index, mp_siblings = sibs\<rparr> }"

partial_function (option) tr_find_first_zero_leaf_index ::
  "('s, 'h) store_ops \<Rightarrow> 's \<Rightarrow> node_key \<Rightarrow> u64 option option" where
  "tr_find_first_zero_leaf_index ops s node =
     do { v \<leftarrow> op_get ops s node;
          zero \<leftarrow> op_zero ops s (nk_level node);
          (if v = zero then Some (Some (nk_index (first_leaf_child node (op_height ops s))))
           else if nk_level node = op_height ops s then Some None
           else do { l \<leftarrow> tr_find_first_zero_leaf_index ops s (left_child node);
                     (case l of Some ind \<Rightarrow> Some (Some ind)
                      | None \<Rightarrow> tr_find_first_zero_leaf_index ops s (right_child node)) }) }"

datatype store_error =
    Tree_Is_Full
  | Update_Exceeds_Sub_Tree
  | Too_Many_Leaves
  | Tree_Cannot_Fit nat
  | Proof_Height_Mismatch
  | Empty_Sub_Tree

definition tr_find_next_append_index ::
  "('s, 'h) store_ops \<Rightarrow> 's \<Rightarrow> (store_error + u64) option" where
  "tr_find_next_append_index ops s =
     do { r \<leftarrow> tr_find_first_zero_leaf_index ops s new_root;
          Some (case r of Some i \<Rightarrow> Inr i | None \<Rightarrow> Inl Tree_Is_Full) }"

function tr_rehash_from_node_to_level ::
  "('s, 'h) store_ops \<Rightarrow> ('h \<Rightarrow> 'h \<Rightarrow> 'h) \<Rightarrow> 's \<Rightarrow> node_key \<Rightarrow> u8 \<Rightarrow> 's option" where
  "tr_rehash_from_node_to_level ops t s node stop_level =
     (if nk_level node > stop_level
      then do { sibling_value \<leftarrow> op_get ops s (sibling node);
                node_value \<leftarrow> op_get ops s node;
                s' \<leftarrow> op_set ops s (parent node)
                      (if nk_index node AND 1 = 0 then t node_value sibling_value
                       else t sibling_value node_value);
                tr_rehash_from_node_to_level ops t s' (parent node) stop_level }
      else Some s)"
  by auto
termination
  by (relation "measure (\<lambda>(ops, t, s, k, l). lev k)")
    (auto simp: lev_parent word_less_nat_alt)

declare tr_rehash_from_node_to_level.simps [simp del]

partial_function (option) tr_rehash_recursive ::
  "('s, 'h) store_ops \<Rightarrow> ('h \<Rightarrow> 'h \<Rightarrow> 'h) \<Rightarrow> 's \<Rightarrow> node_key \<Rightarrow> ('h \<times> 's) option" where
  "tr_rehash_recursive ops t s node =
     (if nk_level node \<ge> op_height ops s then do { v \<leftarrow> op_get ops s node; Some (v, s) }
      else do { (left_hash, s) \<leftarrow> tr_rehash_recursive ops t s (left_child node);
                (right_hash, s) \<leftarrow> tr_rehash_recursive ops t s (right_child node);
                s \<leftarrow> op_set ops s node (t left_hash right_hash);
                Some (t left_hash right_hash, s) })"

definition tr_rehash_sub_tree ::
  "('s, 'h) store_ops \<Rightarrow> ('h \<Rightarrow> 'h \<Rightarrow> 'h) \<Rightarrow> 's \<Rightarrow> u8 \<Rightarrow> u64 \<Rightarrow> ('h \<times> 's) option" where
  "tr_rehash_sub_tree ops t s sub_tree_height sub_tree_index =
     (let sub_root_node = Node_Key (op_height ops s - sub_tree_height) sub_tree_index in
      do { (new_sub_root_hash, s) \<leftarrow> tr_rehash_recursive ops t s sub_root_node;
           s \<leftarrow> tr_rehash_from_node_to_level ops t s sub_root_node 0;
           Some (new_sub_root_hash, s) })"

fun get_all :: "('s, 'h) store_ops \<Rightarrow> 's \<Rightarrow> node_key list \<Rightarrow> 'h list option" where
  "get_all ops s [] = Some []"
| "get_all ops s (k # ks) = do { v \<leftarrow> op_get ops s k; vs \<leftarrow> get_all ops s ks; Some (v # vs) }"

definition tr_rehash_sub_tree_dmp ::
  "('s, 'h) store_ops \<Rightarrow> ('h \<Rightarrow> 'h \<Rightarrow> 'h) \<Rightarrow> 's \<Rightarrow> u8 \<Rightarrow> u64 \<Rightarrow> ('h delta_merkle_proof \<times> 's) option" where
  "tr_rehash_sub_tree_dmp ops t s sub_tree_height sub_tree_index =
     (let sub_root_node = Node_Key (op_height ops s - sub_tree_height) sub_tree_index in
      do { old_sub_tree_root \<leftarrow> op_get ops s sub_root_node;
           old_tree_root \<leftarrow> tr_get_root ops s;
           sibs \<leftarrow> get_all ops s (siblings sub_root_node);
           (_, s) \<leftarrow> tr_rehash_sub_tree ops t s sub_tree_height sub_tree_index;
           new_sub_tree_root \<leftarrow> op_get ops s sub_root_node;
           new_tree_root \<leftarrow> tr_get_root ops s;
           Some (\<lparr>dmp_old_root = old_tree_root, dmp_old_value = old_sub_tree_root,
                  dmp_new_root = new_tree_root, dmp_new_value = new_sub_tree_root,
                  dmp_index = sub_tree_index, dmp_siblings = sibs\<rparr>, s) })"

text \<open>\<open>for (i, v) in values.iter().enumerate() { set_node_value(start + i, v) }\<close>\<close>

fun set_leaves_from :: "('s, 'h) store_ops \<Rightarrow> 's \<Rightarrow> u64 \<Rightarrow> 'h list \<Rightarrow> 's option" where
  "set_leaves_from ops s start [] = Some s"
| "set_leaves_from ops s start (v # vs) =
     do { s \<leftarrow> op_set ops s (Node_Key (op_height ops s) start) v; set_leaves_from ops s (start + 1) vs }"

definition tr_update_sub_tree ::
  "('s, 'h) store_ops \<Rightarrow> ('h \<Rightarrow> 'h \<Rightarrow> 'h) \<Rightarrow> 's \<Rightarrow> u8 \<Rightarrow> u64 \<Rightarrow> u64 \<Rightarrow> 'h list \<Rightarrow>
   ((store_error + 'h) \<times> 's) option" where
  "tr_update_sub_tree ops t s sub_tree_height sub_tree_index sub_tree_offset vals =
     (let leaves_per_sub_tree = shl64 1 (unat sub_tree_height) in
      if sub_tree_offset + of_nat (length vals) > leaves_per_sub_tree
      then Some (Inl Update_Exceeds_Sub_Tree, s)
      else do { s \<leftarrow> set_leaves_from ops s (leaves_per_sub_tree * sub_tree_index + sub_tree_offset) vals;
                (h, s) \<leftarrow> tr_rehash_sub_tree ops t s sub_tree_height sub_tree_index;
                Some (Inr h, s) })"

definition tr_set_sub_tree_dmp ::
  "('s, 'h) store_ops \<Rightarrow> ('h \<Rightarrow> 'h \<Rightarrow> 'h) \<Rightarrow> 's \<Rightarrow> u8 \<Rightarrow> u64 \<Rightarrow> 'h list \<Rightarrow>
   ((store_error + 'h delta_merkle_proof) \<times> 's) option" where
  "tr_set_sub_tree_dmp ops t s sub_tree_height sub_tree_index leaves =
     (let max_leaves = 2 ^ (unat sub_tree_height mod 64) in
      if length leaves > max_leaves then Some (Inl Too_Many_Leaves, s)
      else do {
        padding \<leftarrow> (if length leaves < max_leaves
                   then map_option (replicate (max_leaves - length leaves)) (op_zero ops s (op_height ops s))
                   else Some []);
        s \<leftarrow> set_leaves_from ops s (shl64 1 (unat sub_tree_height) * sub_tree_index) (leaves @ padding);
        (p, s) \<leftarrow> tr_rehash_sub_tree_dmp ops t s sub_tree_height sub_tree_index;
        Some (Inr p, s) })"

text \<open>\<open>while current_sibling.level > 0\<close>, with zero hashes for the siblings on the right.\<close>

function tr_historical_siblings ::
  "('s, 'h) store_ops \<Rightarrow> 'h hasher \<Rightarrow> 's \<Rightarrow> node_key \<Rightarrow> 'h list option" where
  "tr_historical_siblings ops H s current_sibling =
     (if nk_level current_sibling > 0
      then do { v \<leftarrow> (if nk_index current_sibling AND 1 = 1
                     then Some (get_zero_hash H (unat (op_height ops s) - lev current_sibling))
                     else op_get ops s current_sibling);
                vs \<leftarrow> tr_historical_siblings ops H s (sibling (parent current_sibling));
                Some (v # vs) }
      else Some [])"
  by auto
termination
  by (relation "measure (\<lambda>(ops, H, s, k). lev k)")
    (auto simp: sibling_def lev_parent word_less_nat_alt)

declare tr_historical_siblings.simps [simp del]

definition tr_get_historical_merkle_proof ::
  "('s, 'h) store_ops \<Rightarrow> 'h hasher \<Rightarrow> 's \<Rightarrow> u64 \<Rightarrow> 'h merkle_proof option" where
  "tr_get_historical_merkle_proof ops H s index =
     do { v \<leftarrow> tr_get_leaf_value ops s index;
          sibs \<leftarrow> tr_historical_siblings ops H s (sibling (Node_Key (op_height ops s) index));
          Some \<lparr>mp_root = compute_root_merkle_proof_generic (two_to_one H) v index sibs,
                mp_value = v, mp_index = index, mp_siblings = sibs\<rparr> }"

definition tr_set_leaf ::
  "('s, 'h) store_ops \<Rightarrow> ('h \<Rightarrow> 'h \<Rightarrow> 'h) \<Rightarrow> 's \<Rightarrow> u64 \<Rightarrow> 'h \<Rightarrow> ('h delta_merkle_proof \<times> 's) option" where
  "tr_set_leaf ops t s index v =
     (let leaf_key = Node_Key (op_height ops s) index in
      do { old_value \<leftarrow> tr_get_leaf_value ops s index;
           old_root \<leftarrow> tr_get_root ops s;
           (sibs, _) \<leftarrow> tr_sibling_values ops s leaf_key;
           s \<leftarrow> op_set ops s leaf_key v;
           s \<leftarrow> tr_rehash_from_node_to_level ops t s leaf_key 0;
           new_root \<leftarrow> tr_get_root ops s;
           Some (\<lparr>dmp_old_root = old_root, dmp_old_value = old_value, dmp_new_root = new_root,
                  dmp_new_value = v, dmp_index = index, dmp_siblings = sibs\<rparr>, s) })"

definition tr_set_leaf_no_proof ::
  "('s, 'h) store_ops \<Rightarrow> ('h \<Rightarrow> 'h \<Rightarrow> 'h) \<Rightarrow> 's \<Rightarrow> u64 \<Rightarrow> 'h \<Rightarrow> 's option" where
  "tr_set_leaf_no_proof ops t s index v =
     (let leaf_key = Node_Key (op_height ops s) index in
      do { s \<leftarrow> op_set ops s leaf_key v; tr_rehash_from_node_to_level ops t s leaf_key 0 })"

fun injest_siblings ::
  "('s, 'h) store_ops \<Rightarrow> 's \<Rightarrow> node_key \<Rightarrow> 'h list \<Rightarrow> ('s \<times> node_key) option" where
  "injest_siblings ops s current_key [] = Some (s, current_key)"
| "injest_siblings ops s current_key (sibling_hash # hs) =
     do { s \<leftarrow> op_set ops s (sibling current_key) sibling_hash;
          injest_siblings ops s (parent current_key) hs }"

definition tr_injest_merkle_proof ::
  "('s, 'h) store_ops \<Rightarrow> ('h \<Rightarrow> 'h \<Rightarrow> 'h) \<Rightarrow> 's \<Rightarrow> 'h merkle_proof \<Rightarrow>
   ((store_error + unit) \<times> 's) option" where
  "tr_injest_merkle_proof ops t s proof =
     (if unat (op_height ops s) \<noteq> length (mp_siblings proof) then Some (Inl Proof_Height_Mismatch, s)
      else let current_key = Node_Key (op_height ops s) (mp_index proof) in
        do { s \<leftarrow> op_set ops s current_key (mp_value proof);
             (s, current_key) \<leftarrow> injest_siblings ops s current_key (mp_siblings proof);
             s \<leftarrow> tr_rehash_from_node_to_level ops t s current_key 0;
             Some (Inr (), s) })"

text \<open>\<open>Vec::resize\<close> to a length.\<close>

definition resize :: "nat \<Rightarrow> 'h \<Rightarrow> 'h list \<Rightarrow> 'h list" where
  "resize n v xs = take n xs @ replicate (n - length xs) v"

fun tr_leaf_values :: "('s, 'h) store_ops \<Rightarrow> 's \<Rightarrow> u64 \<Rightarrow> nat \<Rightarrow> 'h list option" where
  "tr_leaf_values ops s start 0 = Some []"
| "tr_leaf_values ops s start (Suc n) =
     do { v \<leftarrow> tr_get_leaf_value ops s start;
          vs \<leftarrow> tr_leaf_values ops s (start + 1) n;
          Some (v # vs) }"

text \<open>The final loop over \<open>leaves_remaining.chunks(leaves_per_subtree)\<close>.\<close>

function tr_append_chunks ::
  "('s, 'h) store_ops \<Rightarrow> ('h \<Rightarrow> 'h \<Rightarrow> 'h) \<Rightarrow> u8 \<Rightarrow> 'h \<Rightarrow> 's \<Rightarrow> u64 \<Rightarrow> 'h list \<Rightarrow>
   ((store_error + 'h spiderman_update_proof list) \<times> 's) option" where
  "tr_append_chunks ops t sub_tree_height zero_leaf_hash s current_subtree_idx leaves_remaining =
     (if leaves_remaining = [] then Some (Inr [], s)
      else let n = 2 ^ (unat sub_tree_height mod 64);
               new_leaves = resize n zero_leaf_hash (take n leaves_remaining)
           in do { (r, s) \<leftarrow> tr_set_sub_tree_dmp ops t s sub_tree_height current_subtree_idx new_leaves;
                   (case r of Inl e \<Rightarrow> Some (Inl e, s)
                    | Inr p \<Rightarrow>
                        do { (rest, s) \<leftarrow> tr_append_chunks ops t sub_tree_height zero_leaf_hash s
                                           (current_subtree_idx + 1) (drop n leaves_remaining);
                             Some (map_sum id (\<lambda>ps. \<lparr>top_line_proof = p,
                               web_proof_old_leaves = replicate n zero_leaf_hash,
                               web_proof_new_leaves = new_leaves\<rparr> # ps) rest, s) }) })"
  by auto
termination
  by (relation "measure (\<lambda>(ops, t, h, z, s, i, ls). length ls)") auto

declare tr_append_chunks.simps [simp del]

definition tr_append_leaves_spider_man ::
  "('s, 'h) store_ops \<Rightarrow> ('h \<Rightarrow> 'h \<Rightarrow> 'h) \<Rightarrow> 's \<Rightarrow> u8 \<Rightarrow> 'h list \<Rightarrow>
   ((store_error + 'h spiderman_update_proof list) \<times> 's) option" where
  "tr_append_leaves_spider_man ops t s sub_tree_height leaves_to_append =
     (if leaves_to_append = [] then Some (Inr [], s)
      else let leaves_per_subtree = 2 ^ (unat sub_tree_height mod 64);
               max_leaves = shl64 1 (unat (op_height ops s)) in
        do { r \<leftarrow> tr_find_next_append_index ops s;
             (case r of Inl e \<Rightarrow> Some (Inl e, s)
              | Inr append_index \<Rightarrow>
                if append_index + of_nat (length leaves_to_append) > max_leaves
                then Some (Inl (Tree_Cannot_Fit (length leaves_to_append)), s)
                else let current_subtree_idx = append_index div of_nat leaves_per_subtree;
                         leaf_idx_in_subtree = unat (append_index mod of_nat leaves_per_subtree);
                         subtree_start_leaf = current_subtree_idx * of_nat leaves_per_subtree in
                  do { zero_leaf_hash \<leftarrow> op_zero ops s (op_height ops s);
                       existing \<leftarrow> tr_leaf_values ops s subtree_start_leaf leaf_idx_in_subtree;
                       let old_leaves = resize leaves_per_subtree zero_leaf_hash existing;
                           space = leaves_per_subtree - leaf_idx_in_subtree;
                           first_chunk = take (min space (length leaves_to_append)) leaves_to_append;
                           rest = drop (min space (length leaves_to_append)) leaves_to_append;
                           new_leaves = resize leaves_per_subtree zero_leaf_hash (existing @ first_chunk) in
                       do { (r, s) \<leftarrow> tr_set_sub_tree_dmp ops t s sub_tree_height current_subtree_idx new_leaves;
                            (case r of Inl e \<Rightarrow> Some (Inl e, s)
                             | Inr p \<Rightarrow>
                               do { (more, s) \<leftarrow> tr_append_chunks ops t sub_tree_height zero_leaf_hash s
                                                   (current_subtree_idx + 1) rest;
                                    Some (map_sum id (\<lambda>ps. \<lparr>top_line_proof = p,
                                      web_proof_old_leaves = old_leaves,
                                      web_proof_new_leaves = new_leaves\<rparr> # ps) more, s) }) } }) })"

section \<open>Keys as numbers\<close>

lemma unat_drop_bit_div: "unat (drop_bit n x) = unat (x :: u64) div 2 ^ n"
  unfolding unat_drop_bit_eq by (simp add: drop_bit_eq_div)

lemma valid_key_iff: "valid_key k \<longleftrightarrow> lev k \<le> 64 \<and> unat (nk_index k) < 2 ^ lev k"
proof -
  have "drop_bit (lev k) (nk_index k) = 0 \<longleftrightarrow> unat (drop_bit (lev k) (nk_index k)) = 0"
    by (simp add: unat_eq_zero)
  thus ?thesis unfolding valid_key_def unat_drop_bit_div by (auto simp: div_eq_0_iff)
qed

lemma is_anc_iff:
  "is_anc a k \<longleftrightarrow> lev a \<le> lev k \<and> unat (nk_index a) = unat (nk_index k) div 2 ^ (lev k - lev a)"
  unfolding is_anc_def unat_drop_bit_div[symmetric] word_unat_eq_iff[of "nk_index a"] ..

lemma unat_parent: "nk_level k \<noteq> 0 \<Longrightarrow> unat (nk_index (parent k)) = unat (nk_index k) div 2"
  using unat_drop_bit_div[of 1 "nk_index k"] by (simp add: parent_def)

lemma unat_child:
  assumes "valid_key k" "lev k < 64"
  shows "unat (nk_index (left_child k)) = 2 * unat (nk_index k)"
    "unat (nk_index (right_child k)) = 2 * unat (nk_index k) + 1"
proof -
  have "(2::nat) ^ lev k \<le> 2 ^ 63" by (rule power_increasing) (use assms(2) in auto)
  hence "unat (nk_index k) < 2 ^ 63" using assms(1) valid_key_iff[of k] by simp
  thus "unat (nk_index (left_child k)) = 2 * unat (nk_index k)"
    "unat (nk_index (right_child k)) = 2 * unat (nk_index k) + 1"
    by (simp_all add: left_child_def right_child_def unat_word_ariths mult.commute)
qed

lemma unat_sibling: "unat (nk_index (sibling k)) = sib_index (unat (nk_index k))"
proof -
  have "unat (nk_index (sibling k)) = unat (nk_index k) XOR 1"
    by (simp add: sibling_def unsigned_xor_eq)
  thus ?thesis unfolding xor_one_eq by (simp add: sib_index_def)
qed

lemma lev_sibling [simp]: "nk_level (sibling k) = nk_level k"
  by (simp add: sibling_def)

lemma valid_sibling: "valid_key k \<Longrightarrow> nk_level k \<noteq> 0 \<Longrightarrow> valid_key (sibling k)"
proof -
  assume k: "valid_key k" "nk_level k \<noteq> 0"
  obtain n where n: "lev k = Suc n" using lev_pos[OF k(2)] by (cases "lev k") auto
  have "sib_index j < 2 ^ Suc n" if "j < 2 ^ Suc n" for j
    using that by (auto simp: sib_index_def elim!: evenE)
  thus ?thesis using k n unfolding valid_key_iff unat_sibling by simp
qed

lemma key_eq_iff: "a = b \<longleftrightarrow> lev a = lev b \<and> unat (nk_index a) = unat (nk_index b)"
  by (metis node_key.expand word_unat_eq_iff)

text \<open>The value of a key in the reference tree of height \<open>h\<close>.\<close>

definition node_val :: "('h \<Rightarrow> 'h \<Rightarrow> 'h) \<Rightarrow> nat \<Rightarrow> (nat \<Rightarrow> 'h) \<Rightarrow> node_key \<Rightarrow> 'h" where
  "node_val t h f k = mnode t f (h - lev k) (unat (nk_index k))"

lemma node_val_parent:
  assumes "nk_level k \<noteq> 0" "lev k \<le> h"
  shows "node_val t h f (parent k) =
    (if even (unat (nk_index k)) then t (node_val t h f k) (node_val t h f (sibling k))
     else t (node_val t h f (sibling k)) (node_val t h f k))"
proof -
  have "h - lev (parent k) = Suc (h - lev k)" using lev_pos[OF assms(1)] assms(2) by (simp add: lev_parent)
  thus ?thesis unfolding node_val_def unat_parent[OF assms(1)] lev_sibling unat_sibling
    using mnode_sib[of t f "h - lev k" "unat (nk_index k)"] by simp
qed

lemma node_val_children:
  assumes "valid_key k" "lev k < h" "h \<le> 64"
  shows "node_val t h f k = t (node_val t h f (left_child k)) (node_val t h f (right_child k))"
proof -
  have l: "lev k < 64" using assms by simp
  have "h - lev k = Suc (h - Suc (lev k))" using assms(2) by simp
  thus ?thesis using unat_child[OF assms(1) l] lev_child[OF l] by (simp add: node_val_def)
qed

lemma index_even: "nk_index k AND 1 = 0 \<longleftrightarrow> even (unat (nk_index k))"
  using and_one_u64(1)[of "nk_index k"] bit_unat_div[of "nk_index k" 0] by simp

text \<open>Changing leaves below \<open>r\<close> does not change nodes that are neither above nor below \<open>r\<close>.\<close>

lemma node_val_cong:
  assumes "lev k \<le> h" "lev r \<le> h"
    "\<And>i. i div 2 ^ (h - lev r) \<noteq> unat (nk_index r) \<Longrightarrow> f i = g i"
    "\<not> is_anc k r" "\<not> is_anc r k"
  shows "node_val t h f k = node_val t h g k"
  unfolding node_val_def
proof (rule mnode_cong)
  fix i assume i: "unat (nk_index k) * 2 ^ (h - lev k) \<le> i" "i < (unat (nk_index k) + 1) * 2 ^ (h - lev k)"
  have ik: "i div 2 ^ (h - lev k) = unat (nk_index k)"
    using i by (intro div_nat_eqI) (auto simp: mult.commute)
  show "f i = g i"
  proof (rule assms(3), rule notI)
    assume ir: "i div 2 ^ (h - lev r) = unat (nk_index r)"
    show False
    proof (cases "lev k \<le> lev r")
      case True
      have "unat (nk_index k) = i div 2 ^ (h - lev r) div 2 ^ (lev r - lev k)"
        using ik True assms(2) by (simp add: div_mult2_eq[symmetric] power_add[symmetric])
      thus False using assms(4) True ir by (simp add: is_anc_iff)
    next
      case False
      have "unat (nk_index r) = i div 2 ^ (h - lev k) div 2 ^ (lev k - lev r)"
        using ir False assms(1) by (simp add: div_mult2_eq[symmetric] power_add[symmetric])
      thus False using assms(5) False ik by (simp add: is_anc_iff)
    qed
  qed
qed

end
