(* ===== verification/Store_Laws.thy ===== *)
theory Store_Laws
  imports Store_Trait
begin

text \<open>
  What the provided methods of \<open>PsyMemoryMerkleStoreImm\<close>
  (\<open>src/parth_common/src/memory_stores/traits.rs\<close>) compute. \<open>tree_rep t h vs f\<close> says that the
  node values \<open>vs\<close> of a tree of height \<open>h\<close> are those of the reference tree over the leaves \<open>f\<close>,
  \<open>almost\<close> that this holds except on the strict ancestors of one node. The locale \<open>node_store\<close> is
  the contract of the four required methods; inside it every provided method is shown to return
  and to implement the corresponding operation on the array of leaves.
\<close>

section \<open>Trees of node values\<close>

definition tree_rep :: "('h \<Rightarrow> 'h \<Rightarrow> 'h) \<Rightarrow> nat \<Rightarrow> (node_key \<Rightarrow> 'h) \<Rightarrow> (nat \<Rightarrow> 'h) \<Rightarrow> bool" where
  "tree_rep t h vs f \<longleftrightarrow> (\<forall>k. valid_key k \<longrightarrow> lev k \<le> h \<longrightarrow> vs k = node_val t h f k)"

definition almost :: "('h \<Rightarrow> 'h \<Rightarrow> 'h) \<Rightarrow> nat \<Rightarrow> (node_key \<Rightarrow> 'h) \<Rightarrow> (nat \<Rightarrow> 'h) \<Rightarrow> node_key \<Rightarrow> bool" where
  "almost t h vs f r \<longleftrightarrow>
     (\<forall>k. valid_key k \<longrightarrow> lev k \<le> h \<longrightarrow> \<not> (is_anc k r \<and> k \<noteq> r) \<longrightarrow> vs k = node_val t h f k)"

lemma tree_repD: "tree_rep t h vs f \<Longrightarrow> valid_key k \<Longrightarrow> lev k \<le> h \<Longrightarrow> vs k = node_val t h f k"
  by (simp add: tree_rep_def)

lemma almostD:
  "almost t h vs f r \<Longrightarrow> valid_key k \<Longrightarrow> lev k \<le> h \<Longrightarrow> \<not> (is_anc k r \<and> k \<noteq> r) \<Longrightarrow> vs k = node_val t h f k"
  by (auto simp: almost_def)

lemma anc_lev: "is_anc a k \<Longrightarrow> lev a \<le> lev k"
  by (simp add: is_anc_iff)

lemma almost_root:
  assumes "almost t h vs f r" "nk_level r = 0"
  shows "tree_rep t h vs f"
  unfolding tree_rep_def
proof (intro allI impI)
  fix k assume k: "valid_key k" "lev k \<le> h"
  have "k = r" if "is_anc k r"
    using that assms(2) anc_lev[OF that] by (intro is_anc_same_level) (auto simp: unat_eq_zero)
  thus "vs k = node_val t h f k" using almostD[OF assms(1) k] by blast
qed

lemma almost_step:
  assumes "almost t h vs f r" "nk_level r \<noteq> 0" "valid_key r" "lev r \<le> h"
  shows "almost t h (vs(parent r := (if nk_index r AND 1 = 0 then t (vs r) (vs (sibling r))
                                     else t (vs (sibling r)) (vs r)))) f (parent r)"
proof -
  have ns: "\<not> (is_anc (sibling r) r \<and> sibling r \<noteq> r)"
    using is_anc_same_level[of "sibling r" r] by auto
  have "vs r = node_val t h f r" using almostD[OF assms(1) assms(3,4)] by simp
  moreover have "vs (sibling r) = node_val t h f (sibling r)"
    using almostD[OF assms(1) valid_sibling[OF assms(3,2)]] ns assms(4) by simp
  ultimately have p: "(if nk_index r AND 1 = 0 then t (vs r) (vs (sibling r)) else t (vs (sibling r)) (vs r))
      = node_val t h f (parent r)"
    using node_val_parent[OF assms(2,4), of t f] index_even[of r] by simp
  show ?thesis unfolding almost_def p
  proof (intro allI impI)
    fix k assume k: "valid_key k" "lev k \<le> h" "\<not> (is_anc k (parent r) \<and> k \<noteq> parent r)"
    show "(vs(parent r := node_val t h f (parent r))) k = node_val t h f k"
      using almostD[OF assms(1) k(1,2)] k(3) is_anc_parent[of k r] by (cases "k = parent r") auto
  qed
qed

text \<open>A subtree is rewritten: its nodes follow \<open>g\<close>, the nodes outside still follow \<open>f\<close>.\<close>

lemma almost_start:
  assumes "tree_rep t h vs f" "lev r \<le> h"
    "\<And>i. i div 2 ^ (h - lev r) \<noteq> unat (nk_index r) \<Longrightarrow> f i = g i"
    "\<And>k. valid_key k \<Longrightarrow> lev k \<le> h \<Longrightarrow> is_anc r k \<Longrightarrow> vs' k = node_val t h g k"
    "\<And>k. \<not> is_anc r k \<Longrightarrow> vs' k = vs k"
  shows "almost t h vs' g r"
  unfolding almost_def
proof (intro allI impI)
  fix k assume k: "valid_key k" "lev k \<le> h" "\<not> (is_anc k r \<and> k \<noteq> r)"
  show "vs' k = node_val t h g k"
  proof (cases "is_anc r k")
    case False
    hence "\<not> is_anc k r" using k(3) by auto
    thus ?thesis using assms(5)[OF False] tree_repD[OF assms(1) k(1,2)]
        node_val_cong[OF k(2) assms(2) assms(3) _ False] by simp
  qed (use assms(4) k in auto)
qed

lemma leaf_valid: "unat l \<le> 63 \<Longrightarrow> unat i < 2 ^ unat l \<Longrightarrow> valid_key (Node_Key l i)"
  by (simp add: valid_key_iff)

lemma node_val_leaf: "node_val t (lev k) f k = f (unat (nk_index k))"
  by (simp add: node_val_def)

lemma node_val_root: "node_val t h f new_root = mnode t f h 0"
  by (simp add: node_val_def new_root_def)

section \<open>The contract of a store\<close>

locale node_store = zero_hasher H z for H :: "'h hasher" and z :: 'h +
  fixes ops :: "('s, 'h) store_ops" and inv :: "'s \<Rightarrow> bool" and vals :: "'s \<Rightarrow> node_key \<Rightarrow> 'h"
  assumes height_le: "inv s \<Longrightarrow> unat (op_height ops s) \<le> 63"
    and get_law: "inv s \<Longrightarrow> lev k \<le> unat (op_height ops s) \<Longrightarrow> op_get ops s k = Some (vals s k)"
    and set_law: "inv s \<Longrightarrow> lev k \<le> unat (op_height ops s) \<Longrightarrow>
      \<exists>s'. op_set ops s k v = Some s' \<and> inv s' \<and> op_height ops s' = op_height ops s \<and>
           vals s' = (vals s)(k := v)"
    and zero_law: "inv s \<Longrightarrow> unat l \<le> unat (op_height ops s) \<Longrightarrow>
      op_zero ops s l = Some (get_zero_hash H (unat (op_height ops s) - unat l))"
begin

abbreviation t where "t \<equiv> two_to_one H"
abbreviation ht where "ht s \<equiv> unat (op_height ops s)"

text \<open>\<open>s\<close> is a store of the leaves \<open>f\<close>.\<close>

abbreviation stores where "stores s f \<equiv> inv s \<and> tree_rep t (ht s) (vals s) f"

lemma leaf_key_valid: "inv s \<Longrightarrow> unat i < 2 ^ ht s \<Longrightarrow> valid_key (Node_Key (op_height ops s) i)"
  using height_le leaf_valid by blast

lemma get_root_stores: "stores s f \<Longrightarrow> tr_get_root ops s = Some (mnode t f (ht s) 0)"
  using get_law[of s new_root] tree_repD[of t "ht s" "vals s" f new_root]
  by (simp add: tr_get_root_def new_root_def node_val_def valid_key_iff)

lemma get_leaf_value_stores:
  "stores s f \<Longrightarrow> unat i < 2 ^ ht s \<Longrightarrow> tr_get_leaf_value ops s i = Some (f (unat i))"
  using get_law[of s "Node_Key (op_height ops s) i"] leaf_key_valid[of s i]
    tree_repD[of t "ht s" "vals s" f "Node_Key (op_height ops s) i"]
  by (simp add: tr_get_leaf_value_def node_val_def)

text \<open>Only the siblings of the path matter.\<close>

lemma sibling_values_path:
  assumes "inv s"
  shows "valid_key k \<Longrightarrow> lev k \<le> ht s \<Longrightarrow>
    (\<And>q. is_anc q k \<Longrightarrow> nk_level q \<noteq> 0 \<Longrightarrow> vals s (sibling q) = node_val t (ht s) f (sibling q)) \<Longrightarrow>
    tr_sibling_values ops s k = Some (map (\<lambda>n. mnode t f n (sib_index (unat (nk_index k) div 2 ^ (n - (ht s - lev k)))))
       [ht s - lev k..<ht s], new_root)"
proof (induction "lev k" arbitrary: k)
  case 0
  hence l: "nk_level k = 0" by (simp add: unat_eq_zero)
  thus ?case using valid_root[OF 0(2) l] by (simp add: tr_sibling_values.simps[of ops s new_root])
next
  case (Suc n)
  have l: "nk_level k \<noteq> 0" using Suc.hyps(2) by auto
  let ?d = "ht s - lev k"
  have p: "valid_key (parent k)" "lev (parent k) \<le> ht s" "n = lev (parent k)"
    using parent_valid[OF Suc.prems(1)] Suc.prems(2) Suc.hyps(2) by (simp_all add: lev_parent)
  have g: "op_get ops s (sibling k) = Some (mnode t f ?d (sib_index (unat (nk_index k))))"
    using get_law[of s "sibling k"] Suc.prems(3)[OF is_anc_refl l] assms Suc.prems(2)
    by (simp add: node_val_def unat_sibling)
  have d: "ht s - lev (parent k) = Suc ?d" using Suc.prems(2) Suc.hyps(2) by (simp add: lev_parent)
  have u: "[?d..<ht s] = ?d # [Suc ?d..<ht s]" using Suc.hyps(2) Suc.prems(2) by (intro upt_conv_Cons) simp
  have m: "unat (nk_index (parent k)) div 2 ^ (m - Suc ?d) = unat (nk_index k) div 2 ^ (m - ?d)"
    if "Suc ?d \<le> m" for m
  proof -
    have "m - ?d = Suc (m - Suc ?d)" using that by simp
    thus ?thesis unfolding unat_parent[OF l] by (simp add: div_mult2_eq)
  qed
  have "map (\<lambda>n. mnode t f n (sib_index (unat (nk_index (parent k)) div 2 ^ (n - Suc ?d)))) [Suc ?d..<ht s] =
      map (\<lambda>n. mnode t f n (sib_index (unat (nk_index k) div 2 ^ (n - ?d)))) [Suc ?d..<ht s]"
    by (rule map_cong[OF refl]) (simp add: m)
  thus ?case using Suc.hyps(1)[OF p(3,1,2) Suc.prems(3)[OF is_anc_trans[OF _ parent_anc]]] g l u
    unfolding tr_sibling_values.simps[of ops s k] d by (simp add: word_neq_0_conv)
qed

lemma sibling_values_stores:
  assumes "stores s f" "valid_key k" "lev k \<le> ht s"
  shows "tr_sibling_values ops s k = Some (map (\<lambda>n. mnode t f n (sib_index (unat (nk_index k) div 2 ^ (n - (ht s - lev k)))))
       [ht s - lev k..<ht s], new_root)"
proof (rule sibling_values_path[OF conjunct1[OF assms(1)] assms(2,3)])
  fix q assume q: "is_anc q k" "nk_level q \<noteq> 0"
  show "vals s (sibling q) = node_val t (ht s) f (sibling q)"
    using tree_repD[OF conjunct2[OF assms(1)] valid_sibling[OF valid_anc[OF q(1) assms(2)] q(2)]]
      anc_lev[OF q(1)] assms(3) by simp
qed

lemma leaf_siblings_stores:
  assumes "stores s f" "unat i < 2 ^ ht s"
  shows "tr_sibling_values ops s (Node_Key (op_height ops s) i) =
    Some (ref_siblings t f (unat i) 0 (ht s), new_root)"
  using sibling_values_stores[OF assms(1) leaf_key_valid[OF _ assms(2)]] assms(1)
  by (simp add: ref_siblings_def)

lemma get_leaf_stores:
  assumes "stores s f" "unat i < 2 ^ ht s"
  shows "tr_get_leaf ops s i = Some \<lparr>mp_root = mnode t f (ht s) 0, mp_value = f (unat i),
      mp_index = i, mp_siblings = ref_siblings t f (unat i) 0 (ht s)\<rparr>"
  using leaf_siblings_stores[OF assms] get_leaf_value_stores[OF assms] get_root_stores[OF assms(1)]
  by (simp add: tr_get_leaf_def tr_get_leaf_value_def tr_get_root_def)

section \<open>Rehashing\<close>

lemma rehash_up:
  assumes "inv s" "almost t (ht s) (vals s) f k" "valid_key k" "lev k \<le> ht s"
  shows "\<exists>s'. tr_rehash_from_node_to_level ops t s k 0 = Some s' \<and> op_height ops s' = op_height ops s \<and> stores s' f"
  using assms
proof (induction "lev k" arbitrary: k s)
  case 0
  hence l: "nk_level k = 0" by (simp add: unat_eq_zero)
  thus ?case using almost_root[OF 0(3) l] 0(2)
    by (simp add: tr_rehash_from_node_to_level.simps[of ops t s k])
next
  case (Suc n)
  have l: "nk_level k \<noteq> 0" using Suc.hyps(2) by auto
  let ?v = "if nk_index k AND 1 = 0 then t (vals s k) (vals s (sibling k)) else t (vals s (sibling k)) (vals s k)"
  have lp: "lev (parent k) \<le> ht s" "n = lev (parent k)" using Suc.prems(4) Suc.hyps(2) by (simp_all add: lev_parent)
  obtain s' where s': "op_set ops s (parent k) ?v = Some s'" "inv s'" "op_height ops s' = op_height ops s"
      "vals s' = (vals s)(parent k := ?v)"
    using set_law[OF Suc.prems(1) lp(1), of ?v] by blast
  have "almost t (ht s') (vals s') f (parent k)"
    using almost_step[OF Suc.prems(2) l Suc.prems(3,4)] s'(3,4) by simp
  then obtain s'' where "tr_rehash_from_node_to_level ops t s' (parent k) 0 = Some s''"
      "op_height ops s'' = op_height ops s'" "stores s'' f"
    using Suc.hyps(1)[OF lp(2) s'(2) _ parent_valid[OF Suc.prems(3)]] lp(1) s'(3) by auto
  thus ?case using s'(1,3) l get_law[OF Suc.prems(1), of k] get_law[OF Suc.prems(1), of "sibling k"] Suc.prems(4)
    unfolding tr_rehash_from_node_to_level.simps[of ops t s k] by (auto simp: word_neq_0_conv)
qed

text \<open>Rehashing below a node: the nodes below it follow its leaves, nothing else moves.\<close>

lemma rehash_down:
  assumes "inv s" "valid_key k" "lev k \<le> ht s"
    "\<And>l. valid_key l \<Longrightarrow> lev l = ht s \<Longrightarrow> is_anc k l \<Longrightarrow> vals s l = g (unat (nk_index l))"
  shows "\<exists>s'. tr_rehash_recursive ops t s k = Some (node_val t (ht s) g k, s') \<and>
    inv s' \<and> op_height ops s' = op_height ops s \<and>
    (\<forall>l. valid_key l \<longrightarrow> lev l \<le> ht s \<longrightarrow> is_anc k l \<longrightarrow> vals s' l = node_val t (ht s) g l) \<and>
    (\<forall>l. \<not> is_anc k l \<longrightarrow> vals s' l = vals s l)"
  using assms
proof (induction "ht s - lev k" arbitrary: k s)
  case 0
  hence e: "lev k = ht s" by simp
  have v: "vals s k = node_val t (ht s) g k" using 0(5)[OF 0(3) e is_anc_refl] e by (simp add: node_val_def)
  have "l = k" if "is_anc k l" "lev l \<le> ht s" for l
    using that e anc_lev[OF that(1)] is_anc_same_level[OF that(1)] by (simp add: iffD2[OF word_unat_eq_iff])
  thus ?case using v get_law[OF 0(2,4)] 0(2) e
    by (subst tr_rehash_recursive.simps) (auto simp: word_le_nat_alt)
next
  case (Suc d)
  have l64: "lev k < 64" and lk: "lev k < ht s" using Suc.hyps(2) height_le[OF Suc.prems(1)] by simp_all
  note cv = child_valid[OF Suc.prems(2) l64]
  note ca = child_anc[OF Suc.prems(2) l64]
  have lc: "lev (left_child k) = Suc (lev k)" "lev (right_child k) = Suc (lev k)" using lev_child[OF l64] by simp_all
  have dl: "d = ht s - lev (left_child k)" using Suc.hyps(2) lc by simp
  have "\<exists>s1. tr_rehash_recursive ops t s (left_child k) = Some (node_val t (ht s) g (left_child k), s1) \<and>
    inv s1 \<and> op_height ops s1 = op_height ops s \<and>
    (\<forall>l. valid_key l \<longrightarrow> lev l \<le> ht s \<longrightarrow> is_anc (left_child k) l \<longrightarrow> vals s1 l = node_val t (ht s) g l) \<and>
    (\<forall>l. \<not> is_anc (left_child k) l \<longrightarrow> vals s1 l = vals s l)"
    by (rule Suc.hyps(1)[OF dl Suc.prems(1) cv(1)])
      (use lc lk Suc.prems(4) ca(1) in \<open>auto dest: is_anc_trans\<close>)
  then obtain s1 where s1: "tr_rehash_recursive ops t s (left_child k) = Some (node_val t (ht s) g (left_child k), s1)"
      "inv s1" "op_height ops s1 = op_height ops s"
      "\<And>l. valid_key l \<Longrightarrow> lev l \<le> ht s \<Longrightarrow> is_anc (left_child k) l \<Longrightarrow> vals s1 l = node_val t (ht s) g l"
      "\<And>l. \<not> is_anc (left_child k) l \<Longrightarrow> vals s1 l = vals s l" by blast
  have nlr: "\<not> is_anc (left_child k) l" if "is_anc (right_child k) l" for l
  proof
    assume "is_anc (left_child k) l"
    hence "is_anc (left_child k) (right_child k)" using is_anc_between[OF _ that] lc by simp
    thus False using is_anc_same_level left_neq_right lc by (metis word_unat_eq_iff)
  qed
  have dr: "d = ht s1 - lev (right_child k)" using Suc.hyps(2) lc s1(3) by simp
  have "\<exists>s2. tr_rehash_recursive ops t s1 (right_child k) = Some (node_val t (ht s1) g (right_child k), s2) \<and>
    inv s2 \<and> op_height ops s2 = op_height ops s1 \<and>
    (\<forall>l. valid_key l \<longrightarrow> lev l \<le> ht s1 \<longrightarrow> is_anc (right_child k) l \<longrightarrow> vals s2 l = node_val t (ht s1) g l) \<and>
    (\<forall>l. \<not> is_anc (right_child k) l \<longrightarrow> vals s2 l = vals s1 l)"
    by (rule Suc.hyps(1)[OF dr s1(2) cv(2)])
      (use lc lk Suc.prems(4) ca(2) s1(3,5) nlr in \<open>auto dest: is_anc_trans\<close>)
  then obtain s2 where s2: "tr_rehash_recursive ops t s1 (right_child k) = Some (node_val t (ht s) g (right_child k), s2)"
      "inv s2" "op_height ops s2 = op_height ops s"
      "\<And>l. valid_key l \<Longrightarrow> lev l \<le> ht s \<Longrightarrow> is_anc (right_child k) l \<Longrightarrow> vals s2 l = node_val t (ht s) g l"
      "\<And>l. \<not> is_anc (right_child k) l \<Longrightarrow> vals s2 l = vals s1 l" using s1(3) by auto
  have nv: "t (node_val t (ht s) g (left_child k)) (node_val t (ht s) g (right_child k)) = node_val t (ht s) g k"
    by (rule node_val_children[OF Suc.prems(2) lk, symmetric]) (use height_le[OF Suc.prems(1)] in simp)
  obtain s3 where s3: "op_set ops s2 k (node_val t (ht s) g k) = Some s3" "inv s3" "op_height ops s3 = op_height ops s"
      "vals s3 = (vals s2)(k := node_val t (ht s) g k)"
    using set_law[OF s2(2), of k] s2(3) Suc.prems(3) by auto
  have nk: "\<not> nk_level k \<ge> op_height ops s" using lk by (simp add: word_le_nat_alt)
  have run: "tr_rehash_recursive ops t s k = Some (node_val t (ht s) g k, s3)"
    by (subst tr_rehash_recursive.simps) (simp add: nk s1(1) s2(1) nv s3(1))
  have below: "vals s3 l = node_val t (ht s) g l" if "valid_key l" "lev l \<le> ht s" "is_anc k l" for l
  proof (cases "k = l")
    case False
    hence "is_anc (left_child k) l \<or> is_anc (right_child k) l" using anc_child_cases[OF that(3) _ that(1)] by blast
    thus ?thesis using s1(4)[OF that(1,2)] s2(4)[OF that(1,2)] s2(5)[of l] s3(4) False
      by (cases "is_anc (right_child k) l") auto
  qed (simp add: s3(4))
  have outside: "vals s3 l = vals s l" if "\<not> is_anc k l" for l
  proof -
    have "\<not> is_anc (left_child k) l" "\<not> is_anc (right_child k) l" "l \<noteq> k"
      using that ca is_anc_trans[of k _ l] by auto
    thus ?thesis using s1(5) s2(5) s3(4) by simp
  qed
  show ?case using run s3(2,3) below outside by blast
qed

section \<open>Single leaves\<close>

lemma set_leaf_almost:
  assumes "stores s f" "unat i < 2 ^ ht s"
  shows "\<exists>s'. op_set ops s (Node_Key (op_height ops s) i) v = Some s' \<and> inv s' \<and> op_height ops s' = op_height ops s \<and>
    almost t (ht s') (vals s') (f(unat i := v)) (Node_Key (op_height ops s) i)"
proof -
  let ?k = "Node_Key (op_height ops s) i"
  obtain s' where s': "op_set ops s ?k v = Some s'" "inv s'" "op_height ops s' = op_height ops s"
      "vals s' = (vals s)(?k := v)"
    using set_law[of s ?k v] assms(1) by auto
  have leaf: "l = ?k" if "lev l \<le> ht s" "is_anc ?k l" for l
    using that anc_lev[OF that(2)] is_anc_same_level[OF that(2)] by (simp add: iffD2[OF word_unat_eq_iff])
  have "almost t (ht s) (vals s') (f(unat i := v)) ?k"
    by (rule almost_start[OF conjunct2[OF assms(1)]])
      (use s'(4) in \<open>auto simp: node_val_def dest!: leaf\<close>)
  thus ?thesis using s' by auto
qed

lemma set_leaf_no_proof_stores:
  assumes "stores s f" "unat i < 2 ^ ht s"
  shows "\<exists>s'. tr_set_leaf_no_proof ops t s i v = Some s' \<and> op_height ops s' = op_height ops s \<and> stores s' (f(unat i := v))"
proof -
  let ?k = "Node_Key (op_height ops s) i"
  obtain s' where s': "op_set ops s ?k v = Some s'" "inv s'" "op_height ops s' = op_height ops s"
      "almost t (ht s') (vals s') (f(unat i := v)) ?k" using set_leaf_almost[OF assms] by blast
  obtain s'' where "tr_rehash_from_node_to_level ops t s' ?k 0 = Some s''" "op_height ops s'' = op_height ops s'"
      "stores s'' (f(unat i := v))"
    using rehash_up[OF s'(2,4)] leaf_key_valid[OF _ assms(2)] assms(1) s'(3) by auto
  thus ?thesis using s'(1,3) by (simp add: tr_set_leaf_no_proof_def)
qed

lemma set_leaf_stores:
  assumes "stores s f" "unat i < 2 ^ ht s"
  shows "\<exists>s'. tr_set_leaf ops t s i v = Some (\<lparr>dmp_old_root = mnode t f (ht s) 0, dmp_old_value = f (unat i),
      dmp_new_root = mnode t (f(unat i := v)) (ht s) 0, dmp_new_value = v, dmp_index = i,
      dmp_siblings = ref_siblings t f (unat i) 0 (ht s)\<rparr>, s') \<and>
    op_height ops s' = op_height ops s \<and> stores s' (f(unat i := v))"
proof -
  obtain s' where s': "tr_set_leaf_no_proof ops t s i v = Some s'" "op_height ops s' = op_height ops s"
      "stores s' (f(unat i := v))" using set_leaf_no_proof_stores[OF assms] by blast
  obtain s1 where "op_set ops s (Node_Key (op_height ops s) i) v = Some s1"
      "tr_rehash_from_node_to_level ops t s1 (Node_Key (op_height ops s) i) 0 = Some s'"
    using s'(1) unfolding tr_set_leaf_no_proof_def by (auto simp: Let_def bind_eq_Some_conv)
  thus ?thesis using get_leaf_value_stores[OF assms] get_root_stores[OF assms(1)] leaf_siblings_stores[OF assms]
      get_root_stores[OF s'(3)] s'(2,3) by (simp add: tr_set_leaf_def)
qed

end

end
