(* ===== verification/Store_Batch.thy ===== *)
theory Store_Batch
  imports Store_Laws
begin

text \<open>
  The batch operations of \<open>PsyMemoryMerkleStoreImm\<close>
  (\<open>src/parth_common/src/memory_stores/traits.rs\<close>): writing the leaves of a subtree with one
  rehash, the search for the first empty leaf, and appending leaves with one spiderman proof per
  subtree. \<open>write_leaves f a vs\<close> is the array \<open>f\<close> with \<open>vs\<close> written from position \<open>a\<close>.
\<close>

definition write_leaves :: "(nat \<Rightarrow> 'h) \<Rightarrow> nat \<Rightarrow> 'h list \<Rightarrow> nat \<Rightarrow> 'h" where
  "write_leaves f a vs i = (if a \<le> i \<and> i < a + length vs then vs ! (i - a) else f i)"

lemma write_leaves_Cons: "write_leaves (f(a := v)) (Suc a) vs = write_leaves f a (v # vs)"
  by (auto simp: write_leaves_def nth_Cons' fun_eq_iff)

lemma write_leaves_Nil [simp]: "write_leaves f a [] = f"
  by (auto simp: write_leaves_def fun_eq_iff)

lemma write_leaves_append:
  "write_leaves (write_leaves f a xs) (a + length xs) ys = write_leaves f a (xs @ ys)"
  by (auto simp: write_leaves_def nth_append fun_eq_iff)

text \<open>The root of a subtree and the leaves below it.\<close>

lemma sub_root_level:
  fixes h sh :: u8
  assumes "unat sh \<le> unat h"
  shows "unat (h - sh) = unat h - unat sh"
  using assms by (simp add: unat_sub word_le_nat_alt)

lemma block_div: "(i :: nat) div 2 ^ n = j \<longleftrightarrow> j * 2 ^ n \<le> i \<and> i < j * 2 ^ n + 2 ^ n"
proof
  assume j: "i div 2 ^ n = j"
  have "i mod 2 ^ n < 2 ^ n" by simp
  thus "j * 2 ^ n \<le> i \<and> i < j * 2 ^ n + 2 ^ n"
    using div_mult_mod_eq[of i "2 ^ n"] unfolding j by linarith
next
  assume "j * 2 ^ n \<le> i \<and> i < j * 2 ^ n + 2 ^ n"
  thus "i div 2 ^ n = j" by (intro div_nat_eqI) (auto simp: mult.commute)
qed

lemma block_bound: "j < 2 ^ (h - n) \<Longrightarrow> n \<le> h \<Longrightarrow> j * 2 ^ n + 2 ^ n \<le> (2 ^ h :: nat)"
proof -
  assume j: "j < 2 ^ (h - n)" "n \<le> h"
  have "Suc j * 2 ^ n \<le> 2 ^ (h - n) * 2 ^ n" using j(1) by (intro mult_le_mono1) simp
  thus ?thesis using j(2) by (simp add: power_add[symmetric] add.commute)
qed

lemma unat_pow2_u64: "n < 64 \<Longrightarrow> unat (2 ^ n :: u64) = 2 ^ n"
  using power_strict_increasing[of n 64 "2::nat"] unat_of_nat[of "2 ^ n", where 'a = 64] by simp

lemma unat_pow_shift:
  assumes "n \<le> h" "h \<le> 63" "unat (j :: u64) < 2 ^ (h - n)"
  shows "unat (shl64 1 n * j) = unat j * 2 ^ n"
proof -
  have "unat j * 2 ^ n + 2 ^ n \<le> 2 ^ h" using block_bound[OF assms(3,1)] .
  also have "(2::nat) ^ h \<le> 2 ^ 63" by (rule power_increasing) (use assms(2) in auto)
  finally have b: "unat j * 2 ^ n < 2 ^ 63" by (rule less_le_trans[rotated]) simp
  have p: "unat (2 ^ n :: u64) = 2 ^ n" by (rule unat_pow2_u64) (use assms in simp)
  have "unat (2 ^ n * j) = 2 ^ n * unat j"
    using b unat_word_ariths(2)[of "2 ^ n" j] unfolding p by (simp add: mult.commute)
  thus ?thesis using assms by (simp add: push_bit_eq_mult mult.commute)
qed

lemma unat_add_small: "unat x + unat y < 2 ^ 64 \<Longrightarrow> unat (x + y) = unat x + unat y" for x y :: u64
  using unat_add_lem[of x y] by simp

lemma pow63: "h \<le> 63 \<Longrightarrow> (2::nat) ^ h \<le> 2 ^ 63"
  by (rule power_increasing) auto


lemma index_succ:
  assumes "unat (j :: u64) < 2 ^ (h - n)" "h \<le> 63"
  shows "unat (j + 1) = Suc (unat j)"
proof -
  have "h - n \<le> 63" using assms(2) by simp
  hence "unat j < 2 ^ 63" using less_le_trans[OF assms(1) pow63] by blast
  thus ?thesis using unat_add_small[of j 1] by simp
qed

section \<open>Reference trees with one changed block\<close>

lemma mnode_block: "mnode t f n j = mnode t (\<lambda>i. f (j * 2 ^ n + i)) n 0"
proof -
  have "mnode t (\<lambda>i. f (c * 2 ^ n + i)) n b = mnode t f n (c + b)" for b c
  proof (induction n arbitrary: f b c)
    case (Suc n)
    have "mnode t (\<lambda>i. f (c * 2 ^ Suc n + i)) n b' = mnode t f n (2 * c + b')" for b'
      using Suc.IH[of f "2 * c" b'] by (simp add: mult.assoc mult.left_commute)
    thus ?case by (simp add: algebra_simps)
  qed simp
  from this[of j 0] show ?thesis by simp
qed

lemma mnode_block_list:
  "length ls = 2 ^ n \<Longrightarrow> (\<And>i. i < 2 ^ n \<Longrightarrow> ls ! i = f (j * 2 ^ n + i)) \<Longrightarrow>
   mnode t ((!) ls) n 0 = mnode t f n j"
  unfolding mnode_block[of t f n j] by (rule mnode_cong) simp

lemma dmp_verify_update:
  assumes "h \<le> 64" "unat j < 2 ^ h" "\<And>i. i \<noteq> unat j \<Longrightarrow> f i = g i"
  shows "dmp_verify t \<lparr>dmp_old_root = mnode t f h 0, dmp_old_value = f (unat j), dmp_new_root = mnode t g h 0,
    dmp_new_value = g (unat j), dmp_index = j, dmp_siblings = ref_siblings t f (unat j) 0 h\<rparr>"
proof -
  have r: "root_loop t j 0 (e (unat j)) (ref_siblings t e (unat j) 0 h) = mnode t e h 0" for e
    using root_loop_ref[of 0 h t j e] assms(1,2) by simp
  have "length (ref_siblings t f (unat j) 0 h) \<le> 64" using assms(1) by (simp add: ref_siblings_def)
  thus ?thesis using r[of f] r[of g] ref_siblings_cong[of "unat j" f g t 0 h] assms(3)
    by (simp add: dmp_verify_def verify_delta_merkle_proof_core_def)
qed

section \<open>Zero subtrees\<close>

text \<open>The hash function gives a zero hash only from zero hashes.\<close>

definition zero_preimage_free :: "('h \<Rightarrow> 'h \<Rightarrow> 'h) \<Rightarrow> 'h \<Rightarrow> bool" where
  "zero_preimage_free t z \<longleftrightarrow>
     (\<forall>n a b. t a b = zero_at t z (Suc n) \<longrightarrow> a = zero_at t z n \<and> b = zero_at t z n)"

text \<open>The free hash: terms as hashes.\<close>

datatype sym_hash = Sym_Leaf nat | Sym_Node sym_hash sym_hash

lemma sym_zero_free: "zero_preimage_free Sym_Node z"
  by (simp add: zero_preimage_free_def)

lemma zero_node_leaves:
  assumes "zero_preimage_free t z"
  shows "mnode t f n j = zero_at t z n \<longleftrightarrow> (\<forall>i. j * 2 ^ n \<le> i \<longrightarrow> i < j * 2 ^ n + 2 ^ n \<longrightarrow> f i = z)"
proof (induction n arbitrary: j)
  case (Suc n)
  have "mnode t f (Suc n) j = zero_at t z (Suc n) \<longleftrightarrow>
      mnode t f n (2 * j) = zero_at t z n \<and> mnode t f n (2 * j + 1) = zero_at t z n"
    using assms by (auto simp: zero_preimage_free_def)
  also have "\<dots> \<longleftrightarrow> (\<forall>i. j * 2 ^ Suc n \<le> i \<longrightarrow> i < j * 2 ^ Suc n + 2 ^ Suc n \<longrightarrow> f i = z)"
    unfolding Suc.IH by (auto simp: algebra_simps)
  finally show ?case .
qed (auto simp: le_less_Suc_eq)

lemma find_append: "find P (xs @ ys) = (case find P xs of Some x \<Rightarrow> Some x | None \<Rightarrow> find P ys)"
  by (induction xs) auto


text \<open>Spiderman proofs that verify and lead from one root to another.\<close>

fun spider_chain :: "('h \<Rightarrow> 'h \<Rightarrow> 'h) \<Rightarrow> 'h \<Rightarrow> 'h spiderman_update_proof list \<Rightarrow> 'h \<Rightarrow> bool" where
  "spider_chain t r [] r' \<longleftrightarrow> r = r'"
| "spider_chain t r (p # ps) r' \<longleftrightarrow>
     spiderman_verify t p = Some True \<and> dmp_old_root (top_line_proof p) = r \<and>
     spider_chain t (dmp_new_root (top_line_proof p)) ps r'"

lemma resize_shorter: "length xs \<le> n \<Longrightarrow> resize n v xs = xs @ replicate (n - length xs) v"
  by (simp add: resize_def)

lemma write_leaves_pad:
  assumes "\<And>i. a + length xs \<le> i \<Longrightarrow> f i = z"
  shows "write_leaves f a (xs @ replicate n z) = write_leaves f a xs"
  using assms by (auto simp: write_leaves_def nth_append fun_eq_iff)

lemma write_leaves_existing:
  "write_leaves f a (map f [a..<a + m] @ xs) = write_leaves f (a + m) xs"
  by (auto simp: write_leaves_def nth_append fun_eq_iff)

lemma write_leaves_zero_after:
  "(\<And>i. a \<le> i \<Longrightarrow> f i = z) \<Longrightarrow> a + length xs \<le> i \<Longrightarrow> write_leaves f a xs i = z"
  by (auto simp: write_leaves_def)

lemma nth_block_write: "length ls = 2 ^ n \<Longrightarrow> i < 2 ^ n \<Longrightarrow> ls ! i = write_leaves f (j * 2 ^ n) ls (j * 2 ^ n + i)"
  by (simp add: write_leaves_def)

context node_store
begin

lemma get_all_siblings:
  "tr_sibling_values ops s k = Some (vs, k') \<Longrightarrow> get_all ops s (siblings k) = Some vs"
proof (induction "lev k" arbitrary: k vs)
  case 0
  hence "nk_level k = 0" by (simp add: unat_eq_zero)
  thus ?case using 0 by (simp add: tr_sibling_values.simps[of ops s k] siblings_def)
next
  case (Suc n)
  have l: "nk_level k > 0" "n = lev (parent k)" using Suc.hyps(2) by (auto simp: lev_parent word_less_nat_alt)
  obtain v vs' where v: "op_get ops s (sibling k) = Some v" "tr_sibling_values ops s (parent k) = Some (vs', k')"
      "vs = v # vs'"
    using Suc.prems l(1) unfolding tr_sibling_values.simps[of ops s k] by (auto simp: bind_eq_Some_conv)
  have "siblings k = sibling k # siblings (parent k)"
    using Suc.hyps(2) l(2) by (simp add: siblings_def flip: Suc.hyps(2))
  thus ?case using v Suc.hyps(1)[OF l(2) v(2)] by simp
qed

lemma sub_siblings_stores:
  assumes "stores s f" "valid_key k" "lev k \<le> ht s"
  shows "get_all ops s (siblings k) =
    Some (ref_siblings t (mnode t f (ht s - lev k)) (unat (nk_index k)) 0 (lev k))"
proof -
  let ?d = "ht s - lev k"
  have "[?d..<ht s] = map (\<lambda>n. n + ?d) [0..<lev k]"
    by (simp only: map_add_upt le_add_diff_inverse[OF assms(3)])
  thus ?thesis using get_all_siblings[OF sibling_values_stores[OF assms]]
    by (simp add: ref_siblings_def mnode_compose comp_def add.commute)
qed

lemma set_leaves_stores:
  assumes "inv s" "unat a + length vs \<le> 2 ^ 63"
  shows "\<exists>s'. set_leaves_from ops s a vs = Some s' \<and> inv s' \<and> op_height ops s' = op_height ops s \<and>
    (\<forall>k. vals s' k = (if nk_level k = op_height ops s
           then write_leaves (\<lambda>i. vals s k) (unat a) vs (unat (nk_index k)) else vals s k))"
  using assms
proof (induction vs arbitrary: s a)
  case (Cons v vs)
  obtain s1 where s1: "op_set ops s (Node_Key (op_height ops s) a) v = Some s1" "inv s1"
      "op_height ops s1 = op_height ops s" "vals s1 = (vals s)(Node_Key (op_height ops s) a := v)"
    using set_law[OF Cons.prems(1), of "Node_Key (op_height ops s) a" v] by auto
  have a1: "unat (a + 1) = Suc (unat a)" using Cons.prems(2) unat_add_small[of a 1] by simp
  obtain s2 where s2: "set_leaves_from ops s1 (a + 1) vs = Some s2" "inv s2" "op_height ops s2 = op_height ops s1"
      "\<And>k. vals s2 k = (if nk_level k = op_height ops s1
           then write_leaves (\<lambda>i. vals s1 k) (Suc (unat a)) vs (unat (nk_index k)) else vals s1 k)"
    using Cons.IH[OF s1(2), of "a + 1"] Cons.prems(2) a1 by auto
  have "vals s2 k = write_leaves (\<lambda>i. vals s k) (unat a) (v # vs) (unat (nk_index k))"
    if "nk_level k = op_height ops s" for k
  proof (cases "nk_index k = a")
    case True
    hence "k = Node_Key (op_height ops s) a" using that by (cases k) auto
    thus ?thesis using s2(4)[of k] s1(3,4) by (simp add: write_leaves_def)
  next
    case False
    hence "k \<noteq> Node_Key (op_height ops s) a" "unat (nk_index k) \<noteq> unat a"
      by (auto simp: iffD2[OF word_unat_eq_iff])
    thus ?thesis using s2(4)[of k] s1(3,4) that
      by (auto simp: write_leaves_def nth_Cons')
  qed
  moreover have "vals s2 k = vals s k" if "nk_level k \<noteq> op_height ops s" for k
    using that s2(4)[of k] s1(3,4) by auto
  ultimately show ?case using s1 s2(1-3) by auto
qed simp

text \<open>Writing leaves of one subtree and rehashing it.\<close>

lemma rehash_sub_tree_stores:
  assumes "stores s0 f" "inv s" "op_height ops s = op_height ops s0"
    "unat sh \<le> ht s" "unat j < 2 ^ (ht s - unat sh)"
    "\<And>i. i div 2 ^ unat sh \<noteq> unat j \<Longrightarrow> f i = g i"
    "\<And>l. valid_key l \<Longrightarrow> lev l = ht s \<Longrightarrow> is_anc (Node_Key (op_height ops s - sh) j) l \<Longrightarrow>
       vals s l = g (unat (nk_index l))"
    "\<And>k. \<not> is_anc (Node_Key (op_height ops s - sh) j) k \<Longrightarrow> vals s k = vals s0 k"
  shows "\<exists>s'. tr_rehash_sub_tree ops t s sh j = Some (mnode t g (unat sh) (unat j), s') \<and>
    op_height ops s' = op_height ops s \<and> stores s' g"
proof -
  let ?r = "Node_Key (op_height ops s - sh) j"
  have lr: "lev ?r = ht s - unat sh" using sub_root_level[OF assms(4)] by simp
  have vr: "valid_key ?r" using lr assms(5) height_le[OF assms(2)] by (simp add: valid_key_iff)
  obtain s1 where s1: "tr_rehash_recursive ops t s ?r = Some (node_val t (ht s) g ?r, s1)" "inv s1"
      "op_height ops s1 = op_height ops s"
      "\<And>l. valid_key l \<Longrightarrow> lev l \<le> ht s \<Longrightarrow> is_anc ?r l \<Longrightarrow> vals s1 l = node_val t (ht s) g l"
      "\<And>l. \<not> is_anc ?r l \<Longrightarrow> vals s1 l = vals s l"
    using rehash_down[OF assms(2) vr _ assms(7)] lr by auto
  have d: "ht s - lev ?r = unat sh" using lr assms(4) by simp
  have "almost t (ht s) (vals s1) g ?r"
  proof (rule almost_start[where vs = "vals s0" and f = f])
    show "tree_rep t (ht s) (vals s0) f" using assms(1,3) by simp
    show "vals s1 k = vals s0 k" if "\<not> is_anc ?r k" for k using s1(5) assms(8) that by simp
    show "f i = g i" if "i div 2 ^ (ht s - lev ?r) \<noteq> unat (nk_index ?r)" for i
      using that assms(6)[of i] unfolding d by simp
  qed (use lr s1(4) in auto)
  then obtain s2 where "tr_rehash_from_node_to_level ops t s1 ?r 0 = Some s2"
      "op_height ops s2 = op_height ops s1" "stores s2 g"
    using rehash_up[OF s1(2) _ vr, of g] s1(3) lr by auto
  thus ?thesis using s1(1,3) d unfolding tr_rehash_sub_tree_def by (auto simp: node_val_def)
qed

lemma sub_leaf_anc:
  assumes "unat sh \<le> ht s" "nk_level l = op_height ops s"
  shows "is_anc (Node_Key (op_height ops s - sh) j) l \<longleftrightarrow> unat (nk_index l) div 2 ^ unat sh = unat j"
proof -
  have lr: "lev (Node_Key (op_height ops s - sh) j) = ht s - unat sh"
    using sub_root_level[OF assms(1)] by simp
  show ?thesis unfolding is_anc_iff lr using assms by auto
qed

lemma write_sub_tree:
  assumes "stores s f" "unat sh \<le> ht s" "unat j < 2 ^ (ht s - unat sh)"
    "unat a = unat j * 2 ^ unat sh + off" "off + length vs \<le> 2 ^ unat sh"
  shows "\<exists>s1. set_leaves_from ops s a vs = Some s1 \<and> inv s1 \<and> op_height ops s1 = op_height ops s \<and>
    (\<forall>l. valid_key l \<longrightarrow> lev l = ht s \<longrightarrow> is_anc (Node_Key (op_height ops s - sh) j) l \<longrightarrow>
       vals s1 l = write_leaves f (unat a) vs (unat (nk_index l))) \<and>
    (\<forall>k. \<not> is_anc (Node_Key (op_height ops s - sh) j) k \<longrightarrow> vals s1 k = vals s k) \<and>
    (\<forall>k. nk_level k \<noteq> op_height ops s \<longrightarrow> vals s1 k = vals s k)"
proof -
  have h: "ht s \<le> 63" using height_le assms(1) by blast
  have "unat a + length vs \<le> 2 ^ ht s" using block_bound[OF assms(3,2)] assms(4,5) by simp
  hence "unat a + length vs \<le> 2 ^ 63" using pow63[OF h] by simp
  then obtain s1 where s1: "set_leaves_from ops s a vs = Some s1" "inv s1" "op_height ops s1 = op_height ops s"
      "\<And>k. vals s1 k = (if nk_level k = op_height ops s
           then write_leaves (\<lambda>i. vals s k) (unat a) vs (unat (nk_index k)) else vals s k)"
    using set_leaves_stores[of s a vs] assms(1) by auto
  have leaf: "vals s1 l = write_leaves f (unat a) vs (unat (nk_index l))" if "valid_key l" "lev l = ht s" for l
  proof -
    have "nk_level l = op_height ops s" using that(2) by (simp add: iffD2[OF word_unat_eq_iff])
    moreover have "vals s l = f (unat (nk_index l))"
      using tree_repD[OF conjunct2[OF assms(1)] that(1)] that(2) by (simp add: node_val_def)
    ultimately show ?thesis using s1(4)[of l] by (simp add: write_leaves_def)
  qed
  have out: "vals s1 k = vals s k" if "\<not> is_anc (Node_Key (op_height ops s - sh) j) k" for k
  proof (cases "nk_level k = op_height ops s")
    case True
    have "\<not> (unat j * 2 ^ unat sh \<le> unat (nk_index k) \<and> unat (nk_index k) < unat j * 2 ^ unat sh + 2 ^ unat sh)"
      using that unfolding sub_leaf_anc[OF assms(2) True] block_div .
    hence "\<not> (unat a \<le> unat (nk_index k) \<and> unat (nk_index k) < unat a + length vs)"
      using assms(4,5) by linarith
    thus ?thesis using s1(4)[of k] True by (auto simp: write_leaves_def)
  qed (use s1(4)[of k] in simp)
  show ?thesis using s1(1-3) leaf out s1(4) by auto
qed

lemma write_outside:
  assumes "unat a = unat j * 2 ^ n + off" "off + length vs \<le> 2 ^ n" "i div 2 ^ n \<noteq> unat j"
  shows "f i = write_leaves f (unat a) vs i"
proof -
  have "\<not> (unat j * 2 ^ n \<le> i \<and> i < unat j * 2 ^ n + 2 ^ n)" using assms(3) unfolding block_div .
  hence "\<not> (unat a \<le> i \<and> i < unat a + length vs)" using assms(1,2) by linarith
  thus ?thesis by (auto simp: write_leaves_def)
qed

lemma update_sub_tree_stores:
  assumes "stores s f" "unat sh \<le> ht s" "unat j < 2 ^ (ht s - unat sh)" "unat off + length vs \<le> 2 ^ unat sh"
  shows "\<exists>s'. tr_update_sub_tree ops t s sh j off vs =
      Some (Inr (mnode t (write_leaves f (unat j * 2 ^ unat sh + unat off) vs) (unat sh) (unat j)), s') \<and>
    op_height ops s' = op_height ops s \<and>
    stores s' (write_leaves f (unat j * 2 ^ unat sh + unat off) vs)"
proof -
  have h: "ht s \<le> 63" using height_le assms(1) by blast
  have sh64: "unat sh < 64" using h assms(2) by simp
  let ?a = "shl64 1 (unat sh) * j + off"
  have b: "unat j * 2 ^ unat sh + 2 ^ unat sh \<le> 2 ^ 63"
    using block_bound[OF assms(3,2)] pow63[OF h] by simp
  have a: "unat ?a = unat j * 2 ^ unat sh + unat off"
    using unat_pow_shift[OF assms(2) h assms(3)] unat_add_small[of "shl64 1 (unat sh) * j" off] b assms(4) by simp
  have "(2::nat) ^ unat sh \<le> 2 ^ 63" using pow63[of "unat sh"] sh64 by simp
  hence len: "unat off + length vs \<le> 2 ^ 63" using assms(4) by simp
  hence o: "unat (off + of_nat (length vs)) = unat off + length vs"
    using unat_add_small[of off "of_nat (length vs)"] by (simp add: unat_of_nat)
  have p: "unat (shl64 1 (unat sh) :: u64) = 2 ^ unat sh"
    using sh64 unat_pow2_u64[of "unat sh"] by (simp add: push_bit_eq_mult)
  have chk: "\<not> off + of_nat (length vs) > shl64 1 (unat sh)"
    unfolding word_less_nat_alt o p using assms(4) by simp
  obtain s1 where s1: "set_leaves_from ops s ?a vs = Some s1" "inv s1" "op_height ops s1 = op_height ops s"
    "\<And>l. valid_key l \<Longrightarrow> lev l = ht s \<Longrightarrow> is_anc (Node_Key (op_height ops s - sh) j) l \<Longrightarrow>
       vals s1 l = write_leaves f (unat ?a) vs (unat (nk_index l))"
    "\<And>k. \<not> is_anc (Node_Key (op_height ops s - sh) j) k \<Longrightarrow> vals s1 k = vals s k"
    using write_sub_tree[OF assms(1-3) a assms(4)] by blast
  have "\<exists>s'. tr_rehash_sub_tree ops t s1 sh j = Some (mnode t (write_leaves f (unat ?a) vs) (unat sh) (unat j), s') \<and>
      op_height ops s' = op_height ops s1 \<and> stores s' (write_leaves f (unat ?a) vs)"
    by (rule rehash_sub_tree_stores[OF assms(1) s1(2,3)])
      (use assms(2,3) s1(3,4,5) write_outside[OF a assms(4)] in auto)
  thus ?thesis using s1(1,3) chk a unfolding tr_update_sub_tree_def Let_def by auto
qed

section \<open>Replacing a subtree\<close>

lemma get_all_vals:
  "inv s \<Longrightarrow> \<forall>k \<in> set ks. lev k \<le> ht s \<Longrightarrow> get_all ops s ks = Some (map (vals s) ks)"
  by (induction ks) (auto simp: get_law)

lemma siblings_walk_levels: "x \<in> set (siblings_walk n k) \<Longrightarrow> lev x \<le> lev k"
proof (induction n arbitrary: k)
  case (Suc n)
  thus ?case using Suc.IH[of "parent k"] by (auto simp: lev_parent)
qed simp

lemma zero_leaf: "inv s \<Longrightarrow> op_zero ops s (op_height ops s) = Some z"
  using zero_law[of s "op_height ops s"] get_zero_0 by simp

lemma set_sub_tree_stores:
  assumes "stores s f" "0 < unat sh" "unat sh \<le> ht s" "unat j < 2 ^ (ht s - unat sh)"
    "length ls = 2 ^ unat sh"
  defines "g \<equiv> write_leaves f (unat j * 2 ^ unat sh) ls"
  shows "\<exists>s'. tr_set_sub_tree_dmp ops t s sh j ls =
      Some (Inr \<lparr>dmp_old_root = mnode t f (ht s) 0, dmp_old_value = mnode t f (unat sh) (unat j),
                 dmp_new_root = mnode t g (ht s) 0, dmp_new_value = mnode t g (unat sh) (unat j),
                 dmp_index = j,
                 dmp_siblings = ref_siblings t (mnode t f (unat sh)) (unat j) 0 (ht s - unat sh)\<rparr>, s') \<and>
    op_height ops s' = op_height ops s \<and> stores s' g"
proof -
  have h: "ht s \<le> 63" using height_le assms(1) by blast
  let ?r = "Node_Key (op_height ops s - sh) j"
  let ?a = "shl64 1 (unat sh) * j"
  have lr: "lev ?r = ht s - unat sh" using sub_root_level[OF assms(3)] by simp
  have vr: "valid_key ?r" using lr assms(4) h by (simp add: valid_key_iff)
  have a: "unat ?a = unat j * 2 ^ unat sh + 0" using unat_pow_shift[OF assms(3) h assms(4)] by simp
  have l0: "0 + length ls \<le> 2 ^ unat sh" using assms(5) by simp
  obtain s1 where s1: "set_leaves_from ops s ?a ls = Some s1" "inv s1" "op_height ops s1 = op_height ops s"
    "\<And>l. valid_key l \<Longrightarrow> lev l = ht s \<Longrightarrow> is_anc ?r l \<Longrightarrow> vals s1 l = g (unat (nk_index l))"
    "\<And>k. \<not> is_anc ?r k \<Longrightarrow> vals s1 k = vals s k" "\<And>k. nk_level k \<noteq> op_height ops s \<Longrightarrow> vals s1 k = vals s k"
    using write_sub_tree[OF assms(1,3,4) a l0] a unfolding g_def by auto
  have same: "op_get ops s1 k = op_get ops s k" if "lev k \<le> ht s - unat sh" for k
  proof -
    have "lev k < ht s" "nk_level k \<noteq> op_height ops s" using that assms(2,3) by auto
    thus ?thesis using s1(6)[of k] s1(2,3) get_law[of s1 k] get_law[of s k] assms(1) by auto
  qed
  have "get_all ops s1 (siblings ?r) = get_all ops s (siblings ?r)"
  proof -
    have lv: "lev k \<le> ht s - unat sh" if "k \<in> set (siblings ?r)" for k
      using siblings_walk_levels[of k _ ?r] that lr unfolding siblings_def by simp
    hence "vals s1 k = vals s k" if "k \<in> set (siblings ?r)" for k
      using that assms(2,3) by (intro s1(6)) fastforce
    thus ?thesis using get_all_vals[of s1 "siblings ?r"] get_all_vals[of s "siblings ?r"] lv s1(2,3) assms(1,3)
      by fastforce
  qed
  hence sibs: "get_all ops s1 (siblings ?r) = Some (ref_siblings t (mnode t f (unat sh)) (unat j) 0 (ht s - unat sh))"
    using sub_siblings_stores[OF assms(1) vr] lr assms(3) by simp
  have "\<exists>s'. tr_rehash_sub_tree ops t s1 sh j = Some (mnode t g (unat sh) (unat j), s') \<and>
      op_height ops s' = op_height ops s1 \<and> stores s' g"
    by (rule rehash_sub_tree_stores[OF assms(1) s1(2,3)])
      (use assms(3,4) s1(3,4,5) write_outside[OF a l0, of _ f] a in \<open>auto simp: g_def\<close>)
  then obtain s2 where s2: "tr_rehash_sub_tree ops t s1 sh j = Some (mnode t g (unat sh) (unat j), s2)"
      "op_height ops s2 = op_height ops s" "stores s2 g" using s1(3) by auto
  have v: "op_get ops s1 ?r = Some (mnode t f (unat sh) (unat j))"
    using same[of ?r] lr get_law[of s ?r] tree_repD[OF conjunct2[OF assms(1)] vr] assms(1,3) by (simp add: node_val_def)
  have v2: "op_get ops s2 ?r = Some (mnode t g (unat sh) (unat j))"
    using lr get_law[of s2 ?r] tree_repD[OF conjunct2[OF s2(3)] vr] s2(2,3) assms(3) by (simp add: node_val_def)
  have r1: "tr_get_root ops s1 = Some (mnode t f (ht s) 0)"
    using same[of new_root] get_root_stores[OF assms(1)] by (simp add: tr_get_root_def new_root_def)
  have m: "unat sh mod 64 = unat sh" using assms(3) h by simp
  show ?thesis using s1(1,3) s2 v v2 r1 sibs get_root_stores[OF s2(3)] assms(5)
    unfolding tr_set_sub_tree_dmp_def Let_def tr_rehash_sub_tree_dmp_def m by simp
qed

lemma set_sub_tree_verifies:
  assumes "inv s" "unat sh \<le> ht s" "unat j < 2 ^ (ht s - unat sh)"
    "\<And>i. i div 2 ^ unat sh \<noteq> unat j \<Longrightarrow> f i = g i"
  shows "dmp_verify t \<lparr>dmp_old_root = mnode t f (ht s) 0, dmp_old_value = mnode t f (unat sh) (unat j),
                 dmp_new_root = mnode t g (ht s) 0, dmp_new_value = mnode t g (unat sh) (unat j),
                 dmp_index = j,
                 dmp_siblings = ref_siblings t (mnode t f (unat sh)) (unat j) 0 (ht s - unat sh)\<rparr>"
proof -
  have e: "mnode t f (unat sh) i = mnode t g (unat sh) i" if "i \<noteq> unat j" for i
  proof (rule mnode_cong, rule assms(4))
    fix n assume "i * 2 ^ unat sh \<le> n" "n < (i + 1) * 2 ^ unat sh"
    hence "n div 2 ^ unat sh = i" unfolding block_div by simp
    thus "n div 2 ^ unat sh \<noteq> unat j" using that by simp
  qed
  have "mnode t (mnode t e (unat sh)) (ht s - unat sh) 0 = mnode t e (ht s) 0" for e
    using assms(2) by (simp add: mnode_compose)
  thus ?thesis using dmp_verify_update[of "ht s - unat sh" j "mnode t f (unat sh)" "mnode t g (unat sh)" t]
      e assms(3) height_le[OF assms(1)] by simp
qed

section \<open>The first empty leaf\<close>

lemma find_first_zero_stores:
  assumes "stores s f" "zero_preimage_free t z" "valid_key k" "lev k \<le> ht s"
  shows "tr_find_first_zero_leaf_index ops s k =
    Some (map_option of_nat (find (\<lambda>i. f i = z)
      [unat (nk_index k) * 2 ^ (ht s - lev k)..<unat (nk_index k) * 2 ^ (ht s - lev k) + 2 ^ (ht s - lev k)]))"
  using assms(3,4)
proof (induction "ht s - lev k" arbitrary: k)
  case 0
  hence l: "nk_level k = op_height ops s" by (simp add: iffD2[OF word_unat_eq_iff])
  have v: "op_get ops s k = Some (f (unat (nk_index k)))"
    using get_law[of s k] tree_repD[OF conjunct2[OF assms(1)] 0(2,3)] assms(1) l by (simp add: node_val_def)
  have zl: "op_zero ops s (op_height ops s) = Some z" using zero_leaf assms(1) by simp
  show ?case
    by (subst tr_find_first_zero_leaf_index.simps) (simp add: v zl l first_leaf_child_def)
next
  case (Suc n)
  let ?j = "unat (nk_index k)" and ?n = "ht s - lev k"
  have h: "ht s \<le> 63" using height_le assms(1) by blast
  have l: "nk_level k \<noteq> op_height ops s" "lev k < 64" "\<not> nk_level k \<ge> op_height ops s"
    using Suc.hyps(2) h by (auto simp: word_le_nat_alt)
  have v: "op_get ops s k = Some (mnode t f ?n ?j)"
    using get_law[of s k] tree_repD[OF conjunct2[OF assms(1)] Suc.prems(1,2)] assms(1) Suc.prems(2) by (simp add: node_val_def)
  have zl: "op_zero ops s (nk_level k) = Some (zero_at t z ?n)"
    using zero_law[of s "nk_level k"] assms(1) Suc.prems(2) get_zero by simp
  show ?case
  proof (cases "mnode t f ?n ?j = zero_at t z ?n")
    case True
    hence fz: "f (?j * 2 ^ ?n) = z" unfolding zero_node_leaves[OF assms(2)] by simp
    have "[?j * 2 ^ ?n..<?j * 2 ^ ?n + 2 ^ ?n] = ?j * 2 ^ ?n # [Suc (?j * 2 ^ ?n)..<?j * 2 ^ ?n + 2 ^ ?n]"
      by (rule upt_conv_Cons) simp
    hence fd: "find (\<lambda>i. f i = z) [?j * 2 ^ ?n..<?j * 2 ^ ?n + 2 ^ ?n] = Some (?j * 2 ^ ?n)" using fz by simp
    have "unat (op_height ops s - nk_level k) = ?n" using sub_root_level[OF Suc.prems(2)] .
    hence "nk_index (first_leaf_child k (op_height ops s)) = of_nat (?j * 2 ^ ?n)"
      using l(3) h by (simp add: first_leaf_child_def push_bit_eq_mult)
    thus ?thesis unfolding fd
      by (subst tr_find_first_zero_leaf_index.simps) (simp add: v zl True)
  next
    case False
    note lc = lev_child[OF l(2)] and uc = unat_child[OF Suc.prems(1) l(2)] and vc = child_valid[OF Suc.prems(1) l(2)]
    have n: "n = ht s - lev (left_child k)" "n = ht s - lev (right_child k)" "?n = Suc n"
      using Suc.hyps(2) lc by auto
    have lv: "lev (left_child k) \<le> ht s" "lev (right_child k) \<le> ht s" using Suc.hyps(2) lc by auto
    have sp: "[?j * 2 ^ ?n..<?j * 2 ^ ?n + 2 ^ ?n] =
        [2 * ?j * 2 ^ n..<2 * ?j * 2 ^ n + 2 ^ n] @ [(2 * ?j + 1) * 2 ^ n..<(2 * ?j + 1) * 2 ^ n + 2 ^ n]"
      using upt_add_eq_append[of "?j * 2 ^ ?n" "?j * 2 ^ ?n + 2 ^ n" "2 ^ n"] unfolding n(3)
      by (simp add: algebra_simps)
    note left = Suc.hyps(1)[OF n(1) vc(1) lv(1), folded n(1), unfolded uc(1)]
      and right = Suc.hyps(1)[OF n(2) vc(2) lv(2), folded n(2), unfolded uc(2)]
    show ?thesis unfolding sp find_append
      by (subst tr_find_first_zero_leaf_index.simps)
        (simp add: v zl False l left right del: mult_Suc mult_Suc_right split: option.splits)
  qed
qed

section \<open>Appending\<close>

text \<open>One step of the append: the subtree \<open>j\<close> gets the leaves \<open>ls\<close>, \<open>old\<close> being its leaves before.\<close>

lemma spider_step:
  assumes "stores s f" "0 < unat sh" "unat sh \<le> ht s" "unat j < 2 ^ (ht s - unat sh)"
    "length ls = 2 ^ unat sh" "length old = 2 ^ unat sh"
    "\<And>i. i < 2 ^ unat sh \<Longrightarrow> old ! i = f (unat j * 2 ^ unat sh + i)"
  defines "g \<equiv> write_leaves f (unat j * 2 ^ unat sh) ls"
  shows "\<exists>p s'. tr_set_sub_tree_dmp ops t s sh j ls = Some (Inr p, s') \<and> op_height ops s' = op_height ops s \<and>
    stores s' g \<and> dmp_old_root p = mnode t f (ht s) 0 \<and> dmp_new_root p = mnode t g (ht s) 0 \<and>
    spiderman_verify t \<lparr>top_line_proof = p, web_proof_old_leaves = old, web_proof_new_leaves = ls\<rparr> = Some True"
proof -
  let ?p = "\<lparr>dmp_old_root = mnode t f (ht s) 0, dmp_old_value = mnode t f (unat sh) (unat j),
                 dmp_new_root = mnode t g (ht s) 0, dmp_new_value = mnode t g (unat sh) (unat j),
                 dmp_index = j,
                 dmp_siblings = ref_siblings t (mnode t f (unat sh)) (unat j) 0 (ht s - unat sh)\<rparr>"
  obtain s' where s': "tr_set_sub_tree_dmp ops t s sh j ls = Some (Inr ?p, s')" "op_height ops s' = op_height ops s"
      "stores s' g" using set_sub_tree_stores[OF assms(1-5)] unfolding g_def by blast
  have out: "f i = g i" if "i div 2 ^ unat sh \<noteq> unat j" for i
    unfolding g_def write_leaves_def using that assms(5) block_div[of i "unat sh" "unat j"] by auto
  have "dmp_verify t ?p" using set_sub_tree_verifies[OF _ assms(3,4) out] assms(1) by simp
  moreover have "mnode t ((!) old) (unat sh) 0 = mnode t f (unat sh) (unat j)"
    by (rule mnode_block_list) (use assms in auto)
  moreover have "mnode t ((!) ls) (unat sh) 0 = mnode t g (unat sh) (unat j)"
    unfolding g_def by (rule mnode_block_list[OF assms(5)]) (rule nth_block_write[OF assms(5)])
  ultimately have "spiderman_verify t \<lparr>top_line_proof = ?p, web_proof_old_leaves = old, web_proof_new_leaves = ls\<rparr> = Some True"
    unfolding spiderman_verify_iff by (intro exI[of _ "unat sh"]) (simp add: assms)
  thus ?thesis using s' by (intro exI[of _ ?p] exI[of _ s']) simp
qed

lemma block_free:
  fixes j :: nat
  assumes "unat sh \<le> h" "j * 2 ^ unat sh + n \<le> 2 ^ h" "0 < n"
  shows "j < 2 ^ (h - unat (sh :: u8))"
proof (rule ccontr)
  assume "\<not> j < 2 ^ (h - unat sh)"
  hence "2 ^ (h - unat sh) * 2 ^ unat sh \<le> j * 2 ^ unat sh" by (intro mult_le_mono1) simp
  hence "2 ^ h \<le> j * 2 ^ unat sh" using assms(1) by (simp add: power_add[symmetric])
  thus False using assms(2,3) by simp
qed

lemma append_chunks_stores:
  assumes "stores s f" "0 < unat sh" "unat sh \<le> ht s" "unat j * 2 ^ unat sh + length xs \<le> 2 ^ ht s"
    "\<And>i. unat j * 2 ^ unat sh \<le> i \<Longrightarrow> f i = z"
  shows "\<exists>ps s'. tr_append_chunks ops t sh z s j xs = Some (Inr ps, s') \<and> op_height ops s' = op_height ops s \<and>
    stores s' (write_leaves f (unat j * 2 ^ unat sh) xs) \<and>
    spider_chain t (mnode t f (ht s) 0) ps (mnode t (write_leaves f (unat j * 2 ^ unat sh) xs) (ht s) 0)"
  using assms
proof (induction "length xs" arbitrary: xs s f j rule: less_induct)
  case less
  show ?case
  proof (cases "xs = []")
    case True
    thus ?thesis using less.prems(1) by (simp add: tr_append_chunks.simps)
  next
    case False
    let ?n = "2 ^ unat sh :: nat" and ?a = "unat j * 2 ^ unat sh"
    have h: "ht s \<le> 63" using height_le less.prems(1) by blast
    have m: "unat sh mod 64 = unat sh" using less.prems(3) h by simp
    have j: "unat j < 2 ^ (ht s - unat sh)"
      using block_free[OF less.prems(3,4)] False by simp
    let ?new = "resize ?n z (take ?n xs)" and ?old = "replicate ?n z"
    have ln: "length ?new = ?n" by (simp add: resize_def)
    have tl: "length (take ?n xs) \<le> ?n" by simp
    have new: "write_leaves f ?a ?new = write_leaves f ?a (take ?n xs)"
      unfolding resize_shorter[OF tl]
      by (rule write_leaves_pad) (use less.prems(5) in auto)
    have lo: "length ?old = 2 ^ unat sh" by simp
    have old: "?old ! i = f (?a + i)" if "i < 2 ^ unat sh" for i using that less.prems(5)[of "?a + i"] by simp
    obtain p s1 where s1: "tr_set_sub_tree_dmp ops t s sh j ?new = Some (Inr p, s1)" "op_height ops s1 = op_height ops s"
      "stores s1 (write_leaves f ?a (take ?n xs))" "dmp_old_root p = mnode t f (ht s) 0"
      "dmp_new_root p = mnode t (write_leaves f ?a (take ?n xs)) (ht s) 0"
      "spiderman_verify t \<lparr>top_line_proof = p, web_proof_old_leaves = ?old, web_proof_new_leaves = ?new\<rparr> = Some True"
      using spider_step[OF less.prems(1-3) j ln lo old] unfolding new by blast
    have j1: "unat (j + 1) = Suc (unat j)" using index_succ[OF j h] .
    have "\<exists>ps s'. tr_append_chunks ops t sh z s1 (j + 1) (drop ?n xs) = Some (Inr ps, s') \<and>
        op_height ops s' = op_height ops s1 \<and>
        stores s' (write_leaves (write_leaves f ?a (take ?n xs)) (unat (j + 1) * 2 ^ unat sh) (drop ?n xs)) \<and>
        spider_chain t (mnode t (write_leaves f ?a (take ?n xs)) (ht s1) 0) ps
          (mnode t (write_leaves (write_leaves f ?a (take ?n xs)) (unat (j + 1) * 2 ^ unat sh) (drop ?n xs)) (ht s1) 0)"
    proof (rule less.hyps[OF _ s1(3) less.prems(2)])
      show "length (drop ?n xs) < length xs" using False by simp
      show "unat sh \<le> ht s1" using less.prems(3) s1(2) by simp
      have "j * 2 ^ k + (length xs - 2 ^ k) + 2 ^ k \<le> b" if "j * 2 ^ k + length xs \<le> b" "j * 2 ^ k + 2 ^ k \<le> b"
        for j k b :: nat using that by simp
      from this[OF less.prems(4) block_bound[OF j less.prems(3)]]
      show "unat (j + 1) * 2 ^ unat sh + length (drop ?n xs) \<le> 2 ^ ht s1" unfolding j1 s1(2) by simp
      show "write_leaves f ?a (take ?n xs) i = z" if "unat (j + 1) * 2 ^ unat sh \<le> i" for i
        using that unfolding j1 by (intro write_leaves_zero_after less.prems(5)) auto
    qed
    moreover have "write_leaves (write_leaves f ?a (take ?n xs)) (unat (j + 1) * 2 ^ unat sh) (drop ?n xs) = write_leaves f ?a xs"
    proof (cases "?n \<le> length xs")
      case True
      hence "unat (j + 1) * 2 ^ unat sh = ?a + length (take ?n xs)" unfolding j1 by simp
      thus ?thesis using write_leaves_append[of f ?a "take ?n xs" "drop ?n xs"] by simp
    qed simp
    ultimately obtain ps s' where ps: "tr_append_chunks ops t sh z s1 (j + 1) (drop ?n xs) = Some (Inr ps, s')"
        "op_height ops s' = op_height ops s" "stores s' (write_leaves f ?a xs)"
        "spider_chain t (mnode t (write_leaves f ?a (take ?n xs)) (ht s) 0) ps (mnode t (write_leaves f ?a xs) (ht s) 0)"
      using s1(2) by auto
    show ?thesis using False s1 ps unfolding tr_append_chunks.simps[of ops t sh z s j xs] m by (simp add: Let_def)
  qed
qed

lemma leaf_values_stores:
  assumes "stores s f"
  shows "unat a + n \<le> 2 ^ ht s \<Longrightarrow> tr_leaf_values ops s a n = Some (map f [unat a..<unat a + n])"
proof (induction n arbitrary: a)
  case (Suc n)
  have h: "ht s \<le> 63" using height_le assms by blast
  have "unat a + 1 < 2 ^ 64" using Suc.prems pow63[OF h] by simp
  hence a1: "unat (a + 1) = Suc (unat a)" using unat_add_small[of a 1] by simp
  have "unat a < 2 ^ ht s" using Suc.prems by simp
  thus ?case using Suc.IH[of "a + 1"] Suc.prems get_leaf_value_stores[OF assms, of a] unfolding a1
    by (simp add: upt_conv_Cons del: upt_Suc)
qed simp

text \<open>The leaves are used up to \<open>m\<close> and empty from there.\<close>

lemma find_next_stores:
  assumes "stores s f" "zero_preimage_free t z" "\<And>i. f i = z \<longleftrightarrow> m \<le> i"
  shows "tr_find_next_append_index ops s = Some (if m < 2 ^ ht s then Inr (of_nat m) else Inl Tree_Is_Full)"
proof -
  have "find (\<lambda>i. f i = z) [0..<n] = (if m < n then Some m else None)" for n
  proof (induction n)
    case (Suc n)
    thus ?case by (auto simp: find_append assms(3))
  qed simp
  moreover have "valid_key new_root" by (simp add: valid_key_iff new_root_def)
  ultimately show ?thesis using find_first_zero_stores[OF assms(1,2), of new_root]
    by (simp add: tr_find_next_append_index_def new_root_def)
qed

lemma append_stores:
  assumes "stores s f" "zero_preimage_free t z" "\<And>i. f i = z \<longleftrightarrow> m \<le> i"
    "0 < unat sh" "unat sh \<le> ht s" "m + length xs \<le> 2 ^ ht s"
  shows "\<exists>ps s'. tr_append_leaves_spider_man ops t s sh xs = Some (Inr ps, s') \<and> op_height ops s' = op_height ops s \<and>
    stores s' (write_leaves f m xs) \<and>
    spider_chain t (mnode t f (ht s) 0) ps (mnode t (write_leaves f m xs) (ht s) 0)"
proof (cases "xs = []")
  case True
  thus ?thesis using assms(1) by (simp add: tr_append_leaves_spider_man_def)
next
  case False
  let ?n = "2 ^ unat sh :: nat"
  have h: "ht s \<le> 63" using height_le assms(1) by blast
  have sm: "unat sh mod 64 = unat sh" using assms(5) h by simp
  have mlt: "m < 2 ^ ht s" using assms(6) False by (cases xs) auto
  have m63: "m < 2 ^ 63" "m + length xs \<le> 2 ^ 63" using mlt assms(6) pow63[OF h] by simp_all
  have um: "unat (of_nat m :: u64) = m" using m63 by (simp add: unat_of_nat)
  have un: "unat (of_nat ?n :: u64) = ?n" using unat_pow2_u64[of "unat sh"] assms(5) h by simp
  have ul: "unat (of_nat m + of_nat (length xs) :: u64) = m + length xs"
    using m63 unat_add_small[of "of_nat m" "of_nat (length xs)"] by (simp add: unat_of_nat)
  have uh: "unat (shl64 1 (ht s) :: u64) = 2 ^ ht s" using unat_pow2_u64[of "ht s"] h by (simp add: push_bit_eq_mult)
  have chk: "\<not> (of_nat m + of_nat (length xs) :: u64) > shl64 1 (ht s)"
    unfolding word_less_nat_alt ul uh using assms(6) by simp
  define j where "j = (of_nat m :: u64) div of_nat ?n"
  define r where "r = m mod ?n"
  have uj: "unat j = m div ?n" unfolding j_def unat_div um un ..
  have ur: "unat (of_nat m mod of_nat ?n :: u64) = r" unfolding r_def unat_mod um un ..
  have mjr: "m = unat j * ?n + r" unfolding uj r_def by (rule div_mult_mod_eq[symmetric])
  have rn: "r < ?n" unfolding r_def by simp
  have jlt: "unat j < 2 ^ (ht s - unat sh)"
    by (rule block_free[OF assms(5), of _ 1]) (use mlt mjr in auto)
  have us: "unat (j * of_nat ?n) = unat j * ?n"
    using unat_pow_shift[OF assms(5) h jlt] assms(5) h by (simp add: push_bit_eq_mult mult.commute)
  have zl: "op_zero ops s (op_height ops s) = Some z" using zero_leaf assms(1) by blast
  let ?ex = "map f [unat j * ?n..<unat j * ?n + r]"
  have ex: "tr_leaf_values ops s (j * of_nat ?n) r = Some ?ex"
    using leaf_values_stores[OF assms(1), of "j * of_nat ?n" r] mlt mjr unfolding us by simp
  let ?k = "min (?n - r) (length xs)"
  let ?old = "resize ?n z ?ex" and ?new = "resize ?n z (?ex @ take ?k xs)"
  have lens: "length ?new = ?n" "length ?old = ?n" by (simp_all add: resize_def)
  have oldv: "?old ! i = f (unat j * ?n + i)" if "i < ?n" for i
    using that rn assms(3)[of "unat j * ?n + i"] mjr
    by (auto simp: resize_shorter nth_append)
  have g: "write_leaves f (unat j * ?n) ?new = write_leaves f m (take ?k xs)"
  proof -
    have l: "length (?ex @ take ?k xs) \<le> ?n" using rn by simp
    have "write_leaves f (unat j * ?n) ?new = write_leaves f (unat j * ?n) (?ex @ take ?k xs)"
      unfolding resize_shorter[OF l] by (rule write_leaves_pad) (use assms(3) mjr in auto)
    also have "\<dots> = write_leaves f (unat j * ?n + r) (take ?k xs)" by (rule write_leaves_existing)
    finally show ?thesis unfolding mjr[symmetric] .
  qed
  obtain p s1 where s1: "tr_set_sub_tree_dmp ops t s sh j ?new = Some (Inr p, s1)" "op_height ops s1 = op_height ops s"
    "stores s1 (write_leaves f m (take ?k xs))" "dmp_old_root p = mnode t f (ht s) 0"
    "dmp_new_root p = mnode t (write_leaves f m (take ?k xs)) (ht s) 0"
    "spiderman_verify t \<lparr>top_line_proof = p, web_proof_old_leaves = ?old, web_proof_new_leaves = ?new\<rparr> = Some True"
    using spider_step[OF assms(1,4,5) jlt lens oldv] unfolding g by blast
  have j1: "unat (j + 1) = Suc (unat j)" using index_succ[OF jlt h] .
  have bd: "unat j * ?n + ?n \<le> 2 ^ ht s" using block_bound[OF jlt assms(5)] .
  have "\<exists>ps s'. tr_append_chunks ops t sh z s1 (j + 1) (drop ?k xs) = Some (Inr ps, s') \<and> op_height ops s' = op_height ops s1 \<and>
    stores s' (write_leaves (write_leaves f m (take ?k xs)) (unat (j + 1) * ?n) (drop ?k xs)) \<and>
    spider_chain t (mnode t (write_leaves f m (take ?k xs)) (ht s1) 0) ps
      (mnode t (write_leaves (write_leaves f m (take ?k xs)) (unat (j + 1) * ?n) (drop ?k xs)) (ht s1) 0)"
  proof (rule append_chunks_stores[OF s1(3) assms(4)])
    show "unat sh \<le> ht s1" using assms(5) s1(2) by simp
    have "unat j * ?n + ?n + length (drop ?k xs) \<le> 2 ^ ht s"
      using bd assms(6) mjr rn unfolding length_drop by (cases "?n - r \<le> length xs") auto
    thus "unat (j + 1) * ?n + length (drop ?k xs) \<le> 2 ^ ht s1" unfolding j1 s1(2) by simp
    show "write_leaves f m (take ?k xs) i = z" if "unat (j + 1) * ?n \<le> i" for i
    proof (rule write_leaves_zero_after[of m])
      show "m + length (take ?k xs) \<le> i" using that mjr rn unfolding j1 by simp
    qed (use assms(3) in auto)
  qed
  moreover have "write_leaves (write_leaves f m (take ?k xs)) (unat (j + 1) * ?n) (drop ?k xs) = write_leaves f m xs"
  proof (cases "?n - r \<le> length xs")
    case True
    hence "unat (j + 1) * ?n = m + length (take ?k xs)" using mjr rn unfolding j1 by simp
    thus ?thesis using write_leaves_append[of f m "take ?k xs" "drop ?k xs"] by simp
  qed simp
  ultimately obtain ps s' where ps: "tr_append_chunks ops t sh z s1 (j + 1) (drop ?k xs) = Some (Inr ps, s')"
      "op_height ops s' = op_height ops s" "stores s' (write_leaves f m xs)"
      "spider_chain t (mnode t (write_leaves f m (take ?k xs)) (ht s) 0) ps (mnode t (write_leaves f m xs) (ht s) 0)"
    using s1(2) by auto
  have nx: "tr_find_next_append_index ops s = Some (Inr (of_nat m))"
    using find_next_stores[OF assms(1-3)] mlt by simp
  have "tr_append_leaves_spider_man ops t s sh xs =
      Some (Inr (\<lparr>top_line_proof = p, web_proof_old_leaves = ?old, web_proof_new_leaves = ?new\<rparr> # ps), s')"
    using False chk s1(1) ps(1) zl ex
    by (simp add: tr_append_leaves_spider_man_def Let_def sm nx j_def[symmetric] ur del: of_nat_power)
  thus ?thesis using s1 ps by simp
qed

lemma append_errors:
  assumes "stores s f" "zero_preimage_free t z" "\<And>i. f i = z \<longleftrightarrow> m \<le> i"
    "2 ^ ht s < m + length xs" "length xs < 2 ^ 63" "xs \<noteq> []"
  shows "tr_append_leaves_spider_man ops t s sh xs =
    Some (Inl (if m < 2 ^ ht s then Tree_Cannot_Fit (length xs) else Tree_Is_Full), s)"
proof (cases "m < 2 ^ ht s")
  case True
  have h: "ht s \<le> 63" using height_le assms(1) by blast
  have m63: "m < 2 ^ 63" using True pow63[OF h] by simp
  have ul: "unat (of_nat m + of_nat (length xs) :: u64) = m + length xs"
    using m63 assms(5) unat_add_small[of "of_nat m" "of_nat (length xs)"] by (simp add: unat_of_nat)
  have uh: "unat (shl64 1 (ht s) :: u64) = 2 ^ ht s" using unat_pow2_u64[of "ht s"] h by (simp add: push_bit_eq_mult)
  have chk: "(of_nat m + of_nat (length xs) :: u64) > shl64 1 (ht s)"
    unfolding word_less_nat_alt ul uh using assms(4) .
  show ?thesis using find_next_stores[OF assms(1-3)] True chk assms(6)
    by (simp add: tr_append_leaves_spider_man_def Let_def)
next
  case False
  thus ?thesis using find_next_stores[OF assms(1-3)] assms(6)
    by (simp add: tr_append_leaves_spider_man_def Let_def)
qed

lemma update_error:
  assumes "inv s" "unat sh < 64" "2 ^ unat sh < unat off + length vs" "unat off + length vs < 2 ^ 64"
  shows "tr_update_sub_tree ops t s sh j off vs = Some (Inl Update_Exceeds_Sub_Tree, s)"
proof -
  have o: "unat (off + of_nat (length vs)) = unat off + length vs"
    using assms(4) unat_add_small[of off "of_nat (length vs)"] by (simp add: unat_of_nat)
  have p: "unat (shl64 1 (unat sh) :: u64) = 2 ^ unat sh"
    using assms(2) unat_pow2_u64[of "unat sh"] by (simp add: push_bit_eq_mult)
  have "off + of_nat (length vs) > shl64 1 (unat sh)" unfolding word_less_nat_alt o p using assms(3) .
  thus ?thesis by (simp add: tr_update_sub_tree_def)
qed

text \<open>With a subtree of height 0 the old value is read after the write.\<close>

lemma set_sub_tree_height_0:
  assumes "stores s f" "unat j < 2 ^ ht s"
  shows "\<exists>p s'. tr_set_sub_tree_dmp ops t s 0 j [v] = Some (Inr p, s') \<and> dmp_old_value p = v"
proof -
  let ?k = "Node_Key (op_height ops s) j"
  obtain s1 where s1: "op_set ops s ?k v = Some s1" "inv s1" "op_height ops s1 = op_height ops s"
      "almost t (ht s1) (vals s1) (f(unat j := v)) ?k" using set_leaf_almost[OF assms] by blast
  have vk: "valid_key ?k" using leaf_key_valid[OF _ assms(2)] assms(1) by blast
  have vv: "op_get ops s1 ?k = Some v"
    using get_law[OF s1(2), of ?k] s1(3) almostD[OF s1(4) vk] by (simp add: node_val_def)
  have rr: "tr_rehash_recursive ops t s1 ?k = Some (v, s1)"
    by (subst tr_rehash_recursive.simps) (simp add: s1(3) vv)
  obtain s2 where s2: "tr_rehash_from_node_to_level ops t s1 ?k 0 = Some s2" "op_height ops s2 = op_height ops s1"
      "stores s2 (f(unat j := v))" using rehash_up[OF s1(2,4) vk] s1(3) by auto
  have "\<forall>k \<in> set (siblings ?k). lev k \<le> ht s1" using siblings_walk_levels[of _ _ ?k] s1(3) by (auto simp: siblings_def)
  hence sibs: "get_all ops s1 (siblings ?k) = Some (map (vals s1) (siblings ?k))" using get_all_vals[OF s1(2)] by blast
  have root: "\<exists>r. tr_get_root ops s1 = Some r" using get_law[OF s1(2), of new_root] by (simp add: tr_get_root_def new_root_def)
  have "\<exists>w. op_get ops s2 ?k = Some w" using get_law[of s2 ?k] s2(2,3) s1(3) by simp
  thus ?thesis using s1(1,3) vv rr s2(1) sibs root get_root_stores[OF s2(3)]
    by (auto simp: tr_set_sub_tree_dmp_def tr_rehash_sub_tree_dmp_def tr_rehash_sub_tree_def Let_def)
qed

end

end
