(* ===== verification/Store_Paths.thy ===== *)
theory Store_Paths
  imports Store_Batch
begin

text \<open>
  Stores that hold only some paths of a tree: \<open>get_merkle_proofs_for_compact_imm\<close>
  (\<open>src/parth_common/src/memory_stores/dash_tree.rs\<close> and \<open>dash_tree_recorder.rs\<close>, the same code
  over two stores), \<open>injest_merkle_proof\<close> and \<open>get_historical_merkle_proof\<close> of the trait. A path
  is consistent (\<open>path_ok\<close>) when every node above its lower end is the hash of its children.
\<close>

section \<open>The compact proof generator\<close>

fun rehash_each ::
  "('s, 'h) store_ops \<Rightarrow> ('h \<Rightarrow> 'h \<Rightarrow> 'h) \<Rightarrow> 's \<Rightarrow> u64 \<Rightarrow> nat \<Rightarrow> 's option" where
  "rehash_each ops t s from_index 0 = Some s"
| "rehash_each ops t s from_index (Suc n) =
     do { s \<leftarrow> tr_rehash_from_node_to_level ops t s (Node_Key (op_height ops s) from_index) 0;
          rehash_each ops t s (from_index + 1) n }"

fun leaf_proofs :: "('s, 'h) store_ops \<Rightarrow> 's \<Rightarrow> u64 \<Rightarrow> nat \<Rightarrow> 'h merkle_proof list option" where
  "leaf_proofs ops s from_index 0 = Some []"
| "leaf_proofs ops s from_index (Suc n) =
     do { p \<leftarrow> tr_get_leaf ops s from_index; ps \<leftarrow> leaf_proofs ops s (from_index + 1) n; Some (p # ps) }"

definition compact_proofs ::
  "('s, 'h) store_ops \<Rightarrow> ('h \<Rightarrow> 'h \<Rightarrow> 'h) \<Rightarrow> 's \<Rightarrow> u64 \<Rightarrow> 'h list \<Rightarrow> 'h list \<Rightarrow> 'h merkle_proof list option" where
  "compact_proofs ops t tree from_index sibs vs =
     do { (tree, _) \<leftarrow> injest_siblings ops tree (Node_Key (op_height ops tree) from_index) sibs;
          tree \<leftarrow> set_leaves_from ops tree from_index vs;
          tree \<leftarrow> rehash_each ops t tree from_index (length vs);
          leaf_proofs ops tree from_index (length vs) }"

section \<open>Consistent paths\<close>

definition node_ok :: "('h \<Rightarrow> 'h \<Rightarrow> 'h) \<Rightarrow> (node_key \<Rightarrow> 'h) \<Rightarrow> node_key \<Rightarrow> bool" where
  "node_ok t vs p \<longleftrightarrow> vs p = t (vs (left_child p)) (vs (right_child p))"

definition path_ok :: "('h \<Rightarrow> 'h \<Rightarrow> 'h) \<Rightarrow> (node_key \<Rightarrow> 'h) \<Rightarrow> node_key \<Rightarrow> bool" where
  "path_ok t vs k \<longleftrightarrow> (\<forall>p. is_anc p k \<longrightarrow> p \<noteq> k \<longrightarrow> node_ok t vs p)"

text \<open>The strict ancestors of the leaves \<open>a\<close>, ..., \<open>a + n - 1\<close> of a tree of height \<open>h\<close>.\<close>

definition on_paths :: "u8 \<Rightarrow> nat \<Rightarrow> nat \<Rightarrow> node_key \<Rightarrow> bool" where
  "on_paths h a n x \<longleftrightarrow>
     (\<exists>i. a \<le> i \<and> i < a + n \<and> is_anc x (Node_Key h (of_nat i)) \<and> x \<noteq> Node_Key h (of_nat i))"

lemma on_paths_Suc:
  "on_paths h a (Suc n) x \<longleftrightarrow>
   (is_anc x (Node_Key h (of_nat a)) \<and> x \<noteq> Node_Key h (of_nat a)) \<or> on_paths h (Suc a) n x"
  unfolding on_paths_def by (metis Suc_leD add_Suc_right add_Suc le_antisym lessI less_add_Suc1 not_less_eq_eq order_refl)

lemma node_ok_parent:
  assumes "nk_level k \<noteq> 0"
  shows "node_ok t vs (parent k) \<longleftrightarrow>
    vs (parent k) = (if nk_index k AND 1 = 0 then t (vs k) (vs (sibling k)) else t (vs (sibling k)) (vs k))"
proof (cases "nk_index k AND 1 = 0")
  case True
  hence "k = left_child (parent k)" using even_or_odd_child[OF assms] index_even[of k]
      bit_right_index[of "parent k" 0] and_one_u64(1)[of "nk_index k"] by metis
  thus ?thesis using True sibling_left[of "parent k"] by (simp add: node_ok_def)
next
  case False
  hence "k = right_child (parent k)" using even_or_odd_child[OF assms]
      bit_left_index[of "parent k" 0] and_one_u64(1)[of "nk_index k"] by (metis less_irrefl)
  thus ?thesis using False sibling_right[of "parent k"] by (simp add: node_ok_def)
qed

lemma strict_anc_parent: "nk_level k \<noteq> 0 \<Longrightarrow> is_anc (parent k) k \<and> parent k \<noteq> k"
  using parent_anc lev_parent[of k] lev_pos[of k] by (metis diff_less less_irrefl zero_less_one)

lemma path_ok_root: "nk_level k = 0 \<Longrightarrow> path_ok t vs k"
  unfolding path_ok_def by (metis anc_lev is_anc_same_level le_zero_eq unat_0 unat_eq_zero)

lemma path_ok_parent:
  assumes "nk_level k \<noteq> 0"
  shows "path_ok t vs k \<longleftrightarrow> node_ok t vs (parent k) \<and> path_ok t vs (parent k)"
proof
  assume p: "path_ok t vs k"
  have "q \<noteq> k" if "is_anc q (parent k)" for q
    using anc_lev[OF that] lev_parent[of k] lev_pos[OF assms] by (metis diff_less leD zero_less_one)
  thus "node_ok t vs (parent k) \<and> path_ok t vs (parent k)"
    using p strict_anc_parent[OF assms] parent_anc[of k] is_anc_trans unfolding path_ok_def by metis
next
  assume "node_ok t vs (parent k) \<and> path_ok t vs (parent k)"
  thus "path_ok t vs k" using is_anc_parent unfolding path_ok_def by metis
qed


text \<open>Nodes with a leaf in \<open>{a..<a + n}\<close> below them.\<close>

definition covers :: "nat \<Rightarrow> nat \<Rightarrow> nat \<Rightarrow> node_key \<Rightarrow> bool" where
  "covers h a n k \<longleftrightarrow> (\<exists>i. a \<le> i \<and> i < a + n \<and> i div 2 ^ (h - lev k) = unat (nk_index k))"

lemma covers_off:
  assumes "\<not> covers h a n k"
  shows "node_val t h (write_leaves f a vs) k = node_val t h f k \<or> n < length vs"
proof (rule disjCI)
  assume "\<not> n < length vs"
  hence n: "length vs \<le> n" by simp
  show "node_val t h (write_leaves f a vs) k = node_val t h f k"
    unfolding node_val_def
  proof (rule mnode_cong)
    fix i assume "unat (nk_index k) * 2 ^ (h - lev k) \<le> i" "i < (unat (nk_index k) + 1) * 2 ^ (h - lev k)"
    hence "i div 2 ^ (h - lev k) = unat (nk_index k)" unfolding block_div by simp
    hence "\<not> (a \<le> i \<and> i < a + n)" using assms by (auto simp: covers_def)
    thus "write_leaves f a vs i = f i" using n by (auto simp: write_leaves_def)
  qed
qed

text \<open>A child of a covering node covers, hangs off the path of the first leaf, or lies to the right.\<close>

lemma sib_div: "sib_index j div 2 = j div 2"
  by (auto simp: sib_index_def elim!: oddE)

lemma sib_index_involutive: "sib_index (sib_index j) = j"
  by (auto simp: sib_index_def elim!: oddE)

lemma off_child_cases:
  fixes a n d c :: nat
  assumes "\<not> (\<exists>i. a \<le> i \<and> i < a + n \<and> i div 2 ^ d = c)" "\<exists>i. a \<le> i \<and> i < a + n \<and> i div 2 ^ Suc d = c div 2"
  shows "a div 2 ^ d = sib_index c \<or> a + n \<le> c * 2 ^ d"
proof -
  obtain i where i: "a \<le> i" "i < a + n" "i div 2 ^ Suc d = c div 2" using assms(2) by blast
  have e: "i div 2 ^ d div 2 = c div 2" using i(3) by (metis div_mult2_eq power_Suc2)
  have ne: "i div 2 ^ d \<noteq> c" using assms(1) i by blast
  have sib: "i div 2 ^ d = sib_index c" using e ne by (auto simp: sib_index_def elim!: evenE oddE)
  show ?thesis
  proof (cases "even c")
    case True
    hence "i div 2 ^ d = c + 1" using sib by (simp add: sib_index_def)
    hence ib: "(c + 1) * 2 ^ d \<le> i" unfolding block_div by simp
    have "(c + 1) * 2 ^ d \<le> a"
    proof (rule ccontr)
      assume "\<not> (c + 1) * 2 ^ d \<le> a"
      hence l: "a \<le> (c + 1) * 2 ^ d - 1" "(c + 1) * 2 ^ d - 1 < a + n" using ib i(2) by linarith+
      have "(1::nat) \<le> 2 ^ d" by simp
      hence "((c + 1) * 2 ^ d - 1) div 2 ^ d = c" unfolding block_div add_mult_distrib mult_1 by linarith
      thus False using assms(1) l by blast
    qed
    moreover have "a \<le> i" by (rule i)
    ultimately have "a div 2 ^ d = c + 1" using \<open>i div 2 ^ d = c + 1\<close> unfolding block_div by simp
    thus ?thesis using True by (simp add: sib_index_def)
  next
    case False
    hence c: "c > 0" "i div 2 ^ d = c - 1" using sib by (auto simp: sib_index_def elim!: oddE)
    have "i < (c - 1) * 2 ^ d + 2 ^ d" using c(2) unfolding block_div by simp
    also have "\<dots> = c * 2 ^ d" using c(1) by (cases c) simp_all
    finally have "i < c * 2 ^ d" .
    hence "a + n \<le> c * 2 ^ d \<or> (a \<le> c * 2 ^ d \<and> c * 2 ^ d < a + n)" using i(1) by linarith
    moreover have "(c * 2 ^ d) div 2 ^ d = c" by simp
    ultimately show ?thesis using assms(1) by blast
  qed
qed


text \<open>The membership proof of leaf \<open>i\<close> of the tree over \<open>f\<close>.\<close>

definition ref_proof :: "('h \<Rightarrow> 'h \<Rightarrow> 'h) \<Rightarrow> nat \<Rightarrow> (nat \<Rightarrow> 'h) \<Rightarrow> u64 \<Rightarrow> 'h merkle_proof" where
  "ref_proof t h f i = \<lparr>mp_root = mnode t f h 0, mp_value = f (unat i), mp_index = i,
     mp_siblings = ref_siblings t f (unat i) 0 h\<rparr>"

lemma ref_proof_verifies: "h \<le> 64 \<Longrightarrow> unat i < 2 ^ h \<Longrightarrow> mp_verify t (ref_proof t h f i)"
  using root_loop_ref[of 0 h t i f]
  by (simp add: ref_proof_def mp_verify_def verify_merkle_proof_core_def ref_siblings_def)

context node_store
begin

lemma rehash_path:
  assumes "inv s" "valid_key k" "lev k \<le> ht s"
  shows "\<exists>s'. tr_rehash_from_node_to_level ops t s k 0 = Some s' \<and> inv s' \<and> op_height ops s' = op_height ops s \<and>
    (\<forall>x. \<not> (is_anc x k \<and> x \<noteq> k) \<longrightarrow> vals s' x = vals s x) \<and> path_ok t (vals s') k"
  using assms
proof (induction "lev k" arbitrary: k s)
  case 0
  hence l: "nk_level k = 0" by (simp add: unat_eq_zero)
  thus ?case using 0(2) path_ok_root[OF l] by (simp add: tr_rehash_from_node_to_level.simps[of ops t s k])
next
  case (Suc n)
  have l: "nk_level k \<noteq> 0" using Suc.hyps(2) by auto
  let ?v = "if nk_index k AND 1 = 0 then t (vals s k) (vals s (sibling k)) else t (vals s (sibling k)) (vals s k)"
  have lp: "lev (parent k) \<le> ht s" "n = lev (parent k)" using Suc.prems(3) Suc.hyps(2) by (simp_all add: lev_parent)
  obtain s1 where s1: "op_set ops s (parent k) ?v = Some s1" "inv s1" "op_height ops s1 = op_height ops s"
      "vals s1 = (vals s)(parent k := ?v)"
    using set_law[OF Suc.prems(1) lp(1), of ?v] by blast
  have "lev (parent k) \<le> ht s1" using lp(1) s1(3) by simp
  then obtain s2 where s2: "tr_rehash_from_node_to_level ops t s1 (parent k) 0 = Some s2" "inv s2"
      "op_height ops s2 = op_height ops s" "\<And>x. \<not> (is_anc x (parent k) \<and> x \<noteq> parent k) \<Longrightarrow> vals s2 x = vals s1 x"
      "path_ok t (vals s2) (parent k)"
    using Suc.hyps(1)[OF lp(2) s1(2) parent_valid[OF Suc.prems(2)]] s1(3) by auto
  have below: "\<not> is_anc x (parent k)" if "nk_level x = nk_level k" for x
  proof
    assume "is_anc x (parent k)"
    hence "lev x \<le> lev k - 1" using anc_lev lev_parent by metis
    thus False using that lev_pos[OF l] by simp
  qed
  have pk: "k \<noteq> parent k" "sibling k \<noteq> parent k" using below[of k] below[of "sibling k"] by auto
  have "vals s2 k = vals s k" "vals s2 (sibling k) = vals s (sibling k)" "vals s2 (parent k) = ?v"
    using s2(4)[of k] s2(4)[of "sibling k"] s2(4)[of "parent k"] s1(4) below[of k] below[of "sibling k"] pk by auto
  hence "node_ok t (vals s2) (parent k)" unfolding node_ok_parent[OF l] by simp
  hence ok: "path_ok t (vals s2) k" using s2(5) path_ok_parent[OF l] by blast
  have out: "vals s2 x = vals s x" if "\<not> (is_anc x k \<and> x \<noteq> k)" for x
  proof -
    have "\<not> (is_anc x (parent k) \<and> x \<noteq> parent k)" "x \<noteq> parent k"
      using that is_anc_trans[OF _ parent_anc, of x k] below[of k] strict_anc_parent[OF l] by auto
    thus ?thesis using s2(4)[of x] s1(4) by simp
  qed
  have "tr_rehash_from_node_to_level ops t s k 0 = Some s2"
    using s1(1) s2(1) l get_law[OF Suc.prems(1), of k] get_law[OF Suc.prems(1), of "sibling k"] Suc.prems(3)
    unfolding tr_rehash_from_node_to_level.simps[of ops t s k] by (auto simp: word_neq_0_conv)
  thus ?case using s2(2,3) ok out by blast
qed

text \<open>Rehashing one path keeps the other paths consistent.\<close>

lemma path_ok_keep:
  assumes "path_ok t (vals s) k'" "path_ok t (vals s') k" "valid_key k" "lev k \<le> 63" "nk_level k' = nk_level k" "valid_key k'"
    "\<And>x. \<not> (is_anc x k \<and> x \<noteq> k) \<Longrightarrow> vals s' x = vals s x"
  shows "path_ok t (vals s') k'"
  unfolding path_ok_def
proof (intro allI impI)
  fix p assume p: "is_anc p k'" "p \<noteq> k'"
  have "lev p \<noteq> lev k'" using is_anc_same_level[OF p(1)] p(2) by (auto simp: iffD2[OF word_unat_eq_iff])
  hence lp: "lev p < lev k'" using anc_lev[OF p(1)] by simp
  show "node_ok t (vals s') p"
  proof (cases "is_anc p k")
    case True
    have "p \<noteq> k" using lp assms(5) by auto
    thus ?thesis using True assms(2) by (simp add: path_ok_def)
  next
    case False
    have v: "valid_key p" "lev p < 64" using valid_anc[OF p(1) assms(6)] lp assms(4,5) by auto
    have "\<not> is_anc (left_child p) k" "\<not> is_anc (right_child p) k"
      using False child_anc[OF v] is_anc_trans by blast+
    thus ?thesis using assms(1,7) p False unfolding path_ok_def node_ok_def by metis
  qed
qed

lemma leaf_not_strict_anc: "nk_level x = nk_level k \<Longrightarrow> \<not> (is_anc x k \<and> x \<noteq> k)"
  using is_anc_same_level by blast

lemma rehash_each_ok:
  assumes "inv s" "unat a + n \<le> 2 ^ ht s"
    "\<And>k. k \<in> K \<Longrightarrow> valid_key k \<and> nk_level k = op_height ops s \<and> path_ok t (vals s) k"
  shows "\<exists>s'. rehash_each ops t s a n = Some s' \<and> inv s' \<and> op_height ops s' = op_height ops s \<and>
    (\<forall>k \<in> K. path_ok t (vals s') k) \<and>
    (\<forall>i. unat a \<le> i \<longrightarrow> i < unat a + n \<longrightarrow> path_ok t (vals s') (Node_Key (op_height ops s) (of_nat i))) \<and>
    (\<forall>x. \<not> on_paths (op_height ops s) (unat a) n x \<longrightarrow> vals s' x = vals s x)"
  using assms
proof (induction n arbitrary: a s K)
  case (Suc n)
  let ?k = "Node_Key (op_height ops s) a"
  have h: "ht s \<le> 63" using height_le Suc.prems(1) by blast
  have vk: "valid_key ?k" using leaf_key_valid[OF Suc.prems(1), of a] Suc.prems(2) by simp
  have "unat a + 1 < 2 ^ 64" using Suc.prems(2) pow63[OF h] by simp
  hence a1: "unat (a + 1) = Suc (unat a)" using unat_add_small[of a 1] by simp
  obtain s1 where s1: "tr_rehash_from_node_to_level ops t s ?k 0 = Some s1" "inv s1" "op_height ops s1 = op_height ops s"
      "\<And>x. \<not> (is_anc x ?k \<and> x \<noteq> ?k) \<Longrightarrow> vals s1 x = vals s x" "path_ok t (vals s1) ?k"
    using rehash_path[OF Suc.prems(1) vk] by auto
  have K: "valid_key k \<and> nk_level k = op_height ops s1 \<and> path_ok t (vals s1) k" if "k \<in> insert ?k K" for k
  proof (cases "k = ?k")
    case False
    hence k: "valid_key k" "nk_level k = op_height ops s" "path_ok t (vals s) k" using that Suc.prems(3) by auto
    show ?thesis using path_ok_keep[OF k(3) s1(5) vk _ _ k(1) s1(4)] k h s1(3) by simp
  qed (use vk s1(3,5) in simp)
  have b: "unat (a + 1) + n \<le> 2 ^ ht s1" using Suc.prems(2) a1 s1(3) by simp
  obtain s2 where e: "rehash_each ops t s1 (a + 1) n = Some s2 \<and> inv s2 \<and> op_height ops s2 = op_height ops s1 \<and>
      (\<forall>k \<in> insert ?k K. path_ok t (vals s2) k) \<and>
      (\<forall>i. unat (a + 1) \<le> i \<longrightarrow> i < unat (a + 1) + n \<longrightarrow> path_ok t (vals s2) (Node_Key (op_height ops s1) (of_nat i))) \<and>
      (\<forall>x. \<not> on_paths (op_height ops s1) (unat (a + 1)) n x \<longrightarrow> vals s2 x = vals s1 x)"
    using Suc.IH[OF s1(2) b K] by (rule exE)
  have s2: "rehash_each ops t s1 (a + 1) n = Some s2" "inv s2" "op_height ops s2 = op_height ops s1"
      "\<And>k. k \<in> insert ?k K \<Longrightarrow> path_ok t (vals s2) k"
      "\<And>i. unat (a + 1) \<le> i \<Longrightarrow> i < unat (a + 1) + n \<Longrightarrow> path_ok t (vals s2) (Node_Key (op_height ops s1) (of_nat i))"
      "\<And>x. \<not> on_paths (op_height ops s1) (unat (a + 1)) n x \<Longrightarrow> vals s2 x = vals s1 x"
    using e by blast+
  have "path_ok t (vals s2) (Node_Key (op_height ops s) (of_nat i))" if "unat a \<le> i" "i < unat a + Suc n" for i
  proof (cases "i = unat a")
    case False
    thus ?thesis using s2(5)[of i] that a1 s1(3) by simp
  qed (use s2(4)[of ?k] in simp)
  moreover have "vals s2 x = vals s x" if "\<not> on_paths (op_height ops s) (unat a) (Suc n) x" for x
    using that s1(3,4) s2(6)[of x] a1 unfolding on_paths_Suc by simp
  ultimately show ?case using s1(1,3) s2(1-4) by (intro exI[of _ s2]) simp
qed simp

lemma injest_siblings_vals:
  assumes "inv s" "valid_key k" "lev k \<le> ht s" "length ss \<le> lev k"
  shows "\<exists>s'. injest_siblings ops s k ss = Some (s', (parent ^^ length ss) k) \<and> inv s' \<and>
    op_height ops s' = op_height ops s \<and>
    (\<forall>n < length ss. vals s' (sibling ((parent ^^ n) k)) = ss ! n) \<and>
    (\<forall>x. (\<forall>n < length ss. x \<noteq> sibling ((parent ^^ n) k)) \<longrightarrow> vals s' x = vals s x)"
  using assms
proof (induction ss arbitrary: s k)
  case (Cons v ss)
  obtain s1 where s1: "op_set ops s (sibling k) v = Some s1" "inv s1" "op_height ops s1 = op_height ops s"
      "vals s1 = (vals s)(sibling k := v)"
    using set_law[OF Cons.prems(1), of "sibling k" v] Cons.prems(3) by auto
  have p: "valid_key (parent k)" "lev (parent k) \<le> ht s1" "length ss \<le> lev (parent k)"
    using parent_valid[OF Cons.prems(2)] Cons.prems(3,4) s1(3) by (simp_all add: lev_parent)
  obtain s2 where s2: "injest_siblings ops s1 (parent k) ss = Some (s2, (parent ^^ length ss) (parent k))" "inv s2"
      "op_height ops s2 = op_height ops s1" "\<And>n. n < length ss \<Longrightarrow> vals s2 (sibling ((parent ^^ n) (parent k))) = ss ! n"
      "\<And>x. \<forall>n < length ss. x \<noteq> sibling ((parent ^^ n) (parent k)) \<Longrightarrow> vals s2 x = vals s1 x"
    using Cons.IH[OF s1(2) p] by blast
  have lv: "lev ((parent ^^ n) q) = lev q - n" for n q by (induction n) (simp_all add: lev_parent)
  have ne: "sibling k \<noteq> sibling ((parent ^^ n) (parent k))" for n
  proof
    assume "sibling k = sibling ((parent ^^ n) (parent k))"
    hence "lev k = lev (parent k) - n" using lev_sibling lv by metis
    thus False using Cons.prems(4) by (simp add: lev_parent)
  qed
  have st: "(parent ^^ n) (parent k) = (parent ^^ Suc n) k" for n by (simp add: funpow_swap1)
  have "vals s2 (sibling ((parent ^^ n) k)) = (v # ss) ! n" if "n < length (v # ss)" for n
    using that s2(4)[of "n - 1"] s2(5)[of "sibling k"] s1(4) ne by (cases n) (auto simp: funpow_swap1)
  moreover have "vals s2 x = vals s x" if x: "\<forall>n < length (v # ss). x \<noteq> sibling ((parent ^^ n) k)" for x
  proof -
    have "x \<noteq> sibling k" using x[rule_format, of 0] by simp
    moreover have "\<forall>n < length ss. x \<noteq> sibling ((parent ^^ n) (parent k))"
      unfolding st using x by (metis Suc_less_eq length_Cons)
    ultimately show ?thesis using s2(5) s1(4) by simp
  qed
  ultimately show ?case using s1(1,3) s2(1-3) by (simp add: funpow_swap1)
qed simp

text \<open>The ancestors of a key by level.\<close>

lemma funpow_parent:
  "n \<le> lev k \<Longrightarrow> lev ((parent ^^ n) k) = lev k - n \<and> unat (nk_index ((parent ^^ n) k)) = unat (nk_index k) div 2 ^ n"
proof (induction n)
  case (Suc n)
  have "nk_level ((parent ^^ n) k) \<noteq> 0" using Suc by auto
  thus ?case using Suc unat_parent[of "(parent ^^ n) k"] by (simp add: lev_parent div_mult2_eq[symmetric] mult.commute)
qed simp

section \<open>Compact proofs\<close>

lemma on_paths_covers:
  assumes "\<not> covers (ht s) a n k" "a + n \<le> 2 ^ 63"
  shows "\<not> on_paths (op_height ops s) a n k"
proof
  assume "on_paths (op_height ops s) a n k"
  then obtain i where i: "a \<le> i" "i < a + n" "is_anc k (Node_Key (op_height ops s) (of_nat i))"
    unfolding on_paths_def by blast
  have "unat (of_nat i :: u64) = i" using i(2) assms(2) by (simp add: unat_of_nat)
  hence "i div 2 ^ (ht s - lev k) = unat (nk_index k)" using i(3) unfolding is_anc_iff by simp
  thus False using assms(1) i(1,2) unfolding covers_def by blast
qed

text \<open>Siblings of the first path from \<open>f\<close>, new leaves from \<open>vs\<close>, empty leaves behind: the
  nodes above the new leaves and their children are those of the whole updated tree.\<close>

lemma compact_nodes:
  assumes "stores s0 (\<lambda>_. z)" "op_height ops s = op_height ops s0" "\<And>i. a \<le> i \<Longrightarrow> f i = z"
    "a + length vs \<le> 2 ^ ht s"
    "\<And>k. valid_key k \<Longrightarrow> lev k \<le> ht s \<Longrightarrow> \<not> covers (ht s) a (length vs) k \<Longrightarrow>
       a div 2 ^ (ht s - lev k) = sib_index (unat (nk_index k)) \<Longrightarrow> vals s k = node_val t (ht s) f k"
    "\<And>k. valid_key k \<Longrightarrow> lev k \<le> ht s \<Longrightarrow> \<not> covers (ht s) a (length vs) k \<Longrightarrow>
       a div 2 ^ (ht s - lev k) \<noteq> sib_index (unat (nk_index k)) \<Longrightarrow> vals s k = vals s0 k"
    "\<And>k. valid_key k \<Longrightarrow> lev k = ht s \<Longrightarrow> covers (ht s) a (length vs) k \<Longrightarrow>
       vals s k = write_leaves f a vs (unat (nk_index k))"
    "\<And>k. valid_key k \<Longrightarrow> lev k < ht s \<Longrightarrow> covers (ht s) a (length vs) k \<Longrightarrow> node_ok t (vals s) k"
    "valid_key k" "lev k \<le> ht s"
    "covers (ht s) a (length vs) k \<or> (nk_level k \<noteq> 0 \<and> covers (ht s) a (length vs) (parent k))"
  shows "vals s k = node_val t (ht s) (write_leaves f a vs) k"
  using assms(9-11)
proof (induction "ht s - lev k" arbitrary: k rule: less_induct)
  case less
  let ?d = "ht s - lev k" and ?g = "write_leaves f a vs"
  show ?case
  proof (cases "covers (ht s) a (length vs) k")
    case True
    show ?thesis
    proof (cases "lev k = ht s")
      case True
      thus ?thesis using assms(7)[OF less.prems(1) True] \<open>covers (ht s) a (length vs) k\<close> by (simp add: node_val_def)
    next
      case False
      have h: "ht s \<le> 63" using height_le assms(1,2) by metis
      have lk: "lev k < ht s" "lev k < 64" using False less.prems(2) h by simp_all
      note cv = child_valid[OF less.prems(1) lk(2)] and lc = lev_child[OF lk(2)]
        and cp = child_parent[OF less.prems(1) lk(2)]
      have nz: "nk_level (left_child k) \<noteq> 0" "nk_level (right_child k) \<noteq> 0" using lc by auto
      have "vals s (left_child k) = node_val t (ht s) ?g (left_child k)"
        by (rule less.hyps) (use lc lk cv cp True nz in auto)
      moreover have "vals s (right_child k) = node_val t (ht s) ?g (right_child k)"
        by (rule less.hyps) (use lc lk cv cp True nz in auto)
      moreover have "ht s \<le> 64" using h by simp
      ultimately show ?thesis using assms(8)[OF less.prems(1) lk(1) True]
          node_val_children[OF less.prems(1) lk(1), of t ?g] by (simp add: node_ok_def)
    qed
  next
    case False
    hence p: "nk_level k \<noteq> 0" "covers (ht s) a (length vs) (parent k)" using less.prems(3) by auto
    have dp: "ht s - lev (parent k) = Suc ?d" using lev_pos[OF p(1)] less.prems(2) by (simp add: lev_parent)
    have g: "node_val t (ht s) ?g k = node_val t (ht s) f k" using covers_off[OF False] by blast
    show ?thesis
    proof (cases "a div 2 ^ ?d = sib_index (unat (nk_index k))")
      case True
      thus ?thesis using assms(5)[OF less.prems(1,2) False True] g by simp
    next
      case no: False
      have "a div 2 ^ ?d = sib_index (unat (nk_index k)) \<or> a + length vs \<le> unat (nk_index k) * 2 ^ ?d"
        by (rule off_child_cases) (use False p(2) dp unat_parent[OF p(1)] in \<open>auto simp: covers_def\<close>)
      hence right: "a + length vs \<le> unat (nk_index k) * 2 ^ ?d" using no by blast
      have "node_val t (ht s) f k = node_val t (ht s) (\<lambda>_. z) k"
        unfolding node_val_def by (rule mnode_cong) (use right assms(3) in simp)
      moreover have "vals s0 k = node_val t (ht s) (\<lambda>_. z) k"
        using tree_repD[OF conjunct2[OF assms(1)] less.prems(1)] less.prems(2) assms(2) by simp
      ultimately show ?thesis using assms(6)[OF less.prems(1,2) False no] g by simp
    qed
  qed
qed

lemma path_siblings_of:
  assumes "valid_key k" "lev k \<le> h" "unat h' = h" "unat a < 2 ^ h"
  shows "(\<exists>n < h. k = sibling ((parent ^^ n) (Node_Key h' a))) \<longleftrightarrow>
    unat a div 2 ^ (h - lev k) = sib_index (unat (nk_index k))"
proof
  assume "\<exists>n < h. k = sibling ((parent ^^ n) (Node_Key h' a))"
  then obtain n where n: "n < h" "k = sibling ((parent ^^ n) (Node_Key h' a))" by blast
  have f: "lev ((parent ^^ n) (Node_Key h' a)) = h - n"
      "unat (nk_index ((parent ^^ n) (Node_Key h' a))) = unat a div 2 ^ n"
    using funpow_parent[of n "Node_Key h' a"] n(1) assms(3) by simp_all
  have "lev k = h - n" "unat (nk_index k) = sib_index (unat a div 2 ^ n)"
    unfolding n(2) lev_sibling unat_sibling f by simp_all
  thus "unat a div 2 ^ (h - lev k) = sib_index (unat (nk_index k))"
    using n(1) by (simp add: sib_index_involutive)
next
  assume e: "unat a div 2 ^ (h - lev k) = sib_index (unat (nk_index k))"
  let ?n = "h - lev k"
  have "lev k \<noteq> 0"
  proof
    assume "lev k = 0"
    hence "unat (nk_index k) = 0" using assms(1) by (simp add: valid_key_iff)
    thus False using e \<open>lev k = 0\<close> assms(4) by (simp add: sib_index_def)
  qed
  hence n: "?n < h" using assms(2) by simp
  have f: "lev ((parent ^^ ?n) (Node_Key h' a)) = h - ?n"
      "unat (nk_index ((parent ^^ ?n) (Node_Key h' a))) = unat a div 2 ^ ?n"
    using funpow_parent[of ?n "Node_Key h' a"] assms(3) by simp_all
  have "k = sibling ((parent ^^ ?n) (Node_Key h' a))"
    unfolding key_eq_iff lev_sibling unat_sibling f e sib_index_involutive using assms(2) by simp
  thus "\<exists>n < h. k = sibling ((parent ^^ n) (Node_Key h' a))" using n by blast
qed

lemma compact_store:
  assumes "stores s0 (\<lambda>_. z)" "\<forall>i. unat a \<le> i \<longrightarrow> f i = z" "unat a + length vs \<le> 2 ^ ht s0" "unat a < 2 ^ ht s0"
  shows "\<exists>s1 s2 s3. injest_siblings ops s0 (Node_Key (op_height ops s0) a) (ref_siblings t f (unat a) 0 (ht s0)) =
        Some (s1, (parent ^^ ht s0) (Node_Key (op_height ops s0) a)) \<and>
      set_leaves_from ops s1 a vs = Some s2 \<and> rehash_each ops t s2 a (length vs) = Some s3 \<and> inv s3 \<and>
      op_height ops s3 = op_height ops s0 \<and>
      (\<forall>k. valid_key k \<longrightarrow> lev k \<le> ht s0 \<longrightarrow> covers (ht s0) (unat a) (length vs) k \<or>
          (nk_level k \<noteq> 0 \<and> covers (ht s0) (unat a) (length vs) (parent k)) \<longrightarrow>
        vals s3 k = node_val t (ht s0) (write_leaves f (unat a) vs) k)"
proof -
  let ?k = "Node_Key (op_height ops s0) a" and ?ss = "ref_siblings t f (unat a) 0 (ht s0)"
  have i0: "inv s0" using assms(1) by blast
  have h: "ht s0 \<le> 63" using height_le[OF i0] .
  have vk: "valid_key ?k" using leaf_key_valid[OF i0 assms(4)] .
  have len: "length ?ss = ht s0" by (simp add: ref_siblings_def)
  have lk: "lev ?k \<le> ht s0" "length ?ss \<le> lev ?k" using len by simp_all
  obtain s1 where e1: "injest_siblings ops s0 ?k ?ss = Some (s1, (parent ^^ length ?ss) ?k) \<and> inv s1 \<and>
    op_height ops s1 = op_height ops s0 \<and>
    (\<forall>n < length ?ss. vals s1 (sibling ((parent ^^ n) ?k)) = ?ss ! n) \<and>
    (\<forall>x. (\<forall>n < length ?ss. x \<noteq> sibling ((parent ^^ n) ?k)) \<longrightarrow> vals s1 x = vals s0 x)"
    using injest_siblings_vals[OF i0 vk lk] by (rule exE)
  have s1: "injest_siblings ops s0 ?k ?ss = Some (s1, (parent ^^ ht s0) ?k)" "inv s1"
    "op_height ops s1 = op_height ops s0" "\<And>n. n < ht s0 \<Longrightarrow> vals s1 (sibling ((parent ^^ n) ?k)) = ?ss ! n"
    "\<And>x. \<not> (\<exists>n < ht s0. x = sibling ((parent ^^ n) ?k)) \<Longrightarrow> vals s1 x = vals s0 x"
    using e1 unfolding len by blast+
  have b63: "unat a + length vs \<le> 2 ^ 63" using assms(3) pow63[OF h] by simp
  obtain s2 where s2: "set_leaves_from ops s1 a vs = Some s2" "inv s2" "op_height ops s2 = op_height ops s0"
      "\<And>k. vals s2 k = (if nk_level k = op_height ops s0
           then write_leaves (\<lambda>i. vals s1 k) (unat a) vs (unat (nk_index k)) else vals s1 k)"
    using set_leaves_stores[OF s1(2) b63] s1(3) by auto
  have b2: "unat a + length vs \<le> 2 ^ ht s2" using assms(3) s2(3) by simp
  have nK: "valid_key k \<and> nk_level k = op_height ops s2 \<and> path_ok t (vals s2) k" if "k \<in> {}" for k
    using that by simp
  obtain s3 where e3: "rehash_each ops t s2 a (length vs) = Some s3 \<and> inv s3 \<and> op_height ops s3 = op_height ops s2 \<and>
    (\<forall>k \<in> {}. path_ok t (vals s3) k) \<and>
    (\<forall>i. unat a \<le> i \<longrightarrow> i < unat a + length vs \<longrightarrow> path_ok t (vals s3) (Node_Key (op_height ops s2) (of_nat i))) \<and>
    (\<forall>x. \<not> on_paths (op_height ops s2) (unat a) (length vs) x \<longrightarrow> vals s3 x = vals s2 x)"
    using rehash_each_ok[OF s2(2) b2 nK] by (rule exE)
  have s3: "rehash_each ops t s2 a (length vs) = Some s3" "inv s3" "op_height ops s3 = op_height ops s0"
    "\<And>i. unat a \<le> i \<Longrightarrow> i < unat a + length vs \<Longrightarrow> path_ok t (vals s3) (Node_Key (op_height ops s0) (of_nat i))"
    "\<And>x. \<not> on_paths (op_height ops s0) (unat a) (length vs) x \<Longrightarrow> vals s3 x = vals s2 x"
    using e3 s2(3) by auto
  let ?cov = "covers (ht s0) (unat a) (length vs)"
  have off: "vals s3 k = vals s1 k" if "\<not> ?cov k" for k
  proof -
    have "vals s3 k = vals s2 k" using s3(5) on_paths_covers[OF that b63] by blast
    also have "\<dots> = vals s1 k"
    proof (cases "nk_level k = op_height ops s0")
      case True
      hence "\<not> (unat a \<le> unat (nk_index k) \<and> unat (nk_index k) < unat a + length vs)"
        using that by (auto simp: covers_def)
      thus ?thesis using s2(4)[of k] by (auto simp: write_leaves_def)
    qed (use s2(4)[of k] in simp)
    finally show ?thesis .
  qed
  have nodes: "vals s3 k = node_val t (ht s3) (write_leaves f (unat a) vs) k"
    if k: "valid_key k" "lev k \<le> ht s3" "?cov k \<or> (nk_level k \<noteq> 0 \<and> ?cov (parent k))" for k
  proof (rule compact_nodes[where vs = vs, OF assms(1) s3(3) assms(2)[rule_format]])
    show "unat a + length vs \<le> 2 ^ ht s3" using assms(3) s3(3) by simp
  next
    fix k assume k: "valid_key k" "lev k \<le> ht s3" "\<not> covers (ht s3) (unat a) (length vs) k"
      "unat a div 2 ^ (ht s3 - lev k) = sib_index (unat (nk_index k))"
    have l: "lev k \<le> ht s0" and c: "\<not> ?cov k" using k s3(3) by simp_all
    then obtain n where n: "n < ht s0" "k = sibling ((parent ^^ n) ?k)"
      using path_siblings_of[OF k(1) l _ assms(4), of "op_height ops s0"] k(4) s3(3) by auto
    have f: "lev ((parent ^^ n) ?k) = ht s0 - n" "unat (nk_index ((parent ^^ n) ?k)) = unat a div 2 ^ n"
      using funpow_parent[of n ?k] n(1) by simp_all
    have "vals s3 k = ?ss ! n" using off[OF c] s1(4)[OF n(1)] n(2) by simp
    also have "\<dots> = node_val t (ht s0) f k"
      using n(1) unfolding n(2) node_val_def lev_sibling unat_sibling f by (simp add: ref_siblings_def)
    finally show "vals s3 k = node_val t (ht s3) f k" using s3(3) by simp
  next
    fix k assume k: "valid_key k" "lev k \<le> ht s3" "\<not> covers (ht s3) (unat a) (length vs) k"
      "unat a div 2 ^ (ht s3 - lev k) \<noteq> sib_index (unat (nk_index k))"
    have l: "lev k \<le> ht s0" and c: "\<not> ?cov k" using k s3(3) by simp_all
    thus "vals s3 k = vals s0 k" using off[OF c] s1(5)[of k]
        path_siblings_of[OF k(1) l _ assms(4), of "op_height ops s0"] k(4) s3(3) by simp
  next
    fix k assume k: "valid_key k" "lev k = ht s3" "covers (ht s3) (unat a) (length vs) k"
    have l: "nk_level k = op_height ops s0" using k(2) s3(3) by (simp add: iffD2[OF word_unat_eq_iff])
    have "\<not> on_paths (op_height ops s0) (unat a) (length vs) k"
      using leaf_not_strict_anc[of k] l unfolding on_paths_def by fastforce
    thus "vals s3 k = write_leaves f (unat a) vs (unat (nk_index k))"
      using s3(5)[of k] s2(4)[of k] l k(2,3) by (auto simp: write_leaves_def covers_def)
  next
    fix k assume k: "valid_key k" "lev k < ht s3" "covers (ht s3) (unat a) (length vs) k"
    then obtain i where i: "unat a \<le> i" "i < unat a + length vs" "i div 2 ^ (ht s0 - lev k) = unat (nk_index k)"
      unfolding covers_def using s3(3) by auto
    have u: "unat (of_nat i :: u64) = i" using i(2) b63 by (simp add: unat_of_nat)
    have "is_anc k (Node_Key (op_height ops s0) (of_nat i))" unfolding is_anc_iff using i(3) k(2) s3(3) u by simp
    moreover have "k \<noteq> Node_Key (op_height ops s0) (of_nat i)" using k(2) s3(3) by auto
    ultimately show "node_ok t (vals s3) k" using s3(4)[OF i(1,2)] by (simp add: path_ok_def)
  qed (use k s3(3) in auto)
  show ?thesis
    using s1(1) s2(1) s3(1,2,3) nodes by (intro exI[of _ s1] exI[of _ s2] exI[of _ s3]) simp
qed

lemma leaf_proof_path:
  assumes "inv s" "unat i < 2 ^ ht s"
    "\<And>k. valid_key k \<Longrightarrow> lev k \<le> ht s \<Longrightarrow> is_anc k (Node_Key (op_height ops s) i) \<or>
       (nk_level k \<noteq> 0 \<and> is_anc (parent k) (Node_Key (op_height ops s) i)) \<Longrightarrow> vals s k = node_val t (ht s) g k"
  shows "tr_get_leaf ops s i = Some (ref_proof t (ht s) g i)"
proof -
  let ?k = "Node_Key (op_height ops s) i"
  have vk: "valid_key ?k" using leaf_key_valid[OF assms(1,2)] .
  have sib: "vals s (sibling q) = node_val t (ht s) g (sibling q)" if q: "is_anc q ?k" "nk_level q \<noteq> 0" for q
  proof (rule assms(3))
    show "valid_key (sibling q)" using valid_sibling[OF valid_anc[OF q(1) vk] q(2)] .
    show "lev (sibling q) \<le> ht s" using anc_lev[OF q(1)] by simp
    show "is_anc (sibling q) ?k \<or> nk_level (sibling q) \<noteq> 0 \<and> is_anc (parent (sibling q)) ?k"
      using q sibling_parent[OF q(2)] is_anc_trans[OF parent_anc q(1)] by simp
  qed
  have sv: "tr_sibling_values ops s ?k = Some (ref_siblings t g (unat i) 0 (ht s), new_root)"
    using sibling_values_path[OF assms(1) vk _ sib] by (simp add: ref_siblings_def)
  have leaf: "op_get ops s ?k = Some (g (unat i))"
    using get_law[OF assms(1), of ?k] assms(3)[OF vk] by (simp add: node_val_def)
  have "vals s new_root = node_val t (ht s) g new_root"
    by (rule assms(3)) (use root_anc[OF vk] in \<open>auto simp: valid_key_iff new_root_def\<close>)
  hence root: "op_get ops s new_root = Some (mnode t g (ht s) 0)"
    using get_law[OF assms(1), of new_root] unfolding node_val_root by (simp add: new_root_def)
  show ?thesis by (simp add: tr_get_leaf_def leaf sv root ref_proof_def)
qed

lemma anc_covers:
  assumes "is_anc k (Node_Key (op_height ops s) (of_nat i))" "a \<le> i" "i < a + n" "a + n \<le> 2 ^ 63"
  shows "covers (ht s) a n k"
proof -
  have "unat (of_nat i :: u64) = i" using assms(3,4) by (simp add: unat_of_nat)
  thus ?thesis using assms unfolding covers_def is_anc_iff by auto
qed

lemma leaf_proofs_all:
  "(\<And>i. i < n \<Longrightarrow> tr_get_leaf ops s (a + of_nat i) = Some (F i)) \<Longrightarrow>
   leaf_proofs ops s a n = Some (map F [0..<n])"
proof (induction n arbitrary: a F)
  case (Suc n)
  have "leaf_proofs ops s (a + 1) n = Some (map (\<lambda>i. F (Suc i)) [0..<n])"
    by (rule Suc.IH) (use Suc.prems[of "Suc i" for i] in \<open>simp add: add.assoc\<close>)
  thus ?case using Suc.prems[of 0] by (simp add: map_upt_Suc del: upt_Suc)
qed simp

lemma compact_proofs_stores:
  assumes "stores s0 (\<lambda>_. z)" "\<forall>i. unat a \<le> i \<longrightarrow> f i = z" "unat a + length vs \<le> 2 ^ ht s0" "unat a < 2 ^ ht s0"
  shows "compact_proofs ops t s0 a (ref_siblings t f (unat a) 0 (ht s0)) vs =
    Some (map (\<lambda>i. ref_proof t (ht s0) (write_leaves f (unat a) vs) (a + of_nat i)) [0..<length vs])"
proof -
  obtain s1 s2 s3 where e: "injest_siblings ops s0 (Node_Key (op_height ops s0) a) (ref_siblings t f (unat a) 0 (ht s0)) =
        Some (s1, (parent ^^ ht s0) (Node_Key (op_height ops s0) a)) \<and>
      set_leaves_from ops s1 a vs = Some s2 \<and> rehash_each ops t s2 a (length vs) = Some s3 \<and> inv s3 \<and>
      op_height ops s3 = op_height ops s0 \<and>
      (\<forall>k. valid_key k \<longrightarrow> lev k \<le> ht s0 \<longrightarrow> covers (ht s0) (unat a) (length vs) k \<or>
          (nk_level k \<noteq> 0 \<and> covers (ht s0) (unat a) (length vs) (parent k)) \<longrightarrow>
        vals s3 k = node_val t (ht s0) (write_leaves f (unat a) vs) k)"
    using compact_store[where f = f and vs = vs, OF assms] by (elim exE) iprover
  have s3: "inv s3" "op_height ops s3 = op_height ops s0" using e by blast+
  have h: "ht s0 \<le> 63" using height_le assms(1) by blast
  have b63: "unat a + length vs \<le> 2 ^ 63" using assms(3) pow63[OF h] by simp
  have "tr_get_leaf ops s3 (a + of_nat i) = Some (ref_proof t (ht s0) (write_leaves f (unat a) vs) (a + of_nat i))"
    if "i < length vs" for i
  proof -
    have u: "unat (of_nat i :: u64) = i" using that b63 by (simp add: unat_of_nat)
    have ai: "unat (a + of_nat i) = unat a + i" using unat_add_small[of a "of_nat i"] that b63 u by simp
    have e2: "a + of_nat i = of_nat (unat a + i)" by simp
    have c: "covers (ht s0) (unat a) (length vs) k" if "is_anc k (Node_Key (op_height ops s3) (a + of_nat i))" for k
      by (rule anc_covers[of k s0 "unat a + i"]) (use that \<open>i < length vs\<close> b63 s3(2) in auto)
    have "tr_get_leaf ops s3 (a + of_nat i) = Some (ref_proof t (ht s3) (write_leaves f (unat a) vs) (a + of_nat i))"
      by (rule leaf_proof_path[OF s3(1)]) (use e c s3(2) ai that assms(3) in auto)
    thus ?thesis using s3(2) by simp
  qed
  thus ?thesis using e leaf_proofs_all[of "length vs" s3 a] by (simp add: compact_proofs_def)
qed

section \<open>Historical proofs\<close>

lemma historical_siblings_stores:
  assumes "stores s f" "j < 2 ^ 64"
    "f' = (\<lambda>i. if i \<le> j then f i else z)"
  shows "valid_key q \<Longrightarrow> lev q \<le> ht s \<Longrightarrow> unat (nk_index q) = j div 2 ^ (ht s - lev q) \<Longrightarrow> nk_level q \<noteq> 0 \<Longrightarrow>
    tr_historical_siblings ops H s (sibling q) = Some (ref_siblings t f' j (ht s - lev q) (ht s))"
proof (induction "lev q" arbitrary: q)
  case (Suc n)
  let ?d = "ht s - lev q" and ?i = "unat (nk_index q)"
  have u: "[?d..<ht s] = ?d # [Suc ?d..<ht s]" using Suc.hyps(2) Suc.prems(2) by (intro upt_conv_Cons) simp
  have dp: "ht s - lev (parent q) = Suc ?d" using lev_pos[OF Suc.prems(4)] Suc.prems(2) by (simp add: lev_parent)
  have pi: "unat (nk_index (parent q)) = j div 2 ^ (ht s - lev (parent q))"
    unfolding dp unat_parent[OF Suc.prems(4)] Suc.prems(3) by (metis div_mult2_eq power_Suc2)
  have val: "(if nk_index (sibling q) AND 1 = 1 then Some (get_zero_hash H (ht s - lev (sibling q)))
      else op_get ops s (sibling q)) = Some (mnode t f' ?d (sib_index ?i))"
  proof (cases "even ?i")
    case True
    hence si: "sib_index ?i = ?i + 1" by (simp add: sib_index_def)
    have "nk_index (sibling q) AND 1 = 1"
      using index_even[of "sibling q"] and_one_u64[of "nk_index (sibling q)"] True unfolding unat_sibling si by simp
    moreover have "mnode t f' ?d (?i + 1) = zero_at t z ?d"
    proof -
      have "j < (?i + 1) * 2 ^ ?d" using Suc.prems(3) block_div[of j ?d ?i] by simp
      hence "mnode t f' ?d (?i + 1) = mnode t (\<lambda>_. z) ?d (?i + 1)"
        by (intro mnode_cong) (auto simp: assms(3))
      thus ?thesis by (simp add: mnode_zero)
    qed
    ultimately show ?thesis using si get_zero by simp
  next
    case False
    hence si: "sib_index ?i = ?i - 1" "0 < ?i" by (auto simp: sib_index_def elim!: oddE)
    have "nk_index (sibling q) AND 1 \<noteq> 1"
      using index_even[of "sibling q"] and_one_u64[of "nk_index (sibling q)"] False si(2)
      unfolding unat_sibling si(1) by (simp add: even_diff_nat)
    moreover have "op_get ops s (sibling q) = Some (mnode t f ?d (?i - 1))"
      using get_law[of s "sibling q"] tree_repD[OF conjunct2[OF assms(1)] valid_sibling[OF Suc.prems(1,4)]]
        assms(1) Suc.prems(2) by (simp add: node_val_def unat_sibling si(1))
    moreover have "mnode t f' ?d (?i - 1) = mnode t f ?d (?i - 1)"
    proof (rule mnode_cong)
      fix x assume x: "x < (?i - 1 + 1) * 2 ^ ?d"
      have "?i * 2 ^ ?d \<le> j" using Suc.prems(3) block_div[of j ?d ?i] by simp
      hence "x \<le> j" using x si(2) by simp
      thus "f' x = f x" by (simp add: assms(3))
    qed
    ultimately show ?thesis using si by simp
  qed
  have rest: "tr_historical_siblings ops H s (sibling (parent q)) = Some (ref_siblings t f' j (Suc ?d) (ht s))"
  proof (cases "nk_level (parent q) = 0")
    case True
    hence "ht s = Suc ?d" using dp by simp
    hence "ref_siblings t f' j (Suc ?d) (ht s) = []" by (simp add: ref_siblings_def)
    thus ?thesis using True by (simp add: tr_historical_siblings.simps[of ops H s "sibling (parent q)"])
  next
    case False
    have "n = lev (parent q)" "lev (parent q) \<le> ht s" using Suc.hyps(2) Suc.prems(2) by (simp_all add: lev_parent)
    thus ?thesis using Suc.hyps(1)[of "parent q", OF _ parent_valid[OF Suc.prems(1)] _ pi False] unfolding dp by simp
  qed
  have ps: "sibling (parent (sibling q)) = sibling (parent q)" using sibling_parent[OF Suc.prems(4)] by simp
  have sp: "nk_level (sibling q) > 0" using Suc.prems(4) by (simp add: word_neq_0_conv)
  have r: "ref_siblings t f' j ?d (ht s) = mnode t f' ?d (sib_index ?i) # ref_siblings t f' j (Suc ?d) (ht s)"
    using u Suc.prems(3) by (simp add: ref_siblings_def)
  show ?case unfolding tr_historical_siblings.simps[of ops H s "sibling q"] ps rest val r using sp by simp
qed (auto simp: unat_eq_zero)

lemma historical_proof_stores:
  assumes "stores s f" "unat i < 2 ^ ht s"
  shows "tr_get_historical_merkle_proof ops H s i =
    Some (ref_proof t (ht s) (\<lambda>j. if j \<le> unat i then f j else z) i)"
proof -
  let ?f = "\<lambda>j. if j \<le> unat i then f j else z"
  let ?k = "Node_Key (op_height ops s) i"
  have h: "ht s \<le> 64" using height_le assms(1) by fastforce
  have "tr_historical_siblings ops H s (sibling ?k) = Some (ref_siblings t ?f (unat i) 0 (ht s))"
  proof (cases "nk_level ?k = 0")
    case True
    hence "op_height ops s = 0" by simp
    thus ?thesis by (simp add: tr_historical_siblings.simps[of ops H s "sibling (Node_Key 0 i)"] ref_siblings_def)
  next
    case False
    thus ?thesis using historical_siblings_stores[OF assms(1) _ refl, of "unat i" ?k]
        leaf_key_valid[OF conjunct1[OF assms(1)] assms(2)] unsigned_less[of i, where 'a = nat] by simp
  qed
  moreover have "root_loop t i 0 (?f (unat i)) (ref_siblings t ?f (unat i) 0 (ht s)) = mnode t ?f (ht s) 0"
    using root_loop_ref[of 0 "ht s" t i ?f] h assms(2) by simp
  ultimately show ?thesis using get_leaf_value_stores[OF assms]
    by (simp add: tr_get_historical_merkle_proof_def ref_proof_def compute_root_merkle_proof_generic_def)
qed

section \<open>Ingesting a proof\<close>

text \<open>The rehash after the walk starts at the root, so no inner node of the path is updated.\<close>

lemma injest_keeps_root:
  assumes "inv s" "0 < ht s" "length (mp_siblings p) = ht s" "unat (mp_index p) < 2 ^ ht s"
  shows "\<exists>s'. tr_injest_merkle_proof ops t s p = Some (Inr (), s') \<and> tr_get_root ops s' = tr_get_root ops s"
proof -
  let ?k = "Node_Key (op_height ops s) (mp_index p)"
  have vk: "valid_key ?k" using leaf_key_valid[OF assms(1,4)] .
  obtain s1 where s1: "op_set ops s ?k (mp_value p) = Some s1" "inv s1" "op_height ops s1 = op_height ops s"
      "vals s1 = (vals s)(?k := mp_value p)" using set_law[OF assms(1), of ?k "mp_value p"] by auto
  have l: "lev ?k \<le> ht s1" "length (mp_siblings p) \<le> lev ?k" using s1(3) assms(3) by simp_all
  obtain s2 where e: "injest_siblings ops s1 ?k (mp_siblings p) = Some (s2, (parent ^^ length (mp_siblings p)) ?k) \<and> inv s2 \<and>
    op_height ops s2 = op_height ops s1 \<and>
    (\<forall>n < length (mp_siblings p). vals s2 (sibling ((parent ^^ n) ?k)) = mp_siblings p ! n) \<and>
    (\<forall>x. (\<forall>n < length (mp_siblings p). x \<noteq> sibling ((parent ^^ n) ?k)) \<longrightarrow> vals s2 x = vals s1 x)"
    using injest_siblings_vals[OF s1(2) vk l] by (rule exE)
  have "lev ((parent ^^ ht s) ?k) = 0" using funpow_parent[of "ht s" ?k] by simp
  hence "nk_level ((parent ^^ ht s) ?k) = 0" by (simp add: unat_eq_zero)
  hence r: "tr_rehash_from_node_to_level ops t s2 ((parent ^^ ht s) ?k) 0 = Some s2"
    by (simp add: tr_rehash_from_node_to_level.simps[of ops t s2 "(parent ^^ ht s) ?k"])
  have "new_root \<noteq> sibling ((parent ^^ n) ?k)" if "n < ht s" for n
  proof
    assume "new_root = sibling ((parent ^^ n) ?k)"
    hence "lev new_root = lev ((parent ^^ n) ?k)" using lev_sibling[of "(parent ^^ n) ?k"] by metis
    thus False using funpow_parent[of n ?k] that by (simp add: new_root_def)
  qed
  hence "vals s2 new_root = vals s1 new_root" using e unfolding assms(3) by blast
  moreover have "new_root \<noteq> ?k" using assms(2) by (auto simp: new_root_def)
  ultimately have "vals s2 new_root = vals s new_root" using s1(4) by simp
  moreover have "inv s2" "lev new_root = 0" using e by (simp_all add: new_root_def)
  ultimately have "tr_get_root ops s2 = tr_get_root ops s"
    using get_law[of s2 new_root] get_law[of s new_root] assms(1) by (simp add: tr_get_root_def)
  thus ?thesis using s1(1) e r assms(3) by (simp add: tr_injest_merkle_proof_def Let_def)
qed

end

end
