(* ===== verification/Dash_Store.thy ===== *)
theory Dash_Store
  imports Store_Paths
begin

text \<open>
  The two concurrent-map stores, \<open>PsyDashMemoryMerkleStore\<close>
  (\<open>src/parth_common/src/memory_stores/dash_tree.rs\<close>) and \<open>PsyDashRecorderMemoryMerkleStore\<close>
  (\<open>dash_tree_recorder.rs\<close>), run by one thread. Each implements the four required methods of the
  trait, which discharges the contract \<open>node_store\<close>; the properties of the provided methods are
  the facts of the interpretations.
\<close>

section \<open>The plain store\<close>

record 'h dash_store =
  ds_nodes :: "node_key \<Rightarrow> 'h option"
  ds_height :: u8
  ds_zero_value_hashes :: "'h list"

definition dash_new :: "'h hasher \<Rightarrow> u8 \<Rightarrow> 'h dash_store" where
  "dash_new H height = \<lparr>ds_nodes = Map.empty, ds_height = height,
     ds_zero_value_hashes = map (get_zero_hash H) [0..<Suc (unat height)]\<rparr>"

text \<open>A vector read out of range panics.\<close>

definition vec_get :: "'h list \<Rightarrow> nat \<Rightarrow> 'h option" where
  "vec_get xs i = (if i < length xs then Some (xs ! i) else None)"

definition dash_get_zero_hash_for_level :: "'h dash_store \<Rightarrow> u8 \<Rightarrow> 'h option" where
  "dash_get_zero_hash_for_level s level = vec_get (ds_zero_value_hashes s) (unat (ds_height s - level))"

definition dash_set_node_value :: "'h dash_store \<Rightarrow> node_key \<Rightarrow> 'h \<Rightarrow> 'h dash_store option" where
  "dash_set_node_value s key v =
     do { zero \<leftarrow> dash_get_zero_hash_for_level s (nk_level key);
          Some (if v = zero then s\<lparr>ds_nodes := (ds_nodes s)(key := None)\<rparr>
                else s\<lparr>ds_nodes := (ds_nodes s)(key \<mapsto> v)\<rparr>) }"

definition dash_get_node_value :: "'h dash_store \<Rightarrow> node_key \<Rightarrow> 'h option" where
  "dash_get_node_value s key =
     (case ds_nodes s key of Some v \<Rightarrow> Some v | None \<Rightarrow> dash_get_zero_hash_for_level s (nk_level key))"

definition dash_ops :: "('h dash_store, 'h) store_ops" where
  "dash_ops = \<lparr>op_height = ds_height, op_zero = dash_get_zero_hash_for_level,
     op_set = dash_set_node_value, op_get = dash_get_node_value\<rparr>"

text \<open>\<open>recompute_entire_level\<close> and \<open>recompute_entire_tree\<close>, over the methods they call.\<close>

fun recompute_nodes ::
  "('s, 'h) store_ops \<Rightarrow> ('h \<Rightarrow> 'h \<Rightarrow> 'h) \<Rightarrow> u8 \<Rightarrow> 's \<Rightarrow> u64 \<Rightarrow> nat \<Rightarrow> 's option" where
  "recompute_nodes ops t level s i 0 = Some s"
| "recompute_nodes ops t level s i (Suc n) =
     do { left_hash \<leftarrow> op_get ops s (left_child (Node_Key level i));
          right_hash \<leftarrow> op_get ops s (right_child (Node_Key level i));
          s \<leftarrow> op_set ops s (Node_Key level i) (t left_hash right_hash);
          recompute_nodes ops t level s (i + 1) n }"

definition recompute_entire_level ::
  "('s, 'h) store_ops \<Rightarrow> ('h \<Rightarrow> 'h \<Rightarrow> 'h) \<Rightarrow> u8 \<Rightarrow> 's \<Rightarrow> 's option" where
  "recompute_entire_level ops t level s =
     (if level \<ge> op_height ops s then Some s
      else recompute_nodes ops t level s 0 (unat (shl64 1 (unat level))))"

fun recompute_levels :: "('s, 'h) store_ops \<Rightarrow> ('h \<Rightarrow> 'h \<Rightarrow> 'h) \<Rightarrow> nat \<Rightarrow> 's \<Rightarrow> 's option" where
  "recompute_levels ops t 0 s = Some s"
| "recompute_levels ops t (Suc n) s =
     do { s \<leftarrow> recompute_entire_level ops t (of_nat n) s; recompute_levels ops t n s }"

definition recompute_entire_tree :: "('s, 'h) store_ops \<Rightarrow> ('h \<Rightarrow> 'h \<Rightarrow> 'h) \<Rightarrow> 's \<Rightarrow> 's option" where
  "recompute_entire_tree ops t s = recompute_levels ops t (unat (op_height ops s)) s"

definition dash_get_merkle_proofs_for_compact_imm ::
  "'h hasher \<Rightarrow> u64 \<Rightarrow> 'h list \<Rightarrow> 'h list \<Rightarrow> 'h merkle_proof list option" where
  "dash_get_merkle_proofs_for_compact_imm H from_index sibs vs =
     compact_proofs dash_ops (two_to_one H) (dash_new H (of_nat (length sibs))) from_index sibs vs"

section \<open>The recorder\<close>

record 'h rec_store =
  rs_nodes :: "node_key \<Rightarrow> 'h option"
  rs_updated_nodes :: "node_key \<Rightarrow> 'h option"
  rs_height :: u8
  rs_zero_value_hashes :: "'h list"

definition rec_new :: "'h hasher \<Rightarrow> u8 \<Rightarrow> 'h rec_store" where
  "rec_new H height = \<lparr>rs_nodes = Map.empty, rs_updated_nodes = Map.empty, rs_height = height,
     rs_zero_value_hashes = map (get_zero_hash H) [0..<Suc (unat height)]\<rparr>"

definition rec_get_changes :: "'h rec_store \<Rightarrow> node_key \<Rightarrow> 'h option" where
  "rec_get_changes s = rs_updated_nodes s"

definition rec_commit_changes :: "'h rec_store \<Rightarrow> 'h rec_store" where
  "rec_commit_changes s =
     s\<lparr>rs_nodes := rs_nodes s ++ rs_updated_nodes s, rs_updated_nodes := Map.empty\<rparr>"

definition rec_get_zero_hash_for_level :: "'h rec_store \<Rightarrow> u8 \<Rightarrow> 'h option" where
  "rec_get_zero_hash_for_level s level = vec_get (rs_zero_value_hashes s) (unat (rs_height s - level))"

definition rec_set_node_value :: "'h rec_store \<Rightarrow> node_key \<Rightarrow> 'h \<Rightarrow> 'h rec_store option" where
  "rec_set_node_value s key v = Some (s\<lparr>rs_updated_nodes := (rs_updated_nodes s)(key \<mapsto> v)\<rparr>)"

definition rec_get_node_value :: "'h rec_store \<Rightarrow> node_key \<Rightarrow> 'h option" where
  "rec_get_node_value s key =
     (case rs_updated_nodes s key of Some v \<Rightarrow> Some v
      | None \<Rightarrow> (case rs_nodes s key of Some v \<Rightarrow> Some v
                 | None \<Rightarrow> rec_get_zero_hash_for_level s (nk_level key)))"

definition rec_ops :: "('h rec_store, 'h) store_ops" where
  "rec_ops = \<lparr>op_height = rs_height, op_zero = rec_get_zero_hash_for_level,
     op_set = rec_set_node_value, op_get = rec_get_node_value\<rparr>"

definition rec_get_merkle_proofs_for_compact_imm ::
  "'h hasher \<Rightarrow> u64 \<Rightarrow> 'h list \<Rightarrow> 'h list \<Rightarrow> 'h merkle_proof list option" where
  "rec_get_merkle_proofs_for_compact_imm H from_index sibs vs =
     compact_proofs rec_ops (two_to_one H) (rec_new H (of_nat (length sibs))) from_index sibs vs"

section \<open>Both stores satisfy the contract\<close>

definition dash_inv :: "'h hasher \<Rightarrow> 'h dash_store \<Rightarrow> bool" where
  "dash_inv H s \<longleftrightarrow> unat (ds_height s) \<le> 63 \<and>
     ds_zero_value_hashes s = map (get_zero_hash H) [0..<Suc (unat (ds_height s))]"

definition dash_vals :: "'h hasher \<Rightarrow> 'h dash_store \<Rightarrow> node_key \<Rightarrow> 'h" where
  "dash_vals H s k =
     (case ds_nodes s k of Some v \<Rightarrow> v | None \<Rightarrow> get_zero_hash H (unat (ds_height s) - lev k))"

definition rec_inv :: "'h hasher \<Rightarrow> 'h rec_store \<Rightarrow> bool" where
  "rec_inv H s \<longleftrightarrow> unat (rs_height s) \<le> 63 \<and>
     rs_zero_value_hashes s = map (get_zero_hash H) [0..<Suc (unat (rs_height s))]"

definition rec_vals :: "'h hasher \<Rightarrow> 'h rec_store \<Rightarrow> node_key \<Rightarrow> 'h" where
  "rec_vals H s k =
     (case (rs_nodes s ++ rs_updated_nodes s) k of Some v \<Rightarrow> v
      | None \<Rightarrow> get_zero_hash H (unat (rs_height s) - lev k))"

lemma zero_table: "unat l \<le> unat h \<Longrightarrow>
  vec_get (map (get_zero_hash H) [0..<Suc (unat h)]) (unat (h - l :: u8)) = Some (get_zero_hash H (unat h - unat l))"
  by (simp add: vec_get_def sub_root_level del: upt_Suc)

lemma dash_zero: "dash_inv H s \<Longrightarrow> unat l \<le> unat (ds_height s) \<Longrightarrow>
  dash_get_zero_hash_for_level s l = Some (get_zero_hash H (unat (ds_height s) - unat l))"
  unfolding dash_get_zero_hash_for_level_def dash_inv_def by (simp add: zero_table del: upt_Suc)

lemma rec_zero: "rec_inv H s \<Longrightarrow> unat l \<le> unat (rs_height s) \<Longrightarrow>
  rec_get_zero_hash_for_level s l = Some (get_zero_hash H (unat (rs_height s) - unat l))"
  unfolding rec_get_zero_hash_for_level_def rec_inv_def by (simp add: zero_table del: upt_Suc)

interpretation dash: node_store "mk_hasher t z" z dash_ops "dash_inv (mk_hasher t z)" "dash_vals (mk_hasher t z)"
  for t :: "'h \<Rightarrow> 'h \<Rightarrow> 'h" and z
proof unfold_locales
  fix s :: "'h dash_store" and k v and l :: u8
  let ?H = "mk_hasher t z"
  assume inv: "dash_inv ?H s"
  show "unat (op_height dash_ops s) \<le> 63" using inv by (simp add: dash_ops_def dash_inv_def)
  show "op_zero dash_ops s l = Some (get_zero_hash ?H (unat (op_height dash_ops s) - unat l))"
    if "unat l \<le> unat (op_height dash_ops s)"
    using that dash_zero[OF inv] by (simp add: dash_ops_def)
  assume "lev k \<le> unat (op_height dash_ops s)"
  hence zl: "dash_get_zero_hash_for_level s (nk_level k) = Some (get_zero_hash ?H (unat (ds_height s) - lev k))"
    using dash_zero[OF inv] by (simp add: dash_ops_def)
  show "op_get dash_ops s k = Some (dash_vals ?H s k)"
    using zl by (simp add: dash_ops_def dash_get_node_value_def dash_vals_def split: option.split)
  show "\<exists>s'. op_set dash_ops s k v = Some s' \<and> dash_inv ?H s' \<and> op_height dash_ops s' = op_height dash_ops s \<and>
      dash_vals ?H s' = (dash_vals ?H s)(k := v)"
    using zl inv by (auto simp: dash_ops_def dash_set_node_value_def dash_vals_def dash_inv_def fun_eq_iff split: option.splits)
qed

interpretation recorder: node_store "mk_hasher t z" z rec_ops "rec_inv (mk_hasher t z)" "rec_vals (mk_hasher t z)"
  for t :: "'h \<Rightarrow> 'h \<Rightarrow> 'h" and z
proof unfold_locales
  fix s :: "'h rec_store" and k v and l :: u8
  let ?H = "mk_hasher t z"
  assume inv: "rec_inv ?H s"
  show "unat (op_height rec_ops s) \<le> 63" using inv by (simp add: rec_ops_def rec_inv_def)
  show "op_zero rec_ops s l = Some (get_zero_hash ?H (unat (op_height rec_ops s) - unat l))"
    if "unat l \<le> unat (op_height rec_ops s)"
    using that rec_zero[OF inv] by (simp add: rec_ops_def)
  assume "lev k \<le> unat (op_height rec_ops s)"
  hence zl: "rec_get_zero_hash_for_level s (nk_level k) = Some (get_zero_hash ?H (unat (rs_height s) - lev k))"
    using rec_zero[OF inv] by (simp add: rec_ops_def)
  show "op_get rec_ops s k = Some (rec_vals ?H s k)"
    using zl by (simp add: rec_ops_def rec_get_node_value_def rec_vals_def map_add_def split: option.split)
  show "\<exists>s'. op_set rec_ops s k v = Some s' \<and> rec_inv ?H s' \<and> op_height rec_ops s' = op_height rec_ops s \<and>
      rec_vals ?H s' = (rec_vals ?H s)(k := v)"
    using inv by (auto simp: rec_ops_def rec_set_node_value_def rec_vals_def rec_inv_def fun_eq_iff map_add_def split: option.splits)
qed

section \<open>Empty stores\<close>

lemma stores_zero:
  assumes "\<And>k. vs k = get_zero_hash (mk_hasher t z) (h - lev k)"
  shows "tree_rep t h vs (\<lambda>_. z)"
  unfolding tree_rep_def node_val_def assms mnode_zero mk.get_zero by (simp add: mk_hasher_def)

lemma dash_new_stores:
  "unat h \<le> 63 \<Longrightarrow> dash_inv (mk_hasher t z) (dash_new (mk_hasher t z) h) \<and>
   tree_rep t (unat (op_height dash_ops (dash_new (mk_hasher t z) h)))
     (dash_vals (mk_hasher t z) (dash_new (mk_hasher t z) h)) (\<lambda>_. z)"
  by (auto simp: dash_inv_def dash_new_def dash_ops_def dash_vals_def intro!: stores_zero)

lemma rec_new_stores:
  "unat h \<le> 63 \<Longrightarrow> rec_inv (mk_hasher t z) (rec_new (mk_hasher t z) h) \<and>
   tree_rep t (unat (op_height rec_ops (rec_new (mk_hasher t z) h)))
     (rec_vals (mk_hasher t z) (rec_new (mk_hasher t z) h)) (\<lambda>_. z)"
  by (auto simp: rec_inv_def rec_new_def rec_ops_def rec_vals_def intro!: stores_zero)

lemma two_to_one_mk [simp]: "two_to_one (mk_hasher t z) = t"
  by (simp add: mk_hasher_def)

section \<open>Recomputing the whole tree\<close>

context node_store
begin

lemma recompute_nodes_level:
  assumes "inv s" "unat l < ht s" "unat i + n \<le> 2 ^ unat l"
    "\<And>k. valid_key k \<Longrightarrow> lev k = Suc (unat l) \<Longrightarrow> vals s k = node_val t (ht s) f k"
  shows "\<exists>s'. recompute_nodes ops t l s i n = Some s' \<and> inv s' \<and> op_height ops s' = op_height ops s \<and>
    (\<forall>k. nk_level k = l \<longrightarrow> unat i \<le> unat (nk_index k) \<longrightarrow> unat (nk_index k) < unat i + n \<longrightarrow>
       vals s' k = node_val t (ht s) f k) \<and>
    (\<forall>k. \<not> (nk_level k = l \<and> unat i \<le> unat (nk_index k) \<and> unat (nk_index k) < unat i + n) \<longrightarrow> vals s' k = vals s k)"
  using assms
proof (induction n arbitrary: i s)
  case 0
  thus ?case by auto
next
  case (Suc n)
  let ?k = "Node_Key l i"
  have h: "ht s \<le> 63" using height_le[OF Suc.prems(1)] .
  have l64: "lev ?k < 64" "lev ?k < ht s" "ht s \<le> 64" using h Suc.prems(2) by auto
  have vk: "valid_key ?k" using l64 Suc.prems(3) by (simp add: valid_key_iff)
  note cv = child_valid[OF vk l64(1)] and lc = lev_child[OF l64(1)]
  have lcs: "lev (left_child ?k) = Suc (unat l)" "lev (right_child ?k) = Suc (unat l)" using lc by simp_all
  have g: "op_get ops s (left_child ?k) = Some (node_val t (ht s) f (left_child ?k))"
      "op_get ops s (right_child ?k) = Some (node_val t (ht s) f (right_child ?k))"
    using get_law[OF Suc.prems(1)] Suc.prems(4)[OF cv(1) lcs(1)] Suc.prems(4)[OF cv(2) lcs(2)] lcs Suc.prems(2)
    by simp_all
  let ?v = "node_val t (ht s) f ?k"
  have v: "t (node_val t (ht s) f (left_child ?k)) (node_val t (ht s) f (right_child ?k)) = ?v"
    using node_val_children[OF vk l64(2,3), of t f] by simp
  obtain s1 where s1: "op_set ops s ?k ?v = Some s1" "inv s1" "op_height ops s1 = op_height ops s"
      "vals s1 = (vals s)(?k := ?v)" using set_law[OF Suc.prems(1), of ?k ?v] Suc.prems(2) by auto
  have "unat i + 1 < 2 ^ 64" using Suc.prems(3) pow63[of "unat l"] h Suc.prems(2) by simp
  hence i1: "unat (i + 1) = Suc (unat i)" using unat_add_small[of i 1] by simp
  have lower: "vals s1 k = node_val t (ht s1) f k" if "valid_key k" "lev k = Suc (unat l)" for k
    using Suc.prems(4)[OF that] s1(3,4) that(2) by auto
  have b: "unat l < ht s1" "unat (i + 1) + n \<le> 2 ^ unat l" using Suc.prems(2,3) s1(3) i1 by simp_all
  obtain s2 where e: "recompute_nodes ops t l s1 (i + 1) n = Some s2 \<and> inv s2 \<and> op_height ops s2 = op_height ops s1 \<and>
    (\<forall>k. nk_level k = l \<longrightarrow> unat (i + 1) \<le> unat (nk_index k) \<longrightarrow> unat (nk_index k) < unat (i + 1) + n \<longrightarrow>
       vals s2 k = node_val t (ht s1) f k) \<and>
    (\<forall>k. \<not> (nk_level k = l \<and> unat (i + 1) \<le> unat (nk_index k) \<and> unat (nk_index k) < unat (i + 1) + n) \<longrightarrow>
       vals s2 k = vals s1 k)"
    using Suc.IH[OF s1(2) b lower] by (rule exE)
  have key: "k = ?k" if "nk_level k = l" "unat (nk_index k) = unat i" for k
    using that by (simp add: key_eq_iff)
  have "vals s2 k = node_val t (ht s) f k"
    if "nk_level k = l" "unat i \<le> unat (nk_index k)" "unat (nk_index k) < unat i + Suc n" for k
  proof (cases "unat (nk_index k) = unat i")
    case True
    thus ?thesis using e key[OF that(1) True] i1 s1(4) by simp
  next
    case False
    hence "unat (i + 1) \<le> unat (nk_index k)" "unat (nk_index k) < unat (i + 1) + n" using that i1 by simp_all
    thus ?thesis using e that(1) s1(3) by simp
  qed
  moreover have "vals s2 k = vals s k"
    if "\<not> (nk_level k = l \<and> unat i \<le> unat (nk_index k) \<and> unat (nk_index k) < unat i + Suc n)" for k
  proof -
    have "\<not> (nk_level k = l \<and> unat (i + 1) \<le> unat (nk_index k) \<and> unat (nk_index k) < unat (i + 1) + n)" "k \<noteq> ?k"
      using that i1 by auto
    thus ?thesis using e s1(4) by simp
  qed
  moreover have "recompute_nodes ops t l s i (Suc n) = Some s2" using e g v s1(1) by simp
  ultimately show ?case using e s1(3) by (intro exI[of _ s2]) simp
qed

lemma recompute_levels_ok:
  assumes "inv s" "n \<le> ht s" "\<And>k. valid_key k \<Longrightarrow> n \<le> lev k \<Longrightarrow> lev k \<le> ht s \<Longrightarrow> vals s k = node_val t (ht s) f k"
  shows "\<exists>s'. recompute_levels ops t n s = Some s' \<and> op_height ops s' = op_height ops s \<and> stores s' f"
  using assms
proof (induction n arbitrary: s)
  case 0
  thus ?case by (simp add: tree_rep_def)
next
  case (Suc n)
  let ?l = "of_nat n :: u8"
  have h: "ht s \<le> 63" using height_le[OF Suc.prems(1)] .
  have ul: "unat ?l = n" using Suc.prems(2) h by (simp add: unat_of_nat)
  have sh: "unat (shl64 1 (unat ?l) :: u64) = 2 ^ n" unfolding ul using unat_pow2_u64[of n] Suc.prems(2) h
    by (simp add: push_bit_eq_mult)
  have c: "unat ?l < ht s" "unat (0 :: u64) + 2 ^ n \<le> 2 ^ unat ?l" using ul Suc.prems(2) by simp_all
  have lower: "vals s k = node_val t (ht s) f k" if "valid_key k" "lev k = Suc (unat ?l)" for k
    using Suc.prems(3)[OF that(1)] that(2) ul Suc.prems(2) by simp
  obtain s1 where e: "recompute_nodes ops t ?l s 0 (2 ^ n) = Some s1 \<and> inv s1 \<and> op_height ops s1 = op_height ops s \<and>
    (\<forall>k. nk_level k = ?l \<longrightarrow> unat (0 :: u64) \<le> unat (nk_index k) \<longrightarrow> unat (nk_index k) < unat (0 :: u64) + 2 ^ n \<longrightarrow>
       vals s1 k = node_val t (ht s) f k) \<and>
    (\<forall>k. \<not> (nk_level k = ?l \<and> unat (0 :: u64) \<le> unat (nk_index k) \<and> unat (nk_index k) < unat (0 :: u64) + 2 ^ n) \<longrightarrow>
       vals s1 k = vals s k)"
    using recompute_nodes_level[OF Suc.prems(1) c lower] by (rule exE)
  have "recompute_entire_level ops t ?l s = Some s1"
    using e c(1) unfolding recompute_entire_level_def sh by (simp add: word_le_nat_alt)
  moreover have "vals s1 k = node_val t (ht s1) f k" if "valid_key k" "n \<le> lev k" "lev k \<le> ht s1" for k
  proof (cases "lev k = n")
    case True
    hence "nk_level k = ?l" using ul by (simp add: iffD2[OF word_unat_eq_iff])
    moreover have "unat (nk_index k) < 2 ^ n" using that(1) True by (simp add: valid_key_iff)
    ultimately show ?thesis using e by simp
  next
    case False
    hence "nk_level k \<noteq> ?l" using ul by auto
    hence "vals s1 k = vals s k" using e by blast
    thus ?thesis using Suc.prems(3)[OF that(1)] False that e by simp
  qed
  moreover have "n \<le> ht s1" using e Suc.prems(2) by simp
  ultimately show ?case using Suc.IH[of s1] e by auto
qed

lemma recompute_tree_ok:
  assumes "inv s" "\<And>k. valid_key k \<Longrightarrow> lev k = ht s \<Longrightarrow> vals s k = f (unat (nk_index k))"
  shows "\<exists>s'. recompute_entire_tree ops t s = Some s' \<and> op_height ops s' = op_height ops s \<and> stores s' f"
  unfolding recompute_entire_tree_def
  by (rule recompute_levels_ok[OF assms(1) order_refl]) (use assms(2) in \<open>auto simp: node_val_def\<close>)

end

section \<open>Properties\<close>

text \<open>A store that holds the tree over the leaves \<open>f\<close>.\<close>

definition dash_stores :: "('h \<Rightarrow> 'h \<Rightarrow> 'h) \<Rightarrow> 'h \<Rightarrow> 'h dash_store \<Rightarrow> (nat \<Rightarrow> 'h) \<Rightarrow> bool" where
  "dash_stores t z s f \<longleftrightarrow>
     dash_inv (mk_hasher t z) s \<and> tree_rep t (unat (ds_height s)) (dash_vals (mk_hasher t z) s) f"

definition rec_stores :: "('h \<Rightarrow> 'h \<Rightarrow> 'h) \<Rightarrow> 'h \<Rightarrow> 'h rec_store \<Rightarrow> (nat \<Rightarrow> 'h) \<Rightarrow> bool" where
  "rec_stores t z s f \<longleftrightarrow>
     rec_inv (mk_hasher t z) s \<and> tree_rep t (unat (rs_height s)) (rec_vals (mk_hasher t z) s) f"

lemma op_heights [simp]: "op_height dash_ops s = ds_height s" "op_height rec_ops r = rs_height r"
  by (simp_all add: dash_ops_def rec_ops_def)

lemma dash_new_holds: "unat h \<le> 63 \<Longrightarrow> dash_stores t z (dash_new (mk_hasher t z) h) (\<lambda>_. z)"
  using dash_new_stores[of h t z] by (simp add: dash_stores_def)

lemma rec_new_holds: "unat h \<le> 63 \<Longrightarrow> rec_stores t z (rec_new (mk_hasher t z) h) (\<lambda>_. z)"
  using rec_new_stores[of h t z] by (simp add: rec_stores_def)

lemmas dash_simps = dash_stores_def two_to_one_mk op_heights
lemmas rec_simps = rec_stores_def two_to_one_mk op_heights

lemma dash_height_le: "dash_stores t z s f \<Longrightarrow> unat (ds_height s) \<le> 63"
  by (simp add: dash_stores_def dash_inv_def)

text \<open>
  C4. Updating a leaf of the concurrent store refines updating one entry of the array of leaves:
  it returns, the store then holds the updated array, and the returned delta proof verifies and
  leads from the old root to the new root.
\<close>

theorem dash_set_leaf_refines:
  assumes "dash_stores t z s f" "unat i < 2 ^ unat (ds_height s)"
  shows "\<exists>p s'. tr_set_leaf dash_ops t s i v = Some (p, s') \<and> dash_stores t z s' (f(unat i := v)) \<and>
    ds_height s' = ds_height s \<and> dmp_verify t p \<and>
    dmp_old_root p = mnode t f (unat (ds_height s)) 0 \<and>
    dmp_new_root p = mnode t (f(unat i := v)) (unat (ds_height s)) 0 \<and>
    dmp_old_value p = f (unat i) \<and> dmp_new_value p = v \<and> dmp_index p = i"
proof -
  let ?h = "unat (ds_height s)"
  obtain s' where s': "tr_set_leaf dash_ops t s i v = Some (\<lparr>dmp_old_root = mnode t f ?h 0, dmp_old_value = f (unat i),
      dmp_new_root = mnode t (f(unat i := v)) ?h 0, dmp_new_value = v, dmp_index = i,
      dmp_siblings = ref_siblings t f (unat i) 0 ?h\<rparr>, s')" "ds_height s' = ds_height s" "dash_stores t z s' (f(unat i := v))"
    using dash.set_leaf_stores[of t z s f i v] assms by (auto simp: dash_simps)
  have "dmp_verify t \<lparr>dmp_old_root = mnode t f ?h 0, dmp_old_value = f (unat i),
      dmp_new_root = mnode t (f(unat i := v)) ?h 0, dmp_new_value = v, dmp_index = i,
      dmp_siblings = ref_siblings t f (unat i) 0 ?h\<rparr>"
    using dmp_verify_update[of ?h i f "f(unat i := v)" t] assms dash_height_le[OF assms(1)] by simp
  thus ?thesis using s' by simp
qed

theorem dash_set_leaf_refines_witness:
  "\<exists>p s'. tr_set_leaf dash_ops Sym_Node (dash_new (mk_hasher Sym_Node (Sym_Leaf 0)) 2) 3 (Sym_Leaf 7) = Some (p, s') \<and>
     dash_stores Sym_Node (Sym_Leaf 0) s' ((\<lambda>_. Sym_Leaf 0)(3 := Sym_Leaf 7)) \<and> dmp_verify Sym_Node p"
  using dash_set_leaf_refines[OF dash_new_holds[of 2 Sym_Node "Sym_Leaf 0"], of 3 "Sym_Leaf 7"]
  by (auto simp: dash_new_def)



text \<open>
  An append that does not fit is refused without touching the store: \<open>tree cannot fit\<close> while
  there is an empty leaf, \<open>tree is full\<close> when there is none.
\<close>

lemma dash_append_errors:
  assumes "dash_stores t z s f" "zero_preimage_free t z" "\<forall>i. f i = z \<longleftrightarrow> m \<le> i"
    "2 ^ unat (ds_height s) < m + length xs" "length xs < 2 ^ 63" "xs \<noteq> []"
  shows "tr_append_leaves_spider_man dash_ops t s sh xs =
    Some (Inl (if m < 2 ^ unat (ds_height s) then Tree_Cannot_Fit (length xs) else Tree_Is_Full), s)"
  using dash.append_errors[of t z s f m xs sh] assms by (simp add: dash_simps)

lemma dash_append_errors_witness:
  "tr_append_leaves_spider_man dash_ops Sym_Node (dash_new (mk_hasher Sym_Node (Sym_Leaf 0)) 1) 1
     [Sym_Leaf 1, Sym_Leaf 2, Sym_Leaf 3] =
   Some (Inl (Tree_Cannot_Fit 3), dash_new (mk_hasher Sym_Node (Sym_Leaf 0)) 1)"
  using dash_append_errors[OF dash_new_holds[of 1 Sym_Node "Sym_Leaf 0"] sym_zero_free, of 0
      "[Sym_Leaf 1, Sym_Leaf 2, Sym_Leaf 3]" 1]
  by (simp add: dash_new_def)

text \<open>
  Updating part of a subtree refines writing those leaves, returns the root of the subtree,
  and refuses a write beyond the subtree without touching the store.
\<close>

lemma dash_update_sub_tree_refines:
  assumes "dash_stores t z s f" "unat sh \<le> unat (ds_height s)" "unat j < 2 ^ (unat (ds_height s) - unat sh)"
    "unat off + length vs < 2 ^ 64"
  shows "if unat off + length vs \<le> 2 ^ unat sh
    then \<exists>s'. tr_update_sub_tree dash_ops t s sh j off vs =
           Some (Inr (mnode t (write_leaves f (unat j * 2 ^ unat sh + unat off) vs) (unat sh) (unat j)), s') \<and>
         dash_stores t z s' (write_leaves f (unat j * 2 ^ unat sh + unat off) vs) \<and> ds_height s' = ds_height s
    else tr_update_sub_tree dash_ops t s sh j off vs = Some (Inl Update_Exceeds_Sub_Tree, s)"
proof (cases "unat off + length vs \<le> 2 ^ unat sh")
  case True
  thus ?thesis using dash.update_sub_tree_stores[of t z s f sh j off vs] assms by (auto simp: dash_simps)
next
  case False
  thus ?thesis using dash.update_error[of t z s sh off vs j] assms dash_height_le[OF assms(1)]
    by (simp add: dash_simps)
qed

lemma dash_update_sub_tree_refines_witness:
  "\<exists>s'. tr_update_sub_tree dash_ops Sym_Node (dash_new (mk_hasher Sym_Node (Sym_Leaf 0)) 3) 1 2 1 [Sym_Leaf 9] =
     Some (Inr (Sym_Node (Sym_Leaf 0) (Sym_Leaf 9)), s')"
proof -
  have "mnode Sym_Node (write_leaves (\<lambda>_. Sym_Leaf 0) 5 [Sym_Leaf 9]) 1 2 = Sym_Node (Sym_Leaf 0) (Sym_Leaf 9)"
    by (simp add: write_leaves_def)
  thus ?thesis
    using dash_update_sub_tree_refines[OF dash_new_holds[of 3 Sym_Node "Sym_Leaf 0"], of 1 2 1 "[Sym_Leaf 9]"]
    by (auto simp: dash_new_def)
qed

text \<open>
  A historical proof verifies, and its root is the root the tree had when the leaf was the last
  one, that is the root of the array cut behind the leaf.
\<close>

lemma dash_historical_proof:
  assumes "dash_stores t z s f" "unat i < 2 ^ unat (ds_height s)"
  shows "\<exists>p. tr_get_historical_merkle_proof dash_ops (mk_hasher t z) s i = Some p \<and> mp_verify t p \<and>
    mp_root p = mnode t (\<lambda>j. if j \<le> unat i then f j else z) (unat (ds_height s)) 0 \<and>
    mp_value p = f (unat i) \<and> mp_index p = i"
  using dash.historical_proof_stores[of t z s f i] assms dash_height_le[OF assms(1)]
    ref_proof_verifies[of "unat (ds_height s)" i t "\<lambda>j. if j \<le> unat i then f j else z"]
  by (simp add: dash_simps) (simp add: ref_proof_def)

lemma dash_historical_proof_witness:
  "\<exists>p. tr_get_historical_merkle_proof dash_ops (mk_hasher Sym_Node (Sym_Leaf 0))
         (dash_new (mk_hasher Sym_Node (Sym_Leaf 0)) 2) 1 = Some p \<and> mp_verify Sym_Node p"
  using dash_historical_proof[OF dash_new_holds[of 2 Sym_Node "Sym_Leaf 0"], of 1]
  by (auto simp: dash_new_def)

text \<open>
  Recomputing the entire tree repairs every inner node: whatever the inner nodes were, the
  store then holds the tree over its leaves.
\<close>

lemma dash_recompute_repairs:
  assumes "dash_inv (mk_hasher t z) s"
    "\<forall>k. valid_key k \<and> nk_level k = ds_height s \<longrightarrow> dash_vals (mk_hasher t z) s k = f (unat (nk_index k))"
  shows "\<exists>s'. recompute_entire_tree dash_ops t s = Some s' \<and> dash_stores t z s' f \<and> ds_height s' = ds_height s"
  using dash.recompute_tree_ok[of t z s f] assms
  by (auto simp: dash_simps iffD2[OF word_unat_eq_iff])

lemma dash_recompute_repairs_witness:
  "\<exists>s'. recompute_entire_tree dash_ops Sym_Node (dash_new (mk_hasher Sym_Node (Sym_Leaf 0)) 2) = Some s' \<and>
     dash_stores Sym_Node (Sym_Leaf 0) s' (\<lambda>_. Sym_Leaf 0)"
proof -
  let ?s = "dash_new (mk_hasher Sym_Node (Sym_Leaf 0)) 2"
  have "dash_vals (mk_hasher Sym_Node (Sym_Leaf 0)) ?s k = Sym_Leaf 0" if "nk_level k = ds_height ?s" for k
    using that by (simp add: dash_vals_def dash_new_def mk.get_zero)
  thus ?thesis using dash_recompute_repairs[of Sym_Node "Sym_Leaf 0" ?s "\<lambda>_. Sym_Leaf 0"]
      dash_new_holds[of 2 Sym_Node "Sym_Leaf 0"] by (auto simp: dash_stores_def)
qed

text \<open>
  The compact proof generator, over either store, returns for every appended value exactly the
  membership proof of the whole updated tree, from the siblings of the first appended leaf alone.
\<close>

lemma compact_proofs_exact:
  assumes "h \<le> 63" "unat a + length vs \<le> 2 ^ h" "unat a < 2 ^ h" "\<forall>i. unat a \<le> i \<longrightarrow> f i = z"
  shows "dash_get_merkle_proofs_for_compact_imm (mk_hasher t z) a (ref_siblings t f (unat a) 0 h) vs =
      Some (map (\<lambda>i. ref_proof t h (write_leaves f (unat a) vs) (a + of_nat i)) [0..<length vs]) \<and>
    rec_get_merkle_proofs_for_compact_imm (mk_hasher t z) a (ref_siblings t f (unat a) 0 h) vs =
      dash_get_merkle_proofs_for_compact_imm (mk_hasher t z) a (ref_siblings t f (unat a) 0 h) vs"
proof -
  have u: "unat (of_nat h :: u8) = h" using assms(1) by (simp add: unat_of_nat)
  have len: "length (ref_siblings t f (unat a) 0 h) = h" by (simp add: ref_siblings_def)
  have hs: "ds_height (dash_new H (of_nat h)) = of_nat h" "rs_height (rec_new H (of_nat h)) = of_nat h" for H :: "'a hasher"
    by (simp_all add: dash_new_def rec_new_def)
  have dn: "dash_stores t z (dash_new (mk_hasher t z) (of_nat h)) (\<lambda>_. z)"
      "rec_stores t z (rec_new (mk_hasher t z) (of_nat h)) (\<lambda>_. z)"
    using dash_new_holds[of "of_nat h"] rec_new_holds[of "of_nat h"] u assms(1) by simp_all
  show ?thesis
    using dash.compact_proofs_stores[of t z "dash_new (mk_hasher t z) (of_nat h)" a f vs]
      recorder.compact_proofs_stores[of t z "rec_new (mk_hasher t z) (of_nat h)" a f vs] dn assms u
    by (simp add: dash_get_merkle_proofs_for_compact_imm_def rec_get_merkle_proofs_for_compact_imm_def len hs
        dash_simps rec_simps)
qed

lemma compact_proofs_exact_witness:
  "dash_get_merkle_proofs_for_compact_imm (mk_hasher Sym_Node (Sym_Leaf 0)) 0
     (ref_siblings Sym_Node (\<lambda>_. Sym_Leaf 0) (unat (0 :: u64)) 0 1) [Sym_Leaf 5, Sym_Leaf 6] =
   Some [ref_proof Sym_Node 1 (write_leaves (\<lambda>_. Sym_Leaf 0) 0 [Sym_Leaf 5, Sym_Leaf 6]) 0,
         ref_proof Sym_Node 1 (write_leaves (\<lambda>_. Sym_Leaf 0) 0 [Sym_Leaf 5, Sym_Leaf 6]) 1]"
  using compact_proofs_exact[of 1 0 "[Sym_Leaf 5, Sym_Leaf 6]" "\<lambda>_. Sym_Leaf 0" "Sym_Leaf 0" Sym_Node]
  by simp

text \<open>
  C40. The recorder and the plain store are interchangeable: holding the same leaves they return the
  same delta proof for an update and hold the same leaves afterwards, and committing the recorded
  changes keeps the leaves and clears the record.
\<close>

theorem recorder_refines_dash:
  assumes "dash_stores t z s f" "rec_stores t z r f" "rs_height r = ds_height s" "unat i < 2 ^ unat (ds_height s)"
  shows "\<exists>p s' r'. tr_set_leaf dash_ops t s i v = Some (p, s') \<and> tr_set_leaf rec_ops t r i v = Some (p, r') \<and>
    dash_stores t z s' (f(unat i := v)) \<and> rec_stores t z r' (f(unat i := v)) \<and>
    rec_stores t z (rec_commit_changes r') (f(unat i := v)) \<and> rec_get_changes (rec_commit_changes r') = Map.empty"
proof -
  have commit: "rec_stores t z (rec_commit_changes q) g \<longleftrightarrow> rec_stores t z q g" for q g
  proof -
    have "rec_vals H (rec_commit_changes q) = rec_vals H q" for H
      by (auto simp: rec_vals_def rec_commit_changes_def fun_eq_iff map_add_def split: option.splits)
    moreover have "rs_height (rec_commit_changes q) = rs_height q" by (simp add: rec_commit_changes_def)
    moreover have "rec_inv H (rec_commit_changes q) = rec_inv H q" for H
      by (simp add: rec_inv_def rec_commit_changes_def)
    ultimately show ?thesis by (simp add: rec_stores_def)
  qed
  have "rec_get_changes (rec_commit_changes q) = Map.empty" for q :: "'a rec_store"
    by (simp add: rec_get_changes_def rec_commit_changes_def)
  thus ?thesis
    using dash.set_leaf_stores[of t z s f i v] recorder.set_leaf_stores[of t z r f i v] assms
    by (auto simp: dash_simps rec_simps commit[unfolded rec_stores_def])
qed

theorem recorder_refines_dash_witness:
  "\<exists>p s' r'. tr_set_leaf dash_ops Sym_Node (dash_new (mk_hasher Sym_Node (Sym_Leaf 0)) 2) 3 (Sym_Leaf 7) = Some (p, s') \<and>
     tr_set_leaf rec_ops Sym_Node (rec_new (mk_hasher Sym_Node (Sym_Leaf 0)) 2) 3 (Sym_Leaf 7) = Some (p, r')"
  using recorder_refines_dash[OF dash_new_holds[of 2 Sym_Node "Sym_Leaf 0"] rec_new_holds[of 2 Sym_Node "Sym_Leaf 0"],
      of 3 "Sym_Leaf 7"]
  by (auto simp: dash_new_def rec_new_def)

end
