(* ===== verification/P2p_Wire.thy ===== *)
theory P2p_Wire
  imports Codec
begin

unbundle bit_operations_syntax

text \<open>
  The strict wire codec of the peer-to-peer protocol: \<open>src/psy_data/src/p2p/codec.rs\<close>,
  \<open>limits.rs\<close>, \<open>domains.rs\<close> and \<open>error.rs\<close>. A \<open>ProtocolReader\<close> is the list of unread bytes, an
  array \<open>[u8; N]\<close> is a byte list of length \<open>N\<close>. SHA-256 is a parameter of the definitions that
  use it.
\<close>

section \<open>Errors and limits\<close>

datatype protocol_error =
    Unexpected_Eof string
  | Trailing_Bytes nat
  | Invalid_Bool u8
  | Unknown_Tag string u8
  | Length_Limit string nat nat
  | Invalid_Length string nat nat
  | Invalid_Node_Id string
  | Non_Canonical_Field u64
  | Invalid_Bls_Public_Key
  | Invalid_Bls_Signature
  | Invalid_Bls_Secret_Key
  | Invalid_Proof_Of_Possession
  | Bls_Verify_Failed
  | Empty_Aggregate
  | Overflow string
  | Message string

definition MAX_PROPOSAL_CHUNK_BYTES :: nat where
  "MAX_PROPOSAL_CHUNK_BYTES = 61440"

definition MAX_FINALIZER_OUTPUT_BYTES :: nat where
  "MAX_FINALIZER_OUTPUT_BYTES = 410"

definition MAX_FINALIZER_PROOF_BYTES :: nat where
  "MAX_FINALIZER_PROOF_BYTES = 262144"

definition MAX_BACKUP_BYTES :: nat where
  "MAX_BACKUP_BYTES = 104857600"

definition MAX_PROPOSAL_BODY_BYTES :: nat where
  "MAX_PROPOSAL_BODY_BYTES =
     3 * 4 + MAX_FINALIZER_OUTPUT_BYTES + MAX_FINALIZER_PROOF_BYTES + MAX_BACKUP_BYTES + 32"

definition MAX_PROPOSAL_PARTS :: nat where
  "MAX_PROPOSAL_PARTS = (MAX_PROPOSAL_BODY_BYTES + MAX_PROPOSAL_CHUNK_BYTES - 1) div MAX_PROPOSAL_CHUNK_BYTES"

definition BODY_CHUNK_MAX_BYTES :: nat where
  "BODY_CHUNK_MAX_BYTES = 61440"

definition PROPOSAL_WIRE_BYTES :: nat where
  "PROPOSAL_WIRE_BYTES = 214"

definition MAX_PROPOSAL_LOOKUP_RESPONSE_BYTES :: nat where
  "MAX_PROPOSAL_LOOKUP_RESPONSE_BYTES = 16384"

definition MAX_VALIDATORS_PER_REALM :: nat where
  "MAX_VALIDATORS_PER_REALM = 64"

definition MIN_VALIDATORS_PER_REALM :: nat where
  "MIN_VALIDATORS_PER_REALM = 1"

definition replication_threshold :: "nat \<Rightarrow> nat" where
  "replication_threshold n = (n + 2 - 1) div 2"

definition DOMAIN_PROPOSAL :: "u8 list" where
  "DOMAIN_PROPOSAL = map (\<lambda>c. of_nat (of_char c)) ''PSYPRP01''"

definition DOMAIN_VOTE :: "u8 list" where
  "DOMAIN_VOTE = map (\<lambda>c. of_nat (of_char c)) ''PSYVOT01''"

definition DOMAIN_END_CAP_FORWARD :: "u8 list" where
  "DOMAIN_END_CAP_FORWARD = map (\<lambda>c. of_nat (of_char c)) ''PSYECF01''"

section \<open>The reader\<close>

definition read_u8 :: "(protocol_error, u8) reader" where
  "read_u8 = read_word (Unexpected_Eof ''u8'') 1"

definition read_u16 :: "(protocol_error, u16) reader" where
  "read_u16 = read_word (Unexpected_Eof ''u16'') 2"

definition read_u32 :: "(protocol_error, u32) reader" where
  "read_u32 = read_word (Unexpected_Eof ''u32'') 4"

definition read_u64 :: "(protocol_error, u64) reader" where
  "read_u64 = read_word (Unexpected_Eof ''u64'') 8"

definition read_bool :: "(protocol_error, bool) reader" where
  "read_bool bs =
     rbind (read_u8 bs) (\<lambda>(v, bs).
       if v = 0 then Inr (False, bs) else if v = 1 then Inr (True, bs) else Inl (Invalid_Bool v))"

definition read_fixed :: "nat \<Rightarrow> (protocol_error, u8 list) reader" where
  "read_fixed n = read_exact (Unexpected_Eof ''fixed bytes'') n"

definition read_bytes_32 :: "(protocol_error, u8 list) reader" where
  "read_bytes_32 = read_fixed 32"

definition read_bytes_u32 :: "string \<Rightarrow> nat \<Rightarrow> (protocol_error, u8 list) reader" where
  "read_bytes_u32 what mx bs =
     rbind (read_u32 bs) (\<lambda>(len, bs).
       if unat len > mx then Inl (Length_Limit what (unat len) mx)
       else read_exact (Unexpected_Eof what) (unat len) bs)"

section \<open>Field elements\<close>

definition GOLDILOCKS_MODULUS :: u64 where
  "GOLDILOCKS_MODULUS = 0xffffffff00000001"

definition validate_goldilocks_limb :: "u64 \<Rightarrow> protocol_error + unit" where
  "validate_goldilocks_limb v = (if v \<ge> GOLDILOCKS_MODULUS then Inl (Non_Canonical_Field v) else Inr ())"

text \<open>\<open>for i in 0..4\<close> over the limbs \<open>bytes[8i..8i+8]\<close>.\<close>

fun validate_limbs :: "nat \<Rightarrow> u8 list \<Rightarrow> protocol_error + unit" where
  "validate_limbs 0 bytes = Inr ()"
| "validate_limbs (Suc n) bytes =
     rbind (validate_goldilocks_limb (from_le_bytes (take 8 bytes))) (\<lambda>_. validate_limbs n (drop 8 bytes))"

definition validate_hash32_canonical :: "u8 list \<Rightarrow> protocol_error + unit" where
  "validate_hash32_canonical bytes = validate_limbs 4 bytes"

definition read_hash32_canonical :: "(protocol_error, u8 list) reader" where
  "read_hash32_canonical bs =
     rbind (read_bytes_32 bs) (\<lambda>(bytes, bs).
     rbind (validate_hash32_canonical bytes) (\<lambda>_. Inr (bytes, bs)))"

definition field_from_le_bytes :: "u8 list \<Rightarrow> protocol_error + u64" where
  "field_from_le_bytes bytes =
     rbind (validate_goldilocks_limb (from_le_bytes bytes)) (\<lambda>_. Inr (from_le_bytes bytes))"

fun field_limbs :: "nat \<Rightarrow> u8 list \<Rightarrow> protocol_error + u64 list" where
  "field_limbs 0 digest = Inr []"
| "field_limbs (Suc n) digest =
     rbind (field_from_le_bytes (take 8 digest)) (\<lambda>l.
     rbind (field_limbs n (drop 8 digest)) (\<lambda>ls. Inr (l # ls)))"

definition digest_to_field_limbs :: "u8 list \<Rightarrow> protocol_error + u64 list" where
  "digest_to_field_limbs digest = field_limbs 4 digest"

section \<open>Whole buffers and writers\<close>

definition finish :: "u8 list \<Rightarrow> protocol_error + unit" where
  "finish bs = (if length bs \<noteq> 0 then Inl (Trailing_Bytes (length bs)) else Inr ())"

definition decode_exact :: "(protocol_error, 'a) reader \<Rightarrow> u8 list \<Rightarrow> protocol_error + 'a" where
  "decode_exact f bytes = rbind (f bytes) (\<lambda>(v, bs). rbind (finish bs) (\<lambda>_. Inr v))"

definition write_bool :: "bool \<Rightarrow> u8 list" where
  "write_bool b = [if b then 1 else 0]"

definition write_bytes_u32 :: "u8 list \<Rightarrow> protocol_error + u8 list" where
  "write_bytes_u32 bytes =
     (if length bytes < 2 ^ 32 then Inr (le_bytes 4 (of_nat (length bytes) :: u32) @ bytes)
      else Inl (Overflow ''bytes_u32 length''))"

section \<open>Codec laws\<close>

lemma read_u8_rt [wire_simps]: "read_u8 (a # bs) = Inr (a, bs)"
  using w8.dec_enc[OF TrueI, of "Unexpected_Eof ''u8''" a bs] unfolding read_u8_def le_bytes_1 by simp

lemma read_u8_iff: "read_u8 bs = Inr (a, rest) \<longleftrightarrow> bs = a # rest"
  using w8.dec_iff[of "Unexpected_Eof ''u8''" bs a rest] unfolding read_u8_def le_bytes_1 by simp

lemma read_rt [wire_simps]:
  "read_u16 (le_bytes 2 b @ bs) = Inr (b, bs)"
  "read_u32 (le_bytes 4 c @ bs) = Inr (c, bs)" "read_u64 (le_bytes 8 d @ bs) = Inr (d, bs)"
  "length e = n \<Longrightarrow> read_fixed n (e @ bs) = Inr (e, bs)"
  "length e = 32 \<Longrightarrow> read_bytes_32 (e @ bs) = Inr (e, bs)"
  by (simp_all add: read_u16_def read_u32_def read_u64_def read_fixed_def read_bytes_32_def
      read_word_rt)

lemma read_iff:
  "read_u8 bs = Inr (a, rest) \<longleftrightarrow> bs = a # rest" "read_u16 bs = Inr (b, rest) \<longleftrightarrow> bs = le_bytes 2 b @ rest"
  "read_u32 bs = Inr (c, rest) \<longleftrightarrow> bs = le_bytes 4 c @ rest" "read_u64 bs = Inr (d, rest) \<longleftrightarrow> bs = le_bytes 8 d @ rest"
  "read_fixed n bs = Inr (e, rest) \<longleftrightarrow> bs = e @ rest \<and> length e = n"
  "read_bytes_32 bs = Inr (e, rest) \<longleftrightarrow> bs = e @ rest \<and> length e = 32"
  by (simp_all add: read_u8_iff read_u16_def read_u32_def read_u64_def read_fixed_def read_bytes_32_def
      read_word_iff read_exact_Inr)

interpretation wbool: strict_codec write_bool read_bool "\<lambda>_. True"
proof
  fix b rest
  show "read_bool (write_bool b @ rest) = Inr (b, rest)"
    by (simp add: read_bool_def write_bool_def wire_simps)
next
  fix bs b rest assume "read_bool bs = Inr (b, rest)"
  thus "bs = write_bool b @ rest \<and> True"
    by (auto simp: read_bool_def rbind_Inr read_iff write_bool_def split: if_splits)
qed

definition bytes_u32 :: "u8 list \<Rightarrow> u8 list" where
  "bytes_u32 bytes = le_bytes 4 (of_nat (length bytes) :: u32) @ bytes"

lemma unat_len_u32: "n < 2 ^ 32 \<Longrightarrow> unat (of_nat n :: u32) = n"
  by (simp add: unat_of_nat)

lemma read_bytes_u32_rt:
  "length bytes \<le> m \<Longrightarrow> m < 2 ^ 32 \<Longrightarrow> read_bytes_u32 what m (bytes_u32 bytes @ rest) = Inr (bytes, rest)"
  using unat_len_u32[of "length bytes"]
  by (simp add: read_bytes_u32_def bytes_u32_def wire_simps)

lemma read_bytes_u32_iff:
  assumes "m < 2 ^ 32"
  shows "read_bytes_u32 what m bs = Inr (bytes, rest) \<longleftrightarrow> bs = bytes_u32 bytes @ rest \<and> length bytes \<le> m"
proof
  assume "read_bytes_u32 what m bs = Inr (bytes, rest)"
  then obtain len :: u32 where "bs = le_bytes 4 len @ bytes @ rest" "unat len \<le> m" "length bytes = unat len"
    by (auto simp: read_bytes_u32_def rbind_Inr read_iff read_exact_Inr split: if_splits)
  moreover from this have "of_nat (length bytes) = len" by simp
  ultimately show "bs = bytes_u32 bytes @ rest \<and> length bytes \<le> m" by (simp add: bytes_u32_def)
qed (use read_bytes_u32_rt assms in blast)

lemma decode_exact_iff: "decode_exact f bytes = Inr v \<longleftrightarrow> f bytes = Inr (v, [])"
  by (auto simp: decode_exact_def finish_def rbind_Inr split: if_splits)

text \<open>A strict codec decodes exactly the encodings of well-formed values.\<close>

context strict_codec
begin

lemma exact_iff: "dec bs = Inr (x, []) \<longleftrightarrow> wf x \<and> bs = enc x"
  using dec_iff[of bs x "[]"] by simp

lemma many_iff:
  "read_many n dec bs = Inr (xs, rest) \<longleftrightarrow>
   length xs = n \<and> list_all wf xs \<and> bs = concat (map enc xs) @ rest"
  using many_strict many_roundtrip by blast

end

end
