(* ===== verification/P2p_Messages.thy ===== *)
theory P2p_Messages
  imports P2p_Wire
begin

unbundle bit_operations_syntax

text \<open>
  The wire messages of \<open>src/psy_data/src/p2p/messages.rs\<close>: proposals and their chunked gossip
  frames, proposal bodies, votes, certificates, direct body transfers, proposal lookups and EndCap
  forwards. Every message is a strict codec: its reader accepts the encodings of well-formed
  values and nothing else. The group check of a compressed BLS signature (\<open>blst\<close>) and SHA-256
  are parameters.
\<close>

section \<open>Proposals\<close>

record proposal =
  p_chain_id :: u64
  p_realm_id :: u32
  p_base_checkpoint_id :: u64
  p_proposer_sub_id :: u16
  p_validator_tree_root :: "u8 list"
  p_proposal_id :: "u8 list"
  p_public_output_hash :: "u8 list"
  p_finalizer_proof_hash :: "u8 list"
  p_backup_hash :: "u8 list"
  p_body_hash :: "u8 list"

definition proposal_decode :: "(protocol_error, proposal) reader" where
  "proposal_decode bs =
     rbind (read_u64 bs) (\<lambda>(chain_id, bs).
     rbind (read_u32 bs) (\<lambda>(realm_id, bs).
     rbind (read_u64 bs) (\<lambda>(base_checkpoint_id, bs).
     rbind (read_u16 bs) (\<lambda>(proposer_sub_id, bs).
     rbind (read_bytes_32 bs) (\<lambda>(validator_tree_root, bs).
     rbind (read_bytes_32 bs) (\<lambda>(proposal_id, bs).
     rbind (read_bytes_32 bs) (\<lambda>(public_output_hash, bs).
     rbind (read_bytes_32 bs) (\<lambda>(finalizer_proof_hash, bs).
     rbind (read_bytes_32 bs) (\<lambda>(backup_hash, bs).
     rbind (read_bytes_32 bs) (\<lambda>(body_hash, bs).
       Inr (\<lparr>p_chain_id = chain_id, p_realm_id = realm_id, p_base_checkpoint_id = base_checkpoint_id,
              p_proposer_sub_id = proposer_sub_id, p_validator_tree_root = validator_tree_root,
              p_proposal_id = proposal_id, p_public_output_hash = public_output_hash,
              p_finalizer_proof_hash = finalizer_proof_hash, p_backup_hash = backup_hash,
              p_body_hash = body_hash\<rparr>, bs)))))))))))"

definition proposal_encode :: "proposal \<Rightarrow> u8 list" where
  "proposal_encode p = le_bytes 8 (p_chain_id p) @ le_bytes 4 (p_realm_id p) @
     le_bytes 8 (p_base_checkpoint_id p) @ le_bytes 2 (p_proposer_sub_id p) @
     p_validator_tree_root p @ p_proposal_id p @ p_public_output_hash p @ p_finalizer_proof_hash p @
     p_backup_hash p @ p_body_hash p"

definition compute_proposal_id ::
  "(u8 list \<Rightarrow> u8 list) \<Rightarrow> u64 \<Rightarrow> u32 \<Rightarrow> u64 \<Rightarrow> u16 \<Rightarrow> u8 list \<Rightarrow> u8 list \<Rightarrow> u8 list \<Rightarrow> u8 list \<Rightarrow> u8 list \<Rightarrow> u8 list" where
  "compute_proposal_id sha256 chain_id realm_id base_checkpoint_id proposer_sub_id validator_tree_root
       public_output_hash finalizer_proof_hash backup_hash body_hash =
     sha256 (DOMAIN_PROPOSAL @ le_bytes 8 chain_id @ le_bytes 4 realm_id @ le_bytes 8 base_checkpoint_id @
       le_bytes 2 proposer_sub_id @ validator_tree_root @ public_output_hash @ finalizer_proof_hash @
       backup_hash @ body_hash)"

definition proposal_compute_id :: "(u8 list \<Rightarrow> u8 list) \<Rightarrow> proposal \<Rightarrow> u8 list" where
  "proposal_compute_id sha256 p =
     compute_proposal_id sha256 (p_chain_id p) (p_realm_id p) (p_base_checkpoint_id p)
       (p_proposer_sub_id p) (p_validator_tree_root p) (p_public_output_hash p)
       (p_finalizer_proof_hash p) (p_backup_hash p) (p_body_hash p)"

definition proposal_from_parts ::
  "(u8 list \<Rightarrow> u8 list) \<Rightarrow> u64 \<Rightarrow> u32 \<Rightarrow> u64 \<Rightarrow> u16 \<Rightarrow> u8 list \<Rightarrow> u8 list \<Rightarrow> u8 list \<Rightarrow> u8 list \<Rightarrow> u8 list \<Rightarrow> proposal" where
  "proposal_from_parts sha256 chain_id realm_id base_checkpoint_id proposer_sub_id validator_tree_root
       public_output_hash finalizer_proof_hash backup_hash body_hash =
     \<lparr>p_chain_id = chain_id, p_realm_id = realm_id, p_base_checkpoint_id = base_checkpoint_id,
      p_proposer_sub_id = proposer_sub_id, p_validator_tree_root = validator_tree_root,
      p_proposal_id = compute_proposal_id sha256 chain_id realm_id base_checkpoint_id proposer_sub_id
        validator_tree_root public_output_hash finalizer_proof_hash backup_hash body_hash,
      p_public_output_hash = public_output_hash, p_finalizer_proof_hash = finalizer_proof_hash,
      p_backup_hash = backup_hash, p_body_hash = body_hash\<rparr>"

section \<open>Proposal bodies\<close>

definition encode_proposal_body ::
  "u8 list \<Rightarrow> u8 list \<Rightarrow> u8 list \<Rightarrow> u8 list \<Rightarrow> protocol_error + u8 list" where
  "encode_proposal_body finalizer_output finalizer_proof state_updates finalizer_worker_tag =
     (if length finalizer_output \<noteq> MAX_FINALIZER_OUTPUT_BYTES
      then Inl (Invalid_Length ''finalizer output'' (length finalizer_output) MAX_FINALIZER_OUTPUT_BYTES)
      else if length finalizer_proof > MAX_FINALIZER_PROOF_BYTES
      then Inl (Length_Limit ''finalizer proof'' (length finalizer_proof) MAX_FINALIZER_PROOF_BYTES)
      else if length state_updates > MAX_BACKUP_BYTES
      then Inl (Length_Limit ''state updates'' (length state_updates) MAX_BACKUP_BYTES)
      else
        rbind (write_bytes_u32 finalizer_output) (\<lambda>a.
        rbind (write_bytes_u32 finalizer_proof) (\<lambda>b.
        rbind (write_bytes_u32 state_updates) (\<lambda>c.
          Inr (a @ b @ c @ finalizer_worker_tag)))))"

definition body_decode :: "(protocol_error, u8 list \<times> u8 list \<times> u8 list \<times> u8 list) reader" where
  "body_decode bs =
     rbind (read_bytes_u32 ''finalizer output'' MAX_FINALIZER_OUTPUT_BYTES bs) (\<lambda>(output, bs).
       if length output \<noteq> MAX_FINALIZER_OUTPUT_BYTES
       then Inl (Invalid_Length ''finalizer output'' (length output) MAX_FINALIZER_OUTPUT_BYTES)
       else
         rbind (read_bytes_u32 ''finalizer proof'' MAX_FINALIZER_PROOF_BYTES bs) (\<lambda>(proof_bytes, bs).
         rbind (read_bytes_u32 ''state updates'' MAX_BACKUP_BYTES bs) (\<lambda>(state_updates, bs).
         rbind (read_fixed 32 bs) (\<lambda>(worker_tag, bs).
         rbind (validate_hash32_canonical worker_tag) (\<lambda>_.
           Inr ((output, proof_bytes, state_updates, worker_tag), bs))))))"

definition decode_proposal_body :: "u8 list \<Rightarrow> protocol_error + (u8 list \<times> u8 list \<times> u8 list \<times> u8 list)" where
  "decode_proposal_body body = decode_exact body_decode body"

section \<open>Gossip frames\<close>

datatype proposal_part =
    Start proposal u32 u64
  | Chunk "u8 list" u64 "u8 list"

definition part_decode :: "(protocol_error, proposal_part) reader" where
  "part_decode bs =
     rbind (read_u8 bs) (\<lambda>(tag, bs).
       if tag = 0 then
         rbind (proposal_decode bs) (\<lambda>(p, bs).
         rbind (read_u32 bs) (\<lambda>(total_parts, bs).
           if total_parts = 0 then Inl (Message ''ProposalPart::Start total_parts must be at least 1'')
           else if unat total_parts > MAX_PROPOSAL_PARTS
           then Inl (Length_Limit ''ProposalPart::Start total_parts'' (unat total_parts) MAX_PROPOSAL_PARTS)
           else rbind (read_u64 bs) (\<lambda>(body_len, bs).
             if body_len = 0 then Inl (Message ''ProposalPart::Start body_len must be at least 1'')
             else if unat body_len > MAX_PROPOSAL_BODY_BYTES
             then Inl (Length_Limit ''ProposalPart::Start body_len'' (unat body_len) MAX_PROPOSAL_BODY_BYTES)
             else Inr (Start p total_parts body_len, bs))))
       else if tag = 1 then
         rbind (read_bytes_32 bs) (\<lambda>(proposal_id, bs).
         rbind (read_u64 bs) (\<lambda>(offset, bs).
         rbind (read_bytes_u32 ''chunk data'' MAX_PROPOSAL_CHUNK_BYTES bs) (\<lambda>(data, bs).
           if data = [] then Inl (Message ''ProposalPart::Chunk data must not be empty'')
           else Inr (Chunk proposal_id offset data, bs))))
       else Inl (Unknown_Tag ''ProposalPart'' tag))"

fun part_encode :: "proposal_part \<Rightarrow> u8 list" where
  "part_encode (Start p total_parts body_len) =
     [0] @ proposal_encode p @ le_bytes 4 total_parts @ le_bytes 8 body_len"
| "part_encode (Chunk proposal_id offset data) =
     [1] @ proposal_id @ le_bytes 8 offset @ le_bytes 4 (of_nat (length data) :: u32) @ data"

section \<open>Votes and certificates\<close>

text \<open>\<open>BlsSignature::from_bytes\<close>: the compression flag, then the checks of \<open>blst\<close>.\<close>

definition signature_from_bytes :: "(u8 list \<Rightarrow> bool) \<Rightarrow> u8 list \<Rightarrow> protocol_error + u8 list" where
  "signature_from_bytes blst_ok bytes =
     (if length bytes \<noteq> 96 then Inl (Invalid_Length ''BlsSignature'' (length bytes) 96)
      else if bytes ! 0 AND 0x80 = 0 then Inl Invalid_Bls_Signature
      else if \<not> blst_ok bytes then Inl Invalid_Bls_Signature
      else Inr bytes)"

definition signature_decode :: "(u8 list \<Rightarrow> bool) \<Rightarrow> (protocol_error, u8 list) reader" where
  "signature_decode blst_ok bs =
     rbind (read_fixed 96 bs) (\<lambda>(bytes, bs).
     rbind (signature_from_bytes blst_ok bytes) (\<lambda>s. Inr (s, bs)))"

record vote =
  v_proposal_id :: "u8 list"
  v_signer_sub_id :: u16
  v_signature :: "u8 list"

definition vote_decode :: "(u8 list \<Rightarrow> bool) \<Rightarrow> (protocol_error, vote) reader" where
  "vote_decode blst_ok bs =
     rbind (read_bytes_32 bs) (\<lambda>(proposal_id, bs).
     rbind (read_u16 bs) (\<lambda>(signer_sub_id, bs).
     rbind (signature_decode blst_ok bs) (\<lambda>(signature, bs).
       Inr (\<lparr>v_proposal_id = proposal_id, v_signer_sub_id = signer_sub_id, v_signature = signature\<rparr>, bs))))"

definition vote_encode :: "vote \<Rightarrow> u8 list" where
  "vote_encode v = v_proposal_id v @ le_bytes 2 (v_signer_sub_id v) @ v_signature v"

definition vote_message :: "u64 \<Rightarrow> u32 \<Rightarrow> u8 list \<Rightarrow> u8 list \<Rightarrow> u8 list" where
  "vote_message chain_id realm_id validator_tree_root proposal_id =
     DOMAIN_VOTE @ le_bytes 8 chain_id @ le_bytes 4 realm_id @ validator_tree_root @ proposal_id"

record certificate =
  c_chain_id :: u64
  c_realm_id :: u32
  c_validator_tree_root :: "u8 list"
  c_proposal_id :: "u8 list"
  c_signer_bitmap :: "u8 list"
  c_aggregated_signature :: "u8 list"

definition certificate_decode :: "(u8 list \<Rightarrow> bool) \<Rightarrow> (protocol_error, certificate) reader" where
  "certificate_decode blst_ok bs =
     rbind (read_u64 bs) (\<lambda>(chain_id, bs).
     rbind (read_u32 bs) (\<lambda>(realm_id, bs).
     rbind (read_bytes_32 bs) (\<lambda>(validator_tree_root, bs).
     rbind (read_bytes_32 bs) (\<lambda>(proposal_id, bs).
     rbind (read_bytes_32 bs) (\<lambda>(signer_bitmap, bs).
     rbind (signature_decode blst_ok bs) (\<lambda>(aggregated_signature, bs).
       Inr (\<lparr>c_chain_id = chain_id, c_realm_id = realm_id, c_validator_tree_root = validator_tree_root,
              c_proposal_id = proposal_id, c_signer_bitmap = signer_bitmap,
              c_aggregated_signature = aggregated_signature\<rparr>, bs)))))))"

definition certificate_encode :: "certificate \<Rightarrow> u8 list" where
  "certificate_encode c = le_bytes 8 (c_chain_id c) @ le_bytes 4 (c_realm_id c) @
     c_validator_tree_root c @ c_proposal_id c @ c_signer_bitmap c @ c_aggregated_signature c"

definition certificate_vote_message :: "certificate \<Rightarrow> u8 list" where
  "certificate_vote_message c =
     vote_message (c_chain_id c) (c_realm_id c) (c_validator_tree_root c) (c_proposal_id c)"

section \<open>Submission codes and signer bitmaps\<close>

datatype realm_finalize_submit_code =
    Accepted | UnauthorizedSource | NotScheduledProposer | CheckpointUnavailable | InvalidOutput
  | InvalidProposal | InvalidCertificate | InvalidProof | AlreadyClaimed | Busy | Internal

fun submit_code_to_u8 :: "realm_finalize_submit_code \<Rightarrow> u8" where
  "submit_code_to_u8 Accepted = 0"
| "submit_code_to_u8 UnauthorizedSource = 1"
| "submit_code_to_u8 NotScheduledProposer = 2"
| "submit_code_to_u8 CheckpointUnavailable = 3"
| "submit_code_to_u8 InvalidOutput = 4"
| "submit_code_to_u8 InvalidProposal = 5"
| "submit_code_to_u8 InvalidCertificate = 6"
| "submit_code_to_u8 InvalidProof = 7"
| "submit_code_to_u8 AlreadyClaimed = 8"
| "submit_code_to_u8 Busy = 9"
| "submit_code_to_u8 Internal = 10"

definition submit_code_from_u8 :: "u8 \<Rightarrow> protocol_error + realm_finalize_submit_code" where
  "submit_code_from_u8 v =
     (if v = 0 then Inr Accepted else if v = 1 then Inr UnauthorizedSource
      else if v = 2 then Inr NotScheduledProposer else if v = 3 then Inr CheckpointUnavailable
      else if v = 4 then Inr InvalidOutput else if v = 5 then Inr InvalidProposal
      else if v = 6 then Inr InvalidCertificate else if v = 7 then Inr InvalidProof
      else if v = 8 then Inr AlreadyClaimed else if v = 9 then Inr Busy
      else if v = 10 then Inr Internal
      else Inl (Unknown_Tag ''RealmFinalizeSubmitCode'' v))"

definition bitmap_get :: "u8 list \<Rightarrow> u16 \<Rightarrow> bool" where
  "bitmap_get bitmap sub_id =
     (let idx = unat sub_id in
      if idx \<ge> 256 then False else bitmap ! (idx div 8) AND push_bit (idx mod 8) 1 \<noteq> 0)"

definition bitmap_set :: "u8 list \<Rightarrow> u16 \<Rightarrow> u8 list" where
  "bitmap_set bitmap sub_id =
     (let idx = unat sub_id in
      if idx \<ge> 256 then bitmap
      else bitmap[idx div 8 := bitmap ! (idx div 8) OR push_bit (idx mod 8) 1])"

text \<open>\<open>count_ones\<close> of a byte, \<open>popcount\<close> of the bitmap, and the ascending signers.\<close>

definition count_ones :: "u8 \<Rightarrow> nat" where
  "count_ones b = length (filter (bit b) [0..<8])"

definition popcount :: "u8 list \<Rightarrow> nat" where
  "popcount bitmap = sum_list (map count_ones bitmap)"

definition signer_sub_ids :: "u8 list \<Rightarrow> u16 list" where
  "signer_sub_ids bitmap = filter (bitmap_get bitmap) (map of_nat [0..<256])"

section \<open>Direct body transfer\<close>

record body_chunk_request =
  bq_proposal_id :: "u8 list"
  bq_offset :: u64
  bq_max_bytes :: u32

definition body_request_decode :: "(protocol_error, body_chunk_request) reader" where
  "body_request_decode bs =
     rbind (read_bytes_32 bs) (\<lambda>(proposal_id, bs).
     rbind (read_u64 bs) (\<lambda>(offset, bs).
     rbind (read_u32 bs) (\<lambda>(max_bytes, bs).
       if max_bytes = 0 \<or> unat max_bytes > BODY_CHUNK_MAX_BYTES
       then Inl (Length_Limit ''BodyChunkRequest.max_bytes'' (unat max_bytes) BODY_CHUNK_MAX_BYTES)
       else Inr (\<lparr>bq_proposal_id = proposal_id, bq_offset = offset, bq_max_bytes = max_bytes\<rparr>, bs))))"

definition body_request_encode :: "body_chunk_request \<Rightarrow> u8 list" where
  "body_request_encode r = bq_proposal_id r @ le_bytes 8 (bq_offset r) @ le_bytes 4 (bq_max_bytes r)"

record body_chunk_response =
  br_offset :: u64
  br_data :: "u8 list"
  br_eof :: bool
  br_body_len :: u64
  br_body_hash :: "u8 list"

definition body_response_decode :: "(protocol_error, body_chunk_response) reader" where
  "body_response_decode bs =
     rbind (read_u64 bs) (\<lambda>(offset, bs).
     rbind (read_bytes_u32 ''BodyChunkResponse.data'' BODY_CHUNK_MAX_BYTES bs) (\<lambda>(data, bs).
     rbind (read_bool bs) (\<lambda>(eof, bs).
     rbind (read_u64 bs) (\<lambda>(body_len, bs).
       if unat body_len > MAX_PROPOSAL_BODY_BYTES
       then Inl (Length_Limit ''BodyChunkResponse.body_len'' (unat body_len) MAX_PROPOSAL_BODY_BYTES)
       else rbind (read_bytes_32 bs) (\<lambda>(body_hash, bs).
         Inr (\<lparr>br_offset = offset, br_data = data, br_eof = eof, br_body_len = body_len,
                br_body_hash = body_hash\<rparr>, bs))))))"

text \<open>A data vector that does not fit \<open>u32\<close> panics.\<close>

definition body_response_encode :: "body_chunk_response \<Rightarrow> u8 list option" where
  "body_response_encode r =
     (case write_bytes_u32 (br_data r) of Inl _ \<Rightarrow> None
      | Inr d \<Rightarrow> Some (le_bytes 8 (br_offset r) @ d @ write_bool (br_eof r) @
                       le_bytes 8 (br_body_len r) @ br_body_hash r))"

section \<open>Well-formed messages\<close>

text \<open>The arrays \<open>[u8; N]\<close> of the records have their length; the other conditions are the limits the
  readers enforce.\<close>

definition proposal_wf :: "proposal \<Rightarrow> bool" where
  "proposal_wf p \<longleftrightarrow> length (p_validator_tree_root p) = 32 \<and> length (p_proposal_id p) = 32 \<and>
     length (p_public_output_hash p) = 32 \<and> length (p_finalizer_proof_hash p) = 32 \<and>
     length (p_backup_hash p) = 32 \<and> length (p_body_hash p) = 32"

fun part_wf :: "proposal_part \<Rightarrow> bool" where
  "part_wf (Start p total_parts body_len) \<longleftrightarrow> proposal_wf p \<and>
     total_parts \<noteq> 0 \<and> unat total_parts \<le> MAX_PROPOSAL_PARTS \<and>
     body_len \<noteq> 0 \<and> unat body_len \<le> MAX_PROPOSAL_BODY_BYTES"
| "part_wf (Chunk proposal_id offset data) \<longleftrightarrow> length proposal_id = 32 \<and> data \<noteq> [] \<and>
     length data \<le> MAX_PROPOSAL_CHUNK_BYTES"

definition signature_wf :: "(u8 list \<Rightarrow> bool) \<Rightarrow> u8 list \<Rightarrow> bool" where
  "signature_wf blst_ok s \<longleftrightarrow> length s = 96 \<and> s ! 0 AND 0x80 \<noteq> 0 \<and> blst_ok s"

definition vote_wf :: "(u8 list \<Rightarrow> bool) \<Rightarrow> vote \<Rightarrow> bool" where
  "vote_wf blst_ok v \<longleftrightarrow> length (v_proposal_id v) = 32 \<and> signature_wf blst_ok (v_signature v)"

definition certificate_wf :: "(u8 list \<Rightarrow> bool) \<Rightarrow> certificate \<Rightarrow> bool" where
  "certificate_wf blst_ok c \<longleftrightarrow> length (c_validator_tree_root c) = 32 \<and> length (c_proposal_id c) = 32 \<and>
     length (c_signer_bitmap c) = 32 \<and> signature_wf blst_ok (c_aggregated_signature c)"

definition body_request_wf :: "body_chunk_request \<Rightarrow> bool" where
  "body_request_wf r \<longleftrightarrow> length (bq_proposal_id r) = 32 \<and> bq_max_bytes r \<noteq> 0 \<and>
     unat (bq_max_bytes r) \<le> BODY_CHUNK_MAX_BYTES"

definition body_response_wf :: "body_chunk_response \<Rightarrow> bool" where
  "body_response_wf r \<longleftrightarrow> length (br_data r) \<le> BODY_CHUNK_MAX_BYTES \<and>
     unat (br_body_len r) \<le> MAX_PROPOSAL_BODY_BYTES \<and> length (br_body_hash r) = 32"

lemmas message_defs = proposal_decode_def proposal_encode_def proposal_wf_def part_decode_def
  signature_decode_def signature_from_bytes_def signature_wf_def vote_decode_def vote_encode_def
  vote_wf_def certificate_decode_def certificate_encode_def certificate_wf_def
  body_request_decode_def body_request_encode_def body_request_wf_def

lemma limit_bounds [simp]:
  "MAX_PROPOSAL_CHUNK_BYTES < 4294967296" "BODY_CHUNK_MAX_BYTES < 4294967296" "MAX_FINALIZER_OUTPUT_BYTES < 4294967296"
  "MAX_FINALIZER_PROOF_BYTES < 4294967296" "MAX_BACKUP_BYTES < 4294967296"
  by (simp_all add: MAX_PROPOSAL_CHUNK_BYTES_def BODY_CHUNK_MAX_BYTES_def MAX_FINALIZER_OUTPUT_BYTES_def
      MAX_FINALIZER_PROOF_BYTES_def MAX_BACKUP_BYTES_def)

interpretation meta: strict_codec proposal_encode proposal_decode proposal_wf
proof
  fix p rest assume "proposal_wf p"
  thus "proposal_decode (proposal_encode p @ rest) = Inr (p, rest)"
    by (simp add: message_defs wire_simps)
next
  fix bs p rest assume "proposal_decode bs = Inr (p, rest)"
  thus "bs = proposal_encode p @ rest \<and> proposal_wf p"
    by (auto simp: message_defs rbind_Inr read_iff)
qed

interpretation gossip: strict_codec part_encode part_decode part_wf
proof
  fix p rest assume w: "part_wf p"
  show "part_decode (part_encode p @ rest) = Inr (p, rest)"
  proof (cases p)
    case (Start q n len)
    thus ?thesis using w by (simp add: part_decode_def wire_simps meta.dec_enc)
  next
    case (Chunk i off data)
    thus ?thesis using w read_bytes_u32_rt[of data MAX_PROPOSAL_CHUNK_BYTES "''chunk data''" rest]
      by (simp add: part_decode_def wire_simps bytes_u32_def)
  qed
next
  fix bs p rest assume "part_decode bs = Inr (p, rest)"
  thus "bs = part_encode p @ rest \<and> part_wf p"
    by (auto simp: part_decode_def rbind_Inr read_iff meta.dec_iff read_bytes_u32_iff bytes_u32_def
        split: if_splits)
qed

interpretation bls_sig: strict_codec "\<lambda>s. s" "signature_decode blst_ok" "signature_wf blst_ok" for blst_ok
  by unfold_locales (auto simp: message_defs rbind_Inr read_iff wire_simps split: if_splits)

interpretation ballot: strict_codec vote_encode "vote_decode blst_ok" "vote_wf blst_ok" for blst_ok
  by unfold_locales
    (auto simp: vote_decode_def vote_encode_def vote_wf_def rbind_Inr read_iff bls_sig.dec_iff
      bls_sig.dec_enc wire_simps)

interpretation cert: strict_codec certificate_encode "certificate_decode blst_ok" "certificate_wf blst_ok" for blst_ok
  by unfold_locales
    (auto simp: certificate_decode_def certificate_encode_def certificate_wf_def rbind_Inr read_iff
      bls_sig.dec_iff bls_sig.dec_enc wire_simps)

interpretation body_req: strict_codec body_request_encode body_request_decode body_request_wf
  by unfold_locales (auto simp: message_defs rbind_Inr read_iff wire_simps split: if_splits)

lemma body_response_encode_wf:
  "body_response_wf r \<Longrightarrow> body_response_encode r = Some (le_bytes 8 (br_offset r) @ bytes_u32 (br_data r) @
     write_bool (br_eof r) @ le_bytes 8 (br_body_len r) @ br_body_hash r)"
  by (simp add: body_response_encode_def body_response_wf_def write_bytes_u32_def bytes_u32_def
      BODY_CHUNK_MAX_BYTES_def)

interpretation body_resp: strict_codec "\<lambda>r. the (body_response_encode r)" body_response_decode body_response_wf
proof
  fix r rest assume "body_response_wf r"
  thus "body_response_decode (the (body_response_encode r) @ rest) = Inr (r, rest)"
    by (simp add: body_response_encode_wf) (simp add: body_response_decode_def body_response_wf_def
        wire_simps read_bytes_u32_rt wbool.dec_enc)
next
  fix bs r rest assume "body_response_decode bs = Inr (r, rest)"
  hence "body_response_wf r \<and> bs = le_bytes 8 (br_offset r) @ bytes_u32 (br_data r) @
     write_bool (br_eof r) @ le_bytes 8 (br_body_len r) @ br_body_hash r @ rest"
    by (auto simp: body_response_decode_def body_response_wf_def rbind_Inr read_iff read_bytes_u32_iff
        wbool.dec_iff split: if_splits)
  thus "bs = the (body_response_encode r) @ rest \<and> body_response_wf r"
    by (simp add: body_response_encode_wf)
qed

section \<open>Proposal bodies\<close>

lemma validate_limbs_iff:
  "validate_limbs n bytes = Inr () \<longleftrightarrow>
   (\<forall>i<n. from_le_bytes (take 8 (drop (8 * i) bytes)) < GOLDILOCKS_MODULUS)"
proof (induction n arbitrary: bytes)
  case (Suc n)
  have "(\<forall>i<Suc n. P i) \<longleftrightarrow> P 0 \<and> (\<forall>i<n. P (Suc i))" for P
    using less_Suc_eq_0_disj by auto
  note step = this[of "\<lambda>i. from_le_bytes (take 8 (drop (8 * i) bytes)) < GOLDILOCKS_MODULUS"]
  have "validate_limbs (Suc n) bytes = Inr () \<longleftrightarrow>
      from_le_bytes (take 8 bytes) < GOLDILOCKS_MODULUS \<and> validate_limbs n (drop 8 bytes) = Inr ()"
    by (auto simp: rbind_Inr validate_goldilocks_limb_def)
  moreover have "drop (8 * i) (drop 8 bytes) = drop (8 * Suc i) bytes" for i by (simp add: add.commute)
  ultimately show ?case unfolding step Suc.IH by simp
qed simp

definition body_wf :: "u8 list \<times> u8 list \<times> u8 list \<times> u8 list \<Rightarrow> bool" where
  "body_wf = (\<lambda>(output, proof_bytes, updates, tag).
     length output = MAX_FINALIZER_OUTPUT_BYTES \<and> length proof_bytes \<le> MAX_FINALIZER_PROOF_BYTES \<and>
     length updates \<le> MAX_BACKUP_BYTES \<and> length tag = 32 \<and> validate_hash32_canonical tag = Inr ())"

definition body_bytes :: "u8 list \<times> u8 list \<times> u8 list \<times> u8 list \<Rightarrow> u8 list" where
  "body_bytes = (\<lambda>(output, proof_bytes, updates, tag).
     bytes_u32 output @ bytes_u32 proof_bytes @ bytes_u32 updates @ tag)"

interpretation body: strict_codec body_bytes body_decode body_wf
proof
  fix b rest assume "body_wf b"
  thus "body_decode (body_bytes b @ rest) = Inr (b, rest)"
    by (cases b) (simp add: body_decode_def body_bytes_def body_wf_def read_bytes_u32_rt wire_simps)
next
  fix bs b rest assume "body_decode bs = Inr (b, rest)"
  thus "bs = body_bytes b @ rest \<and> body_wf b"
    by (auto simp: body_decode_def body_bytes_def body_wf_def rbind_Inr read_iff read_bytes_u32_iff
        split: if_splits)
qed

lemma encode_proposal_body_iff:
  "encode_proposal_body output proof_bytes updates tag = Inr body \<longleftrightarrow>
   length output = MAX_FINALIZER_OUTPUT_BYTES \<and> length proof_bytes \<le> MAX_FINALIZER_PROOF_BYTES \<and>
   length updates \<le> MAX_BACKUP_BYTES \<and> body = body_bytes (output, proof_bytes, updates, tag)"
  by (auto simp: encode_proposal_body_def write_bytes_u32_def body_bytes_def bytes_u32_def
      MAX_FINALIZER_OUTPUT_BYTES_def MAX_FINALIZER_PROOF_BYTES_def MAX_BACKUP_BYTES_def)

lemma decode_proposal_body_iff:
  "decode_proposal_body body = Inr b \<longleftrightarrow> body_wf b \<and> body = body_bytes b"
  by (simp add: decode_proposal_body_def decode_exact_iff body.exact_iff)

lemma canonical_sevens:
  "i < 4 \<Longrightarrow> from_le_bytes (take 8 (drop (8 * i) (replicate 32 7))) < GOLDILOCKS_MODULUS"
proof -
  assume "i < 4"
  hence "take 8 (drop (8 * i) (replicate 32 (7 :: u8))) = replicate 8 7" by (simp add: min_def)
  also have "replicate 8 (7 :: u8) = [7, 7, 7, 7, 7, 7, 7, 7]" by (simp add: numeral_eq_Suc)
  finally show ?thesis by (simp add: GOLDILOCKS_MODULUS_def)
qed

text \<open>
  A proposal body decodes to (output, proof, state updates, worker tag) exactly when encoding
  these four parts gives the body and the 32-byte tag consists of four canonical Goldilocks
  elements. So decoding inverts encoding, no second body decodes to the same parts, and the only
  bodies the encoder builds that no node accepts are those with a non-canonical tag, which the
  encoder does not check.
\<close>

lemma proposal_body_exact:
  "decode_proposal_body body = Inr (output, proof_bytes, updates, tag) \<longleftrightarrow>
   encode_proposal_body output proof_bytes updates tag = Inr body \<and> length tag = 32 \<and>
   (\<forall>i<4. from_le_bytes (take 8 (drop (8 * i) tag)) < GOLDILOCKS_MODULUS)"
  unfolding decode_proposal_body_iff encode_proposal_body_iff
  by (auto simp: body_wf_def validate_hash32_canonical_def validate_limbs_iff)

lemma proposal_body_exact_witness:
  "decode_proposal_body (body_bytes (replicate 410 3, [1, 2], [], replicate 32 7)) =
     Inr (replicate 410 3, [1, 2], [], replicate 32 7)"
proof -
  have e: "encode_proposal_body (replicate 410 3) [1, 2] [] (replicate 32 7) =
      Inr (body_bytes (replicate 410 3, [1, 2], [], replicate 32 7))"
    by (simp add: encode_proposal_body_iff MAX_FINALIZER_OUTPUT_BYTES_def MAX_FINALIZER_PROOF_BYTES_def)
  show ?thesis
    by (rule proposal_body_exact[THEN iffD2, OF conjI[OF e conjI[OF _ allI[OF impI]]]])
      (simp, rule canonical_sevens)
qed

text \<open>
  C27. Every peer-to-peer message type has one encoding: the strict decoders of proposals, gossip
  frames, votes, certificates, body requests and body responses accept a buffer exactly when it is
  the encoding of the decoded, well-formed value; truncated buffers, trailing bytes, unknown tags,
  zero or excessive lengths and invalid signatures are all rejected.
\<close>

theorem messages_decode_exact:
  "(decode_exact proposal_decode b1 = Inr p \<longleftrightarrow> proposal_wf p \<and> b1 = proposal_encode p) \<and>
   (decode_exact part_decode b2 = Inr g \<longleftrightarrow> part_wf g \<and> b2 = part_encode g) \<and>
   (decode_exact (vote_decode blst_ok) b3 = Inr v \<longleftrightarrow> vote_wf blst_ok v \<and> b3 = vote_encode v) \<and>
   (decode_exact (certificate_decode blst_ok) b4 = Inr c \<longleftrightarrow>
      certificate_wf blst_ok c \<and> b4 = certificate_encode c) \<and>
   (decode_exact body_request_decode b5 = Inr q \<longleftrightarrow> body_request_wf q \<and> b5 = body_request_encode q) \<and>
   (decode_exact body_response_decode b6 = Inr r \<longleftrightarrow>
      body_response_wf r \<and> body_response_encode r = Some b6)"
proof -
  have "\<exists>bs. body_response_encode r = Some bs" if "body_response_wf r"
    using that by (simp add: body_response_encode_wf)
  hence "decode_exact body_response_decode b6 = Inr r \<longleftrightarrow> body_response_wf r \<and> body_response_encode r = Some b6"
    by (auto simp: decode_exact_iff body_resp.exact_iff)
  thus ?thesis
    by (simp add: decode_exact_iff meta.exact_iff gossip.exact_iff ballot.exact_iff cert.exact_iff
        body_req.exact_iff)
qed

section \<open>Identifiers and signed messages\<close>

definition proposal_preimage :: "proposal \<Rightarrow> u8 list" where
  "proposal_preimage p = DOMAIN_PROPOSAL @ le_bytes 8 (p_chain_id p) @ le_bytes 4 (p_realm_id p) @
     le_bytes 8 (p_base_checkpoint_id p) @ le_bytes 2 (p_proposer_sub_id p) @ p_validator_tree_root p @
     p_public_output_hash p @ p_finalizer_proof_hash p @ p_backup_hash p @ p_body_hash p"

lemma le_bytes_append_eq:
  "le_bytes 2 a @ xs = le_bytes 2 a' @ ys \<longleftrightarrow> a = a' \<and> xs = ys"
  "le_bytes 4 b @ xs = le_bytes 4 b' @ ys \<longleftrightarrow> b = b' \<and> xs = ys"
  "le_bytes 8 c @ xs = le_bytes 8 c' @ ys \<longleftrightarrow> c = c' \<and> xs = ys"
  for a a' :: u16 and b b' :: u32 and c c' :: u64
  using w16.enc_prefix_free w32.enc_prefix_free w64.enc_prefix_free by blast+

lemma proposal_preimage_inj:
  assumes "proposal_wf p" "proposal_wf q"
  shows "proposal_preimage p = proposal_preimage q \<longleftrightarrow> p\<lparr>p_proposal_id := i\<rparr> = q\<lparr>p_proposal_id := i\<rparr>"
  using assms
  by (cases p; cases q) (auto simp: proposal_preimage_def proposal_wf_def le_bytes_append_eq)

lemma proposal_compute_id_preimage: "proposal_compute_id sha256 p = sha256 (proposal_preimage p)"
  by (simp add: proposal_compute_id_def compute_proposal_id_def proposal_preimage_def)

text \<open>A hash collision, as an explicit pair of inputs.\<close>

definition collides :: "(u8 list \<Rightarrow> u8 list) \<Rightarrow> u8 list \<Rightarrow> u8 list \<Rightarrow> bool" where
  "collides sha256 x y \<longleftrightarrow> x \<noteq> y \<and> sha256 x = sha256 y"

lemma proposal_id_binding:
  assumes "proposal_wf p" "proposal_wf q"
    and "p_proposal_id p = proposal_compute_id sha256 p" "p_proposal_id q = proposal_compute_id sha256 q"
    and "p_proposal_id p = p_proposal_id q"
  shows "p = q \<or> collides sha256 (proposal_preimage p) (proposal_preimage q)"
proof (cases "proposal_preimage p = proposal_preimage q")
  case True
  hence "p\<lparr>p_proposal_id := i\<rparr> = q\<lparr>p_proposal_id := i\<rparr>" for i using proposal_preimage_inj assms(1,2) by blast
  hence "p = q" using assms(5) by (cases p; cases q) (auto simp: proposal.simps)
  thus ?thesis ..
next
  case False
  thus ?thesis using assms(3-5) by (simp add: proposal_compute_id_preimage collides_def)
qed

lemma proposal_from_parts_id:
  "p_proposal_id (proposal_from_parts sha256 a b c d e f g h i) =
   proposal_compute_id sha256 (proposal_from_parts sha256 a b c d e f g h i)"
  by (simp add: proposal_from_parts_def proposal_compute_id_def)

lemma vote_message_inj:
  assumes "length r = 32" "length r' = 32" "vote_message c m r i = vote_message c' m' r' i'"
  shows "c = c' \<and> m = m' \<and> r = r' \<and> i = i'"
  using assms by (simp add: vote_message_def le_bytes_append_eq)

end
