(* ===== verification/P2p_Lookup.thy ===== *)
theory P2p_Lookup
  imports P2p_Messages
begin

text \<open>
  Proposal lookups and EndCap forwards (\<open>src/psy_data/src/p2p/messages.rs\<close>, second half): requests
  naming up to 256 realm transitions, responses with at most two candidate proposals per transition
  that the encoder cuts to the wire budget, and the header and reply of a forwarded EndCap.
\<close>

section \<open>Lookup requests\<close>

definition PROPOSAL_LOOKUP_MAX_TRANSITIONS :: nat where
  "PROPOSAL_LOOKUP_MAX_TRANSITIONS = 256"

definition PROPOSAL_LOOKUP_CANDIDATES_PER_TRANSITION :: nat where
  "PROPOSAL_LOOKUP_CANDIDATES_PER_TRANSITION = 2"

record realm_transition =
  old_root :: "u8 list"
  new_root :: "u8 list"

datatype lookup_status = Candidates | Empty | Truncated

definition transition_decode :: "(protocol_error, realm_transition) reader" where
  "transition_decode bs =
     rbind (read_bytes_32 bs) (\<lambda>(a, bs).
     rbind (read_bytes_32 bs) (\<lambda>(b, bs). Inr (\<lparr>old_root = a, new_root = b\<rparr>, bs)))"

definition transition_encode :: "realm_transition \<Rightarrow> u8 list" where
  "transition_encode t = old_root t @ new_root t"

record lookup_request =
  lq_chain_id :: u64
  lq_realm_id :: u32
  lq_transitions :: "realm_transition list"

definition lookup_request_decode :: "(protocol_error, lookup_request) reader" where
  "lookup_request_decode bs =
     rbind (read_u64 bs) (\<lambda>(chain_id, bs).
     rbind (read_u32 bs) (\<lambda>(realm_id, bs).
     rbind (read_u32 bs) (\<lambda>(c, bs).
       let cnt = unat c in
       if cnt = 0 \<or> cnt > PROPOSAL_LOOKUP_MAX_TRANSITIONS
       then Inl (Message ''invalid ProposalLookup transition count'')
       else if length bs < cnt * 64 then Inl (Unexpected_Eof ''ProposalLookup transitions'')
       else rbind (read_many cnt transition_decode bs) (\<lambda>(ts, bs).
         Inr (\<lparr>lq_chain_id = chain_id, lq_realm_id = realm_id, lq_transitions = ts\<rparr>, bs)))))"

definition lookup_request_encode :: "lookup_request \<Rightarrow> u8 list" where
  "lookup_request_encode r = le_bytes 8 (lq_chain_id r) @ le_bytes 4 (lq_realm_id r) @
     le_bytes 4 (of_nat (length (lq_transitions r)) :: u32) @ concat (map transition_encode (lq_transitions r))"

section \<open>Lookup responses\<close>

record lookup_entry =
  le_transition :: realm_transition
  le_candidates :: "proposal list"

record lookup_response =
  lr_status :: lookup_status
  lr_entries :: "lookup_entry list"


definition response_empty :: lookup_response where
  "response_empty = \<lparr>lr_status = Empty, lr_entries = []\<rparr>"

definition response_truncated :: "lookup_entry list \<Rightarrow> lookup_response" where
  "response_truncated es = \<lparr>lr_status = Truncated, lr_entries = es\<rparr>"

text \<open>The loop over the entries, with the accumulators \<open>wire_bytes\<close> and \<open>has_candidates\<close>.\<close>

fun read_entries :: "nat \<Rightarrow> nat \<Rightarrow> bool \<Rightarrow> (protocol_error, lookup_entry list \<times> bool) reader" where
  "read_entries 0 wire_bytes has_candidates bs = Inr (([], has_candidates), bs)"
| "read_entries (Suc n) wire_bytes has_candidates bs =
     rbind (transition_decode bs) (\<lambda>(t, bs).
     rbind (read_u8 bs) (\<lambda>(c, bs).
       let candidate_count = unat c in
       if candidate_count > PROPOSAL_LOOKUP_CANDIDATES_PER_TRANSITION
       then Inl (Message ''invalid ProposalLookup candidate count'')
       else
         let wire_bytes = wire_bytes + (65 + candidate_count * PROPOSAL_WIRE_BYTES) in
         if wire_bytes > MAX_PROPOSAL_LOOKUP_RESPONSE_BYTES
         then Inl (Message ''ProposalLookup response exceeds maximum'')
         else rbind (read_many candidate_count proposal_decode bs) (\<lambda>(cs, bs).
           rbind (read_entries n wire_bytes (has_candidates \<or> cs \<noteq> []) bs) (\<lambda>((es, h), bs).
             Inr ((\<lparr>le_transition = t, le_candidates = cs\<rparr> # es, h), bs)))))"

definition lookup_status_from_u8 :: "u8 \<Rightarrow> protocol_error + lookup_status" where
  "lookup_status_from_u8 tag =
     (if tag = 0 then Inr Candidates else if tag = 1 then Inr Empty else if tag = 2 then Inr Truncated
      else Inl (Unknown_Tag ''ProposalLookupStatus'' tag))"

definition lookup_response_decode :: "(protocol_error, lookup_response) reader" where
  "lookup_response_decode bs =
     rbind (read_u8 bs) (\<lambda>(tag, bs).
     rbind (lookup_status_from_u8 tag) (\<lambda>status.
     rbind (read_u32 bs) (\<lambda>(c, bs).
       let cnt = unat c in
       if cnt > PROPOSAL_LOOKUP_MAX_TRANSITIONS then Inl (Message ''invalid ProposalLookup entry count'')
       else if length bs < cnt * 65 then Inl (Unexpected_Eof ''ProposalLookup entries'')
       else rbind (read_entries cnt 5 False bs) (\<lambda>((es, has_candidates), bs).
         if status = Candidates \<and> \<not> has_candidates \<or> status = Empty \<and> has_candidates
         then Inl (Message ''non-canonical ProposalLookup status'')
         else Inr (\<lparr>lr_status = status, lr_entries = es\<rparr>, bs)))))"

definition lookup_response_decode_exact :: "u8 list \<Rightarrow> protocol_error + lookup_response" where
  "lookup_response_decode_exact bytes =
     (if length bytes > MAX_PROPOSAL_LOOKUP_RESPONSE_BYTES
      then Inl (Length_Limit ''ProposalLookupResponse'' (length bytes) MAX_PROPOSAL_LOOKUP_RESPONSE_BYTES)
      else decode_exact lookup_response_decode bytes)"

text \<open>The encoder counts the entries that fit the budget and writes that prefix.\<close>

fun fitting :: "nat \<Rightarrow> lookup_entry list \<Rightarrow> nat" where
  "fitting wire_bytes [] = 0"
| "fitting wire_bytes (e # es) =
     (let entry_bytes = 65 + length (le_candidates e) * PROPOSAL_WIRE_BYTES in
      if wire_bytes + entry_bytes > MAX_PROPOSAL_LOOKUP_RESPONSE_BYTES then 0
      else Suc (fitting (wire_bytes + entry_bytes) es))"

fun lookup_status_to_u8 :: "lookup_status \<Rightarrow> u8" where
  "lookup_status_to_u8 Candidates = 0"
| "lookup_status_to_u8 Empty = 1"
| "lookup_status_to_u8 Truncated = 2"

definition entry_encode :: "lookup_entry \<Rightarrow> u8 list" where
  "entry_encode e = transition_encode (le_transition e) @ [of_nat (length (le_candidates e))] @
     concat (map proposal_encode (le_candidates e))"

definition lookup_response_encode :: "lookup_response \<Rightarrow> u8 list" where
  "lookup_response_encode r =
     (let cnt = fitting 5 (take PROPOSAL_LOOKUP_MAX_TRANSITIONS (lr_entries r));
          status = (if cnt < length (lr_entries r) then Truncated else lr_status r)
      in [lookup_status_to_u8 status] @ le_bytes 4 (of_nat cnt :: u32) @
         concat (map entry_encode (take cnt (lr_entries r))))"

section \<open>EndCap forwards\<close>

record end_cap_header =
  eh_chain_id :: u64
  eh_realm_id :: u32
  eh_checkpoint_id :: u64
  eh_end_cap_id :: "u8 list"
  eh_end_cap_input_len :: u32
  eh_proof_len :: u32

definition end_cap_header_decode :: "(protocol_error, end_cap_header) reader" where
  "end_cap_header_decode bs =
     rbind (read_u64 bs) (\<lambda>(chain_id, bs).
     rbind (read_u32 bs) (\<lambda>(realm_id, bs).
     rbind (read_u64 bs) (\<lambda>(checkpoint_id, bs).
     rbind (read_bytes_32 bs) (\<lambda>(end_cap_id, bs).
     rbind (read_u32 bs) (\<lambda>(end_cap_input_len, bs).
     rbind (read_u32 bs) (\<lambda>(proof_len, bs).
       Inr (\<lparr>eh_chain_id = chain_id, eh_realm_id = realm_id, eh_checkpoint_id = checkpoint_id,
              eh_end_cap_id = end_cap_id, eh_end_cap_input_len = end_cap_input_len,
              eh_proof_len = proof_len\<rparr>, bs)))))))"

definition end_cap_header_encode :: "end_cap_header \<Rightarrow> u8 list" where
  "end_cap_header_encode h = le_bytes 8 (eh_chain_id h) @ le_bytes 4 (eh_realm_id h) @
     le_bytes 8 (eh_checkpoint_id h) @ eh_end_cap_id h @ le_bytes 4 (eh_end_cap_input_len h) @
     le_bytes 4 (eh_proof_len h)"

definition compute_end_cap_id ::
  "(u8 list \<Rightarrow> u8 list) \<Rightarrow> u64 \<Rightarrow> u32 \<Rightarrow> u64 \<Rightarrow> u8 list \<Rightarrow> u8 list \<Rightarrow> u8 list" where
  "compute_end_cap_id sha256 chain_id realm_id checkpoint_id end_cap_input_hash end_cap_proof_hash =
     sha256 (DOMAIN_END_CAP_FORWARD @ le_bytes 8 chain_id @ le_bytes 4 realm_id @
       le_bytes 8 checkpoint_id @ end_cap_input_hash @ end_cap_proof_hash)"

datatype end_cap_reject_reason = R_None | R_AlreadySubmitted | R_Invalid | R_Busy

definition reject_reason_from_u8 :: "u8 \<Rightarrow> protocol_error + end_cap_reject_reason" where
  "reject_reason_from_u8 v =
     (if v = 0 then Inr R_None else if v = 1 then Inr R_AlreadySubmitted
      else if v = 2 then Inr R_Invalid else if v = 3 then Inr R_Busy
      else Inl (Unknown_Tag ''EndCapRejectReason'' v))"

fun reject_reason_to_u8 :: "end_cap_reject_reason \<Rightarrow> u8" where
  "reject_reason_to_u8 R_None = 0"
| "reject_reason_to_u8 R_AlreadySubmitted = 1"
| "reject_reason_to_u8 R_Invalid = 2"
| "reject_reason_to_u8 R_Busy = 3"

record end_cap_response =
  er_accepted :: bool
  er_reject_reason :: end_cap_reject_reason
  er_user_id :: u64
  er_unique_pending_id :: u64

definition end_cap_accepted :: end_cap_response where
  "end_cap_accepted = \<lparr>er_accepted = True, er_reject_reason = R_None, er_user_id = 0, er_unique_pending_id = 0\<rparr>"

definition end_cap_rejected :: "end_cap_reject_reason \<Rightarrow> end_cap_response" where
  "end_cap_rejected r = \<lparr>er_accepted = False, er_reject_reason = r, er_user_id = 0, er_unique_pending_id = 0\<rparr>"

definition end_cap_already_submitted :: "u64 \<Rightarrow> u64 \<Rightarrow> end_cap_response" where
  "end_cap_already_submitted user_id unique_pending_id =
     \<lparr>er_accepted = False, er_reject_reason = R_AlreadySubmitted, er_user_id = user_id,
      er_unique_pending_id = unique_pending_id\<rparr>"

definition end_cap_response_decode :: "(protocol_error, end_cap_response) reader" where
  "end_cap_response_decode bs =
     rbind (read_bool bs) (\<lambda>(acc, bs).
     rbind (read_u8 bs) (\<lambda>(tag, bs).
     rbind (reject_reason_from_u8 tag) (\<lambda>reason.
     rbind (read_u64 bs) (\<lambda>(user_id, bs).
     rbind (read_u64 bs) (\<lambda>(unique_pending_id, bs).
       if acc \<and> (reason \<noteq> R_None \<or> user_id \<noteq> 0 \<or> unique_pending_id \<noteq> 0)
       then Inl (Message ''canonical accepted EndCap response carries no reason or identity'')
       else if \<not> acc \<and> reason = R_None
       then Inl (Message ''canonical rejected EndCap response carries a rejection reason'')
       else Inr (\<lparr>er_accepted = acc, er_reject_reason = reason, er_user_id = user_id,
                  er_unique_pending_id = unique_pending_id\<rparr>, bs))))))"

definition end_cap_response_encode :: "end_cap_response \<Rightarrow> u8 list" where
  "end_cap_response_encode r = write_bool (er_accepted r) @ [reject_reason_to_u8 (er_reject_reason r)] @
     le_bytes 8 (er_user_id r) @ le_bytes 8 (er_unique_pending_id r)"

section \<open>Well-formed values and codec laws\<close>

definition transition_wf :: "realm_transition \<Rightarrow> bool" where
  "transition_wf t \<longleftrightarrow> length (old_root t) = 32 \<and> length (new_root t) = 32"

definition lookup_request_wf :: "lookup_request \<Rightarrow> bool" where
  "lookup_request_wf r \<longleftrightarrow> lq_transitions r \<noteq> [] \<and> length (lq_transitions r) \<le> PROPOSAL_LOOKUP_MAX_TRANSITIONS \<and>
     list_all transition_wf (lq_transitions r)"

definition entry_wf :: "lookup_entry \<Rightarrow> bool" where
  "entry_wf e \<longleftrightarrow> transition_wf (le_transition e) \<and>
     length (le_candidates e) \<le> PROPOSAL_LOOKUP_CANDIDATES_PER_TRANSITION \<and> list_all proposal_wf (le_candidates e)"

definition entry_size :: "lookup_entry \<Rightarrow> nat" where
  "entry_size e = 65 + length (le_candidates e) * PROPOSAL_WIRE_BYTES"

definition has_candidates :: "lookup_entry list \<Rightarrow> bool" where
  "has_candidates es \<longleftrightarrow> list_ex (\<lambda>e. le_candidates e \<noteq> []) es"

definition status_wf :: "lookup_status \<Rightarrow> lookup_entry list \<Rightarrow> bool" where
  "status_wf s es \<longleftrightarrow> (s = Candidates \<longrightarrow> has_candidates es) \<and> (s = Empty \<longrightarrow> \<not> has_candidates es)"

definition lookup_response_wf :: "lookup_response \<Rightarrow> bool" where
  "lookup_response_wf r \<longleftrightarrow> length (lr_entries r) \<le> PROPOSAL_LOOKUP_MAX_TRANSITIONS \<and>
     list_all entry_wf (lr_entries r) \<and>
     5 + sum_list (map entry_size (lr_entries r)) \<le> MAX_PROPOSAL_LOOKUP_RESPONSE_BYTES \<and>
     status_wf (lr_status r) (lr_entries r)"

definition end_cap_header_wf :: "end_cap_header \<Rightarrow> bool" where
  "end_cap_header_wf h \<longleftrightarrow> length (eh_end_cap_id h) = 32"

definition end_cap_response_wf :: "end_cap_response \<Rightarrow> bool" where
  "end_cap_response_wf r \<longleftrightarrow>
     (if er_accepted r then er_reject_reason r = R_None \<and> er_user_id r = 0 \<and> er_unique_pending_id r = 0
      else er_reject_reason r \<noteq> R_None)"

interpretation transition: strict_codec transition_encode transition_decode transition_wf
  by unfold_locales
    (auto simp: transition_decode_def transition_encode_def transition_wf_def rbind_Inr read_iff wire_simps)

interpretation ec_header: strict_codec end_cap_header_encode end_cap_header_decode end_cap_header_wf
  by unfold_locales
    (auto simp: end_cap_header_decode_def end_cap_header_encode_def end_cap_header_wf_def rbind_Inr read_iff wire_simps)

lemma reject_reason_iff: "reject_reason_from_u8 v = Inr r \<longleftrightarrow> v = reject_reason_to_u8 r"
  by (cases r) (auto simp: reject_reason_from_u8_def)

lemma lookup_status_iff: "lookup_status_from_u8 v = Inr s \<longleftrightarrow> v = lookup_status_to_u8 s"
  by (cases s) (auto simp: lookup_status_from_u8_def)

interpretation ec_response: strict_codec end_cap_response_encode end_cap_response_decode end_cap_response_wf
proof
  fix r rest assume w: "end_cap_response_wf r"
  have "reject_reason_from_u8 (reject_reason_to_u8 q) = Inr q" for q by (simp add: reject_reason_iff)
  with w show "end_cap_response_decode (end_cap_response_encode r @ rest) = Inr (r, rest)"
    by (cases r) (auto simp: end_cap_response_decode_def end_cap_response_encode_def end_cap_response_wf_def
        wbool.dec_enc wire_simps split: if_splits)
next
  fix bs r rest assume "end_cap_response_decode bs = Inr (r, rest)"
  thus "bs = end_cap_response_encode r @ rest \<and> end_cap_response_wf r"
    by (auto simp: end_cap_response_decode_def end_cap_response_encode_def end_cap_response_wf_def
        rbind_Inr read_iff wbool.dec_iff reject_reason_iff split: if_splits)
qed

lemma unat_len_u8: "n \<le> 2 \<Longrightarrow> unat (of_nat n :: u8) = n"
  by (simp add: unat_of_nat)

lemma length_proposal_encode: "proposal_wf p \<Longrightarrow> length (proposal_encode p) = PROPOSAL_WIRE_BYTES"
  by (simp add: proposal_encode_def proposal_wf_def PROPOSAL_WIRE_BYTES_def)

lemma length_concat_map: "(\<And>x. x \<in> set xs \<Longrightarrow> length (f x) = g x) \<Longrightarrow> length (concat (map f xs)) = sum_list (map g xs)"
  by (induction xs) auto

lemma length_entry_encode: "entry_wf e \<Longrightarrow> length (entry_encode e) = entry_size e"
  using length_concat_map[of "le_candidates e" proposal_encode "\<lambda>_. PROPOSAL_WIRE_BYTES"]
  by (simp add: entry_encode_def entry_wf_def entry_size_def transition_encode_def transition_wf_def
      length_proposal_encode list_all_iff sum_list_triv)

lemma length_entries:
  "list_all entry_wf es \<Longrightarrow> length (concat (map entry_encode es)) = sum_list (map entry_size es)"
  by (rule length_concat_map) (simp add: list_all_iff length_entry_encode)

lemma entries_lower: "65 * length es \<le> sum_list (map entry_size es)"
  by (induction es) (auto simp: entry_size_def)

lemma read_entry_iff:
  assumes "w \<le> MAX_PROPOSAL_LOOKUP_RESPONSE_BYTES"
  shows "read_entries n w h bs = Inr ((es, h'), rest) \<longleftrightarrow>
    length es = n \<and> list_all entry_wf es \<and>
    w + sum_list (map entry_size es) \<le> MAX_PROPOSAL_LOOKUP_RESPONSE_BYTES \<and>
    h' = (h \<or> has_candidates es) \<and> bs = concat (map entry_encode es) @ rest"
  using assms
proof (induction n arbitrary: w h bs es)
  case 0
  thus ?case by (auto simp: has_candidates_def)
next
  case (Suc n)
  have cs: "unat (of_nat (length cs) :: u8) = length cs" if "length cs \<le> PROPOSAL_LOOKUP_CANDIDATES_PER_TRANSITION"
    for cs :: "proposal list"
    using that unat_len_u8 by (simp add: PROPOSAL_LOOKUP_CANDIDATES_PER_TRANSITION_def)
  show ?case
  proof (cases es)
    case Nil
    thus ?thesis by (auto simp: rbind_Inr Let_def split: if_splits)
  next
    case (Cons e es')
    let ?w = "w + entry_size e" and ?c = "le_candidates e"
    have step: "read_entries (Suc n) w h bs = Inr ((e # es', h'), rest) \<longleftrightarrow>
        (\<exists>bs'. entry_wf e \<and> ?w \<le> MAX_PROPOSAL_LOOKUP_RESPONSE_BYTES \<and> bs = entry_encode e @ bs' \<and>
          read_entries n ?w (h \<or> ?c \<noteq> []) bs' = Inr ((es', h'), rest))" (is "?L \<longleftrightarrow> ?R")
    proof
      assume ?L
      thus ?R
        by (auto simp: rbind_Inr Let_def transition.dec_iff read_iff meta.many_iff entry_wf_def
            entry_encode_def entry_size_def split: if_splits)
    next
      assume ?R
      then obtain bs' where r: "entry_wf e" "?w \<le> MAX_PROPOSAL_LOOKUP_RESPONSE_BYTES"
          "bs = entry_encode e @ bs'" "read_entries n ?w (h \<or> ?c \<noteq> []) bs' = Inr ((es', h'), rest)" by blast
      thus ?L using cs[of ?c]
        by (cases e) (simp add: transition.dec_enc wire_simps meta.many_roundtrip entry_wf_def
            entry_encode_def entry_size_def)
    qed
    show ?thesis unfolding Cons step
      using Suc.IH[of ?w "h \<or> ?c \<noteq> []"] by (auto simp: has_candidates_def)
  qed
qed

lemma fitting_all:
  "w + sum_list (map entry_size es) \<le> MAX_PROPOSAL_LOOKUP_RESPONSE_BYTES \<Longrightarrow> fitting w es = length es"
  by (induction es arbitrary: w) (auto simp: entry_size_def Let_def)

lemma response_encode_wf:
  assumes "lookup_response_wf r"
  shows "lookup_response_encode r = [lookup_status_to_u8 (lr_status r)] @
     le_bytes 4 (of_nat (length (lr_entries r)) :: u32) @ concat (map entry_encode (lr_entries r))"
  using assms fitting_all[of 5 "lr_entries r"]
  by (simp add: lookup_response_encode_def lookup_response_wf_def)

interpretation response: strict_codec lookup_response_encode lookup_response_decode lookup_response_wf
proof
  fix r rest assume w: "lookup_response_wf r"
  have "unat (of_nat (length (lr_entries r)) :: u32) = length (lr_entries r)"
    using w unat_len_u32[of "length (lr_entries r)"]
    by (simp add: lookup_response_wf_def PROPOSAL_LOOKUP_MAX_TRANSITIONS_def)
  moreover have "length (lr_entries r) * 65 \<le> length (concat (map entry_encode (lr_entries r)) @ rest)"
    using w length_entries entries_lower[of "lr_entries r"] by (simp add: lookup_response_wf_def)
  moreover have "read_entries (length (lr_entries r)) 5 False (concat (map entry_encode (lr_entries r)) @ rest) =
      Inr ((lr_entries r, has_candidates (lr_entries r)), rest)"
    using w read_entry_iff[of 5] by (simp add: lookup_response_wf_def)
  moreover have "lookup_status_from_u8 (lookup_status_to_u8 s) = Inr s" for s by (simp add: lookup_status_iff)
  ultimately show "lookup_response_decode (lookup_response_encode r @ rest) = Inr (r, rest)"
    using w unfolding response_encode_wf[OF w]
    by (auto simp: lookup_response_decode_def lookup_response_wf_def status_wf_def wire_simps)
next
  fix bs r rest assume "lookup_response_decode bs = Inr (r, rest)"
  then obtain c :: u32 and es h bs' where d: "bs = [lookup_status_to_u8 (lr_status r)] @ le_bytes 4 c @ bs'"
      "unat c \<le> PROPOSAL_LOOKUP_MAX_TRANSITIONS" "read_entries (unat c) 5 False bs' = Inr ((es, h), rest)"
      "lr_entries r = es" "\<not> (lr_status r = Candidates \<and> \<not> h \<or> lr_status r = Empty \<and> h)"
    by (auto simp: lookup_response_decode_def rbind_Inr read_iff lookup_status_iff Let_def split: if_splits)
  have "(5 :: nat) \<le> MAX_PROPOSAL_LOOKUP_RESPONSE_BYTES" by (simp add: MAX_PROPOSAL_LOOKUP_RESPONSE_BYTES_def)
  note e = d(3)[unfolded read_entry_iff[OF this]]
  hence w: "lookup_response_wf r" using d(2,4,5) by (auto simp: lookup_response_wf_def status_wf_def)
  moreover have "of_nat (length (lr_entries r)) = c" using e d(4) by simp
  ultimately show "bs = lookup_response_encode r @ rest \<and> lookup_response_wf r"
    using response_encode_wf[OF w] d(1,4) e by simp
qed

interpretation request: strict_codec lookup_request_encode lookup_request_decode lookup_request_wf
proof
  fix r rest assume w: "lookup_request_wf r"
  have "unat (of_nat (length (lq_transitions r)) :: u32) = length (lq_transitions r)"
    using w unat_len_u32[of "length (lq_transitions r)"]
    by (simp add: lookup_request_wf_def PROPOSAL_LOOKUP_MAX_TRANSITIONS_def)
  moreover have "length (concat (map transition_encode (lq_transitions r))) = 64 * length (lq_transitions r)"
    using w length_concat_map[of "lq_transitions r" transition_encode "\<lambda>_. 64"]
    by (simp add: lookup_request_wf_def list_all_iff transition_wf_def transition_encode_def sum_list_triv)
  moreover have "read_many (length (lq_transitions r)) transition_decode
      (concat (map transition_encode (lq_transitions r)) @ rest) = Inr (lq_transitions r, rest)"
    using w by (simp add: lookup_request_wf_def transition.many_roundtrip)
  ultimately show "lookup_request_decode (lookup_request_encode r @ rest) = Inr (r, rest)"
    using w by (simp add: lookup_request_decode_def lookup_request_encode_def lookup_request_wf_def wire_simps)
next
  fix bs r rest assume "lookup_request_decode bs = Inr (r, rest)"
  thus "bs = lookup_request_encode r @ rest \<and> lookup_request_wf r"
    by (auto simp: lookup_request_decode_def lookup_request_encode_def lookup_request_wf_def rbind_Inr
        read_iff transition.many_iff Let_def split: if_splits)
qed

section \<open>Truncated responses\<close>









lemma length_response_encode:
  assumes "lookup_response_wf r"
  shows "length (lookup_response_encode r) = 5 + sum_list (map entry_size (lr_entries r))"
  using assms length_entries[of "lr_entries r"]
  unfolding response_encode_wf[OF assms] by (simp add: lookup_response_wf_def)





text \<open>
  Lookup requests, lookup responses, EndCap headers and EndCap replies have one encoding each:
  a buffer decodes exactly when it encodes the decoded, well-formed value. In particular a reply
  decodes exactly when an acceptance has no reason and a zero identity and a rejection has a
  reason.
\<close>

lemma lookup_messages_decode_exact:
  "(decode_exact lookup_request_decode b1 = Inr q \<longleftrightarrow> lookup_request_wf q \<and> b1 = lookup_request_encode q) \<and>
   (lookup_response_decode_exact b2 = Inr r \<longleftrightarrow> lookup_response_wf r \<and> b2 = lookup_response_encode r) \<and>
   (decode_exact end_cap_header_decode b3 = Inr h \<longleftrightarrow> end_cap_header_wf h \<and> b3 = end_cap_header_encode h) \<and>
   (decode_exact end_cap_response_decode b4 = Inr a \<longleftrightarrow> end_cap_response_wf a \<and> b4 = end_cap_response_encode a)"
proof -
  have "lookup_response_decode_exact b2 = Inr r \<longleftrightarrow> lookup_response_wf r \<and> b2 = lookup_response_encode r"
    using length_response_encode[of r]
    by (auto simp: lookup_response_decode_exact_def decode_exact_iff response.exact_iff lookup_response_wf_def)
  thus ?thesis by (simp add: decode_exact_iff request.exact_iff ec_header.exact_iff ec_response.exact_iff)
qed

text \<open>The decoder accepts a rejection other than \<open>AlreadySubmitted\<close> that carries an identity.\<close>

lemma busy_reply_with_identity:
  "decode_exact end_cap_response_decode
     (end_cap_response_encode \<lparr>er_accepted = False, er_reject_reason = R_Busy, er_user_id = 5, er_unique_pending_id = 6\<rparr>) =
   Inr \<lparr>er_accepted = False, er_reject_reason = R_Busy, er_user_id = 5, er_unique_pending_id = 6\<rparr>"
  by (simp add: decode_exact_iff ec_response.exact_iff end_cap_response_wf_def)

end
