(* ===== verification/Consensus.thy ===== *)
theory Consensus
  imports P2p_Messages "HOL-Library.Multiset"
begin

unbundle bit_operations_syntax

text \<open>
  Votes and certificates: \<open>src/psy_data/src/p2p/bls.rs\<close> and
  \<open>src/psy_node_common/src/realm/processor/consensus.rs\<close>. The library \<open>blst\<close> is the parameter
  \<open>blst\<close>: a record of the operations the code calls, with \<open>blst_correct\<close> as the laws of aggregate
  signatures a theorem may assume. SHA-256 is a parameter as well.
\<close>

section \<open>The signature library\<close>

record 'sk blst =
  sig_parse :: "u8 list \<Rightarrow> bool"
  sig_group_check :: "u8 list \<Rightarrow> bool"
  pk_parse :: "u8 list \<Rightarrow> bool"
  key_validate :: "u8 list \<Rightarrow> bool"
  sk_to_pk :: "'sk \<Rightarrow> u8 list"
  sign :: "'sk \<Rightarrow> u8 list \<Rightarrow> u8 list"
  aggregate :: "u8 list list \<Rightarrow> u8 list option"
  aggregate_verify :: "u8 list \<Rightarrow> u8 list \<Rightarrow> u8 list list \<Rightarrow> bool"

definition public_key_from_bytes :: "'sk blst \<Rightarrow> u8 list \<Rightarrow> protocol_error + u8 list" where
  "public_key_from_bytes B bytes =
     (if length bytes \<noteq> 48 then Inl (Invalid_Length ''BlsPublicKey'' (length bytes) 48)
      else if bytes ! 0 AND 0x80 = 0 then Inl Invalid_Bls_Public_Key
      else if \<not> key_validate B bytes then Inl Invalid_Bls_Public_Key
      else Inr bytes)"

definition bls_signature_from_bytes :: "'sk blst \<Rightarrow> u8 list \<Rightarrow> protocol_error + u8 list" where
  "bls_signature_from_bytes B = signature_from_bytes (\<lambda>s. sig_parse B s \<and> sig_group_check B s)"

definition signature_inner :: "'sk blst \<Rightarrow> u8 list \<Rightarrow> protocol_error + u8 list" where
  "signature_inner B s = (if sig_parse B s then Inr s else Inl Invalid_Bls_Signature)"

definition public_key_inner :: "'sk blst \<Rightarrow> u8 list \<Rightarrow> protocol_error + u8 list" where
  "public_key_inner B k = (if pk_parse B k then Inr k else Inl Invalid_Bls_Public_Key)"

text \<open>\<open>iter().map(f).collect::<Result<Vec<_>, _>>()\<close> stops at the first error.\<close>

fun collect_result :: "('a \<Rightarrow> 'e + 'b) \<Rightarrow> 'a list \<Rightarrow> 'e + 'b list" where
  "collect_result f [] = Inr []"
| "collect_result f (x # xs) = rbind (f x) (\<lambda>y. rbind (collect_result f xs) (\<lambda>ys. Inr (y # ys)))"

definition fast_aggregate_verify ::
  "'sk blst \<Rightarrow> u8 list \<Rightarrow> u8 list \<Rightarrow> u8 list list \<Rightarrow> protocol_error + unit" where
  "fast_aggregate_verify B sig message public_keys =
     (if public_keys = [] then Inl Empty_Aggregate
      else rbind (signature_inner B sig) (\<lambda>s.
           rbind (collect_result (public_key_inner B) public_keys) (\<lambda>pks.
             if \<not> aggregate_verify B s message pks then Inl Bls_Verify_Failed else Inr ())))"

definition aggregate_signatures :: "'sk blst \<Rightarrow> u8 list list \<Rightarrow> protocol_error + u8 list" where
  "aggregate_signatures B signatures =
     (if signatures = [] then Inl Empty_Aggregate
      else rbind (collect_result (signature_inner B) signatures) (\<lambda>sigs.
        case aggregate B sigs of None \<Rightarrow> Inl Invalid_Bls_Signature
        | Some bytes \<Rightarrow> bls_signature_from_bytes B bytes))"

section \<open>Proposal bodies\<close>

record decoded_proposal_body =
  d_output :: "u8 list"
  d_proof :: "u8 list"
  d_state_updates :: "u8 list"
  d_worker_tag :: "u8 list"

definition decode_checked_body ::
  "(u8 list \<Rightarrow> u8 list) \<Rightarrow> proposal \<Rightarrow> u8 list \<Rightarrow> protocol_error + decoded_proposal_body" where
  "decode_checked_body sha256 p body =
     rbind (decode_proposal_body body) (\<lambda>(output, proof_bytes, state_updates, worker_tag).
       if sha256 body \<noteq> p_body_hash p then Inl (Message ''body_hash mismatch'')
       else if sha256 output \<noteq> p_public_output_hash p then Inl (Message ''public_output_hash mismatch'')
       else if sha256 proof_bytes \<noteq> p_finalizer_proof_hash p
       then Inl (Message ''finalizer_proof_hash mismatch'')
       else if sha256 state_updates \<noteq> p_backup_hash p then Inl (Message ''backup_hash mismatch'')
       else Inr \<lparr>d_output = output, d_proof = proof_bytes, d_state_updates = state_updates,
                 d_worker_tag = worker_tag\<rparr>)"

section \<open>Voting\<close>

definition sign_vote :: "'sk blst \<Rightarrow> 'sk \<Rightarrow> u16 \<Rightarrow> proposal \<Rightarrow> vote" where
  "sign_vote B secret signer_sub_id p =
     (let message = vote_message (p_chain_id p) (p_realm_id p) (p_validator_tree_root p) (p_proposal_id p)
      in \<lparr>v_proposal_id = p_proposal_id p, v_signer_sub_id = signer_sub_id,
          v_signature = sign B secret message\<rparr>)"

fun collect_votes ::
  "u8 list \<Rightarrow> u8 list list \<Rightarrow> (u16 \<times> u8 list) list \<Rightarrow> protocol_error + (u8 list \<times> u8 list list)" where
  "collect_votes signer_bitmap signatures [] = Inr (signer_bitmap, signatures)"
| "collect_votes signer_bitmap signatures ((sub_id, signature) # votes) =
     (if sub_id > 255 then Inl (Message ''signer sub_id exceeds 255'')
      else if bitmap_get signer_bitmap sub_id then Inl (Message ''duplicate signer sub_id'')
      else collect_votes (bitmap_set signer_bitmap sub_id) (signatures @ [signature]) votes)"

definition form_certificate ::
  "'sk blst \<Rightarrow> proposal \<Rightarrow> (u16 \<times> u8 list) list \<Rightarrow> protocol_error + certificate" where
  "form_certificate B p votes =
     (if votes = [] then Inl Empty_Aggregate
      else rbind (collect_votes (replicate 32 0) [] votes) (\<lambda>(signer_bitmap, signatures).
           rbind (aggregate_signatures B signatures) (\<lambda>aggregated_signature.
             Inr \<lparr>c_chain_id = p_chain_id p, c_realm_id = p_realm_id p,
                  c_validator_tree_root = p_validator_tree_root p, c_proposal_id = p_proposal_id p,
                  c_signer_bitmap = signer_bitmap, c_aggregated_signature = aggregated_signature\<rparr>)))"

definition require_nonzero_validator_tree_root :: "u8 list \<Rightarrow> protocol_error + unit" where
  "require_nonzero_validator_tree_root root =
     (if list_all (\<lambda>b. b = 0) root then Inl (Message ''validator_tree_root is zero'') else Inr ())"

text \<open>The loop \<open>for sub_id in 0u16..256\<close> that collects the signers' keys.\<close>

fun collect_keys ::
  "u8 list \<Rightarrow> u16 list \<Rightarrow> (u16 \<times> u8 list) list \<Rightarrow> u16 list \<Rightarrow> protocol_error + u8 list list" where
  "collect_keys bitmap validator_sub_ids leaf_bls_keys [] = Inr []"
| "collect_keys bitmap validator_sub_ids leaf_bls_keys (sub_id # rest) =
     (if \<not> bitmap_get bitmap sub_id then collect_keys bitmap validator_sub_ids leaf_bls_keys rest
      else if sub_id \<notin> set validator_sub_ids then Inl (Message ''signer bit names empty validator leaf'')
      else case map_of leaf_bls_keys sub_id of
        None \<Rightarrow> Inl (Message ''missing BLS key for validator sub_id'')
      | Some key \<Rightarrow> rbind (collect_keys bitmap validator_sub_ids leaf_bls_keys rest) (\<lambda>keys. Inr (key # keys)))"

definition validate_certificate ::
  "'sk blst \<Rightarrow> proposal \<Rightarrow> certificate \<Rightarrow> u16 list \<Rightarrow> (u16 \<times> u8 list) list \<Rightarrow> protocol_error + unit" where
  "validate_certificate B p c validator_sub_ids leaf_bls_keys =
     (let n = length validator_sub_ids in
      if \<not> (MIN_VALIDATORS_PER_REALM \<le> n \<and> n \<le> MAX_VALIDATORS_PER_REALM)
      then Inl (Message ''validator sub-id count out of range'')
      else if list_ex (\<lambda>s. s > 255) validator_sub_ids then Inl (Message ''validator sub_id exceeds 255'')
      else if c_chain_id c \<noteq> p_chain_id p \<or> c_realm_id c \<noteq> p_realm_id p \<or>
              c_validator_tree_root c \<noteq> p_validator_tree_root p \<or> c_proposal_id c \<noteq> p_proposal_id p
      then Inl (Message ''certificate does not match proposal'')
      else
        rbind (require_nonzero_validator_tree_root (p_validator_tree_root p)) (\<lambda>_.
        rbind (require_nonzero_validator_tree_root (c_validator_tree_root c)) (\<lambda>_.
          if popcount (c_signer_bitmap c) < replication_threshold n
          then Inl (Message ''certificate below replication threshold'')
          else
            rbind (collect_keys (c_signer_bitmap c) validator_sub_ids leaf_bls_keys (map of_nat [0..<256])) (\<lambda>keys.
              fast_aggregate_verify B (c_aggregated_signature c)
                (vote_message (c_chain_id c) (c_realm_id c) (c_validator_tree_root c) (c_proposal_id c)) keys))))"

definition validator_tree_root_matches_proof_base :: "u8 list \<Rightarrow> u8 list \<Rightarrow> bool" where
  "validator_tree_root_matches_proof_base proposal_root proof_base_root \<longleftrightarrow> proposal_root = proof_base_root"

definition certificate_includes_proposer :: "certificate \<Rightarrow> u16 \<Rightarrow> bool" where
  "certificate_includes_proposer c proposer_sub_id \<longleftrightarrow> proposer_sub_id \<in> set (signer_sub_ids (c_signer_bitmap c))"

definition votes_meet_wait :: "nat \<Rightarrow> u16 list \<Rightarrow> bool" where
  "votes_meet_wait n sub_ids \<longleftrightarrow> length (remdups sub_ids) \<ge> replication_threshold n"

section \<open>Bitmaps\<close>

definition sub_ids :: "u16 list" where
  "sub_ids = map of_nat [0..<256]"

lemma sub_ids_set: "set sub_ids = {s. s \<le> 255}"
proof -
  have "s \<in> of_nat ` {0..<256}" if "s \<le> 255" for s :: u16
    using that by (intro image_eqI[of _ _ "unat s"]) (auto simp: word_le_nat_alt)
  moreover have "(of_nat i :: u16) \<le> 255" if "i < 256" for i
    using that by (simp add: word_le_nat_alt unat_of_nat)
  ultimately show ?thesis by (auto simp: sub_ids_def)
qed

lemma unat_sub_ids: "map unat sub_ids = [0..<256]"
  by (rule nth_equalityI) (simp_all add: sub_ids_def unat_of_nat)

lemma sub_ids_sorted: "sorted sub_ids" "distinct sub_ids"
proof -
  have "(\<lambda>x y. unat x \<le> unat y) = ((\<le>) :: u16 \<Rightarrow> _)" by (simp add: fun_eq_iff word_le_nat_alt)
  moreover have "sorted (map unat sub_ids)" "distinct (map unat sub_ids)" by (simp_all add: unat_sub_ids)
  ultimately show "sorted sub_ids" "distinct sub_ids" by (simp_all add: sorted_map distinct_map)
qed

lemma bitmap_get_bit:
  "s \<le> 255 \<Longrightarrow> bitmap_get bitmap s = bit (bitmap ! (unat s div 8)) (unat s mod 8)"
  by (simp add: bitmap_get_def Let_def word_le_nat_alt and_exp_eq_0_iff_not_bit push_bit_eq_mult)

lemma bitmap_get_beyond: "\<not> s \<le> 255 \<Longrightarrow> \<not> bitmap_get bitmap s"
  by (simp add: bitmap_get_def Let_def word_le_nat_alt)

lemma length_bitmap_set [simp]: "length (bitmap_set bitmap s) = length bitmap"
  by (simp add: bitmap_set_def Let_def)

lemma bitmap_get_set:
  assumes "length bitmap = 32" "s \<le> 255"
  shows "bitmap_get (bitmap_set bitmap s) t \<longleftrightarrow> bitmap_get bitmap t \<or> t = s"
proof (cases "t \<le> 255")
  case True
  have i: "unat s div 8 < length bitmap" "unat s \<le> 255" using assms by (auto simp: word_le_nat_alt)
  have "t = s \<longleftrightarrow> unat t div 8 = unat s div 8 \<and> unat t mod 8 = unat s mod 8"
    by (metis word_unat_eq_iff mult_div_mod_eq)
  moreover have "bit (push_bit k (1 :: u8)) l \<longleftrightarrow> l = k" if "k < 8" for k l
    using that by (auto simp: bit_simps bit_1_iff dest: bit_imp_le_length)
  ultimately show ?thesis using True i
    by (auto simp: bitmap_get_bit bitmap_set_def Let_def nth_list_update bit_or_iff)
next
  case False
  thus ?thesis using assms bitmap_get_beyond by blast
qed

lemma count_ones_upto: "length (filter (\<lambda>i. bit (bm ! (i div 8)) (i mod 8)) [0..<8 * length bm]) = popcount bm"
proof (induction bm rule: rev_induct)
  case (snoc b bm)
  let ?n = "8 * length bm"
  have r: "[0..<8 * length (bm @ [b])] = [0..<?n] @ map (\<lambda>i. i + ?n) [0..<8]"
    using upt_add_eq_append[of 0 ?n 8] by (simp add: map_add_upt add.commute)
  have "filter (\<lambda>i. bit ((bm @ [b]) ! (i div 8)) (i mod 8)) [0..<?n] =
      filter (\<lambda>i. bit (bm ! (i div 8)) (i mod 8)) [0..<?n]"
    by (rule filter_cong) (auto simp: nth_append less_mult_imp_div_less mult.commute)
  moreover have "filter ((\<lambda>i. bit ((bm @ [b]) ! (i div 8)) (i mod 8)) \<circ> (\<lambda>i. i + ?n)) [0..<8] = filter (bit b) [0..<8]"
    by (rule filter_cong) (auto simp: nth_append)
  ultimately show ?case
    unfolding r unfolding filter_append filter_map
    by (simp add: popcount_def count_ones_def snoc.IH[unfolded popcount_def])
qed (simp add: popcount_def)

lemma signer_sub_ids_eq: "signer_sub_ids bitmap = filter (bitmap_get bitmap) sub_ids"
  by (simp add: signer_sub_ids_def sub_ids_def)

lemma popcount_signers:
  assumes "length bitmap = 32"
  shows "popcount bitmap = length (signer_sub_ids bitmap)"
proof -
  have "bitmap_get bitmap (of_nat i) = bit (bitmap ! (i div 8)) (i mod 8)" if "i < 256" for i
    using that by (subst bitmap_get_bit) (simp_all add: word_le_nat_alt unat_of_nat)
  hence "filter (bitmap_get bitmap \<circ> of_nat) [0..<256] = filter (\<lambda>i. bit (bitmap ! (i div 8)) (i mod 8)) [0..<256]"
    by (intro filter_cong) auto
  thus ?thesis using count_ones_upto[of bitmap] assms
    by (simp add: signer_sub_ids_eq sub_ids_def filter_map)
qed

lemma signer_sub_ids_props:
  "set (signer_sub_ids bitmap) = {s. bitmap_get bitmap s}" "sorted (signer_sub_ids bitmap)"
  "distinct (signer_sub_ids bitmap)"
  using bitmap_get_beyond sub_ids_sorted by (auto simp: signer_sub_ids_eq sub_ids_set sorted_wrt_filter)

section \<open>Collecting votes and keys\<close>

lemma collect_votes_iff:
  assumes "length bm = 32"
  shows "collect_votes bm sigs votes = Inr (bm', sigs') \<longleftrightarrow>
    (\<forall>s\<in>fst ` set votes. s \<le> 255 \<and> \<not> bitmap_get bm s) \<and> distinct (map fst votes) \<and>
    bm' = foldl bitmap_set bm (map fst votes) \<and> sigs' = sigs @ map snd votes"
  using assms
proof (induction votes arbitrary: bm sigs)
  case (Cons v votes)
  obtain s g where v: "v = (s, g)" by (cases v)
  show ?case
  proof (cases "s \<le> 255 \<and> \<not> bitmap_get bm s")
    case True
    have "(\<forall>t\<in>fst ` set votes. t \<le> 255 \<and> \<not> bitmap_get (bitmap_set bm s) t) \<longleftrightarrow>
        (\<forall>t\<in>fst ` set votes. t \<le> 255 \<and> \<not> bitmap_get bm t) \<and> s \<notin> fst ` set votes"
      using True Cons.prems by (auto simp: bitmap_get_set)
    thus ?thesis using True Cons.IH[of "bitmap_set bm s"] Cons.prems by (auto simp: v not_le)
  next
    case False
    thus ?thesis by (auto simp: v not_less)
  qed
qed auto

lemma foldl_bitmap_set:
  assumes "length bm = 32" "\<forall>s\<in>set ss. s \<le> 255"
  shows "length (foldl bitmap_set bm ss) = 32"
    and "bitmap_get (foldl bitmap_set bm ss) t \<longleftrightarrow> bitmap_get bm t \<or> t \<in> set ss"
  using assms by (induction ss arbitrary: bm) (auto simp: bitmap_get_set)

lemma zero_bitmap: "\<not> bitmap_get (replicate 32 0) s"
proof (cases "s \<le> 255")
  case True
  hence "unat s div 8 < 32" by (auto simp: word_le_nat_alt)
  thus ?thesis using True by (simp add: bitmap_get_bit)
qed (simp add: bitmap_get_beyond)

lemma collect_keys_iff:
  "collect_keys bm ids leaf_keys ss = Inr ks \<longleftrightarrow>
   (\<forall>s\<in>set ss. bitmap_get bm s \<longrightarrow> s \<in> set ids \<and> s \<in> dom (map_of leaf_keys)) \<and>
   ks = map (\<lambda>s. the (map_of leaf_keys s)) (filter (bitmap_get bm) ss)"
  by (induction ss arbitrary: ks) (auto simp: rbind_Inr split: option.splits)

lemma collect_result_id:
  "(\<And>x. x \<in> set xs \<Longrightarrow> f x = Inr x) \<Longrightarrow> collect_result f xs = Inr xs"
  by (induction xs) auto

lemma collect_result_Inr:
  "collect_result f xs = Inr ys \<Longrightarrow> list_all2 (\<lambda>x y. f x = Inr y) xs ys"
  by (induction xs arbitrary: ys) (auto simp: rbind_Inr)

lemma fast_aggregate_verify_iff:
  "fast_aggregate_verify B sig m ks = Inr () \<longleftrightarrow>
   ks \<noteq> [] \<and> sig_parse B sig \<and> list_all (pk_parse B) ks \<and> aggregate_verify B sig m ks"
proof -
  have "collect_result (public_key_inner B) ks = (if list_all (pk_parse B) ks then Inr ks else Inl Invalid_Bls_Public_Key)"
    by (induction ks) (auto simp: public_key_inner_def)
  thus ?thesis by (auto simp: fast_aggregate_verify_def rbind_Inr signature_inner_def)
qed

section \<open>Certificates\<close>

definition signers :: "certificate \<Rightarrow> u16 set" where
  "signers c = {s. bitmap_get (c_signer_bitmap c) s}"

definition matches :: "certificate \<Rightarrow> proposal \<Rightarrow> bool" where
  "matches c p \<longleftrightarrow> c_chain_id c = p_chain_id p \<and> c_realm_id c = p_realm_id p \<and>
     c_validator_tree_root c = p_validator_tree_root p \<and> c_proposal_id c = p_proposal_id p"

lemma card_signers:
  assumes "length (c_signer_bitmap c) = 32"
  shows "card (signers c) = popcount (c_signer_bitmap c)"
proof -
  have "signers c = set (signer_sub_ids (c_signer_bitmap c))" by (simp add: signers_def signer_sub_ids_props(1))
  thus ?thesis using popcount_signers[OF assms] distinct_card signer_sub_ids_props(3) by metis
qed

lemma require_nonzero_iff: "require_nonzero_validator_tree_root r = Inr () \<longleftrightarrow> (\<exists>b\<in>set r. b \<noteq> 0)"
  by (auto simp: require_nonzero_validator_tree_root_def list_all_iff)

lemma validate_certificate_iff:
  assumes "length (c_signer_bitmap c) = 32"
  shows "validate_certificate B p c ids leaf_keys = Inr () \<longleftrightarrow>
    1 \<le> length ids \<and> length ids \<le> 64 \<and> (\<forall>s\<in>set ids. s \<le> 255) \<and> matches c p \<and>
    (\<exists>b\<in>set (p_validator_tree_root p). b \<noteq> 0) \<and>
    (length ids + 1) div 2 \<le> card (signers c) \<and>
    signers c \<subseteq> set ids \<inter> dom (map_of leaf_keys) \<and>
    fast_aggregate_verify B (c_aggregated_signature c)
      (vote_message (p_chain_id p) (p_realm_id p) (p_validator_tree_root p) (p_proposal_id p))
      (map (\<lambda>s. the (map_of leaf_keys s)) (sorted_list_of_set (signers c))) = Inr ()"
proof -
  have s: "sorted_list_of_set (signers c) = signer_sub_ids (c_signer_bitmap c)"
    using signer_sub_ids_props[of "c_signer_bitmap c"]
    by (metis signers_def sorted_list_of_set.idem_if_sorted_distinct)
  have k: "collect_keys (c_signer_bitmap c) ids leaf_keys (map of_nat [0..<256]) = Inr ks \<longleftrightarrow>
      signers c \<subseteq> set ids \<inter> dom (map_of leaf_keys) \<and>
      ks = map (\<lambda>s. the (map_of leaf_keys s)) (signer_sub_ids (c_signer_bitmap c))" for ks
    using sub_ids_set bitmap_get_beyond
    unfolding collect_keys_iff signer_sub_ids_def sub_ids_def signers_def by blast
  show ?thesis
    unfolding s
    by (auto simp: validate_certificate_def Let_def rbind_Inr require_nonzero_iff k card_signers[OF assms]
        matches_def replication_threshold_def MIN_VALIDATORS_PER_REALM_def MAX_VALIDATORS_PER_REALM_def
        list_ex_iff not_less not_le Suc_le_eq)
qed

text \<open>
  C25. What a valid certificate says. \<open>validate_certificate\<close> accepts exactly the certificates that
  carry the proposal's chain, realm, validator-tree root and id, with a non-zero root, for 1 to 64
  validators with sub ids up to 255, whose signers are validators with a known key, are at least
  half of them (rounded up), and whose aggregate signature verifies on the proposal's vote message
  under the signers' keys in ascending order.
\<close>

theorem certificate_valid_iff:
  assumes "length (c_signer_bitmap c) = 32"
  shows "validate_certificate B p c ids leaf_keys = Inr () \<longleftrightarrow>
    1 \<le> length ids \<and> length ids \<le> 64 \<and> (\<forall>s\<in>set ids. s \<le> 255) \<and> matches c p \<and>
    (\<exists>b\<in>set (p_validator_tree_root p). b \<noteq> 0) \<and>
    (length ids + 1) div 2 \<le> card (signers c) \<and>
    signers c \<subseteq> set ids \<inter> dom (map_of leaf_keys) \<and>
    fast_aggregate_verify B (c_aggregated_signature c)
      (vote_message (p_chain_id p) (p_realm_id p) (p_validator_tree_root p) (p_proposal_id p))
      (map (\<lambda>s. the (map_of leaf_keys s)) (sorted_list_of_set (signers c))) = Inr ()"
  by (rule validate_certificate_iff[OF assms])



section \<open>Honest votes certify\<close>

text \<open>The law of aggregate signatures for a group of signers and a message: their signatures
  aggregate to a valid signature that verifies under their public keys, in any order.\<close>

definition blst_aggregates :: "'sk blst \<Rightarrow> 'sk list \<Rightarrow> u8 list \<Rightarrow> bool" where
  "blst_aggregates B sks m \<longleftrightarrow>
     (\<forall>sk\<in>set sks. sig_parse B (sign B sk m) \<and> pk_parse B (sk_to_pk B sk)) \<and>
     (\<exists>a. aggregate B (map (\<lambda>sk. sign B sk m) sks) = Some a \<and>
          signature_wf (\<lambda>s. sig_parse B s \<and> sig_group_check B s) a \<and>
          (\<forall>ks. mset ks = mset (map (sk_to_pk B) sks) \<longrightarrow> aggregate_verify B a m ks))"

definition vote_pair :: "vote \<Rightarrow> u16 \<times> u8 list" where
  "vote_pair v = (v_signer_sub_id v, v_signature v)"

lemma signature_from_bytes_iff: "signature_from_bytes ok b = Inr s \<longleftrightarrow> signature_wf ok b \<and> s = b"
  by (auto simp: signature_from_bytes_def signature_wf_def)

lemma aggregate_signatures_ok:
  assumes "sks \<noteq> []" "blst_aggregates B sks m"
  shows "\<exists>a. aggregate_signatures B (map (\<lambda>sk. sign B sk m) sks) = Inr a \<and> sig_parse B a \<and>
     (\<forall>ks. mset ks = mset (map (sk_to_pk B) sks) \<longrightarrow> aggregate_verify B a m ks)"
proof -
  obtain a where a: "aggregate B (map (\<lambda>sk. sign B sk m) sks) = Some a"
      "signature_wf (\<lambda>s. sig_parse B s \<and> sig_group_check B s) a"
      "\<forall>ks. mset ks = mset (map (sk_to_pk B) sks) \<longrightarrow> aggregate_verify B a m ks"
    using assms(2) unfolding blst_aggregates_def by blast
  have "collect_result (signature_inner B) (map (\<lambda>sk. sign B sk m) sks) = Inr (map (\<lambda>sk. sign B sk m) sks)"
    using assms(2) by (intro collect_result_id) (auto simp: signature_inner_def blst_aggregates_def)
  thus ?thesis using a assms(1)
    by (intro exI[of _ a])
      (auto simp: aggregate_signatures_def bls_signature_from_bytes_def signature_from_bytes_iff signature_wf_def)
qed

lemma form_certificate_ok:
  assumes "votes \<noteq> []" "distinct (map fst votes)" "\<forall>s\<in>fst ` set votes. s \<le> 255"
    and "aggregate_signatures B (map snd votes) = Inr a"
  shows "\<exists>c. form_certificate B p votes = Inr c \<and> matches c p \<and> length (c_signer_bitmap c) = 32 \<and>
     signers c = fst ` set votes \<and> c_aggregated_signature c = a"
proof -
  let ?bm = "foldl bitmap_set (replicate 32 0) (map fst votes)"
  have "collect_votes (replicate 32 0) [] votes = Inr (?bm, map snd votes)"
    using assms(2,3) by (subst collect_votes_iff) (auto simp: zero_bitmap)
  moreover have "length ?bm = 32" "{s. bitmap_get ?bm s} = fst ` set votes"
    using assms(3) foldl_bitmap_set[of "replicate 32 0" "map fst votes"] zero_bitmap by auto
  ultimately show ?thesis using assms(1,4)
    by (auto simp: form_certificate_def matches_def signers_def)
qed

lemma mset_signer_keys:
  assumes "distinct (map fst hs)" "\<forall>(s, sk)\<in>set hs. map_of leaf_keys s = Some (pk sk)"
  shows "mset (map (\<lambda>s. the (map_of leaf_keys s)) (sorted_list_of_set (fst ` set hs))) = mset (map pk (map snd hs))"
proof -
  have "mset (sorted_list_of_set (fst ` set hs)) = mset (map fst hs)"
    using assms(1) by (subst set_eq_iff_mset_eq_distinct[symmetric]) auto
  hence "mset (map (\<lambda>s. the (map_of leaf_keys s)) (sorted_list_of_set (fst ` set hs))) =
      mset (map (\<lambda>s. the (map_of leaf_keys s)) (map fst hs))" by (metis mset_map)
  also have "map (\<lambda>s. the (map_of leaf_keys s)) (map fst hs) = map pk (map snd hs)"
    using assms(2) by auto
  finally show ?thesis .
qed

lemma honest_votes_ok:
  assumes "1 \<le> length ids" "length ids \<le> 64" "\<forall>s\<in>set ids. s \<le> 255"
    and "distinct (map fst hs)" "fst ` set hs \<subseteq> set ids" "(length ids + 1) div 2 \<le> length hs"
    and "\<forall>(s, sk)\<in>set hs. map_of leaf_keys s = Some (sk_to_pk B sk)"
    and "\<exists>b\<in>set (p_validator_tree_root p). b \<noteq> 0"
    and "blst_aggregates B (map snd hs)
           (vote_message (p_chain_id p) (p_realm_id p) (p_validator_tree_root p) (p_proposal_id p))"
  shows "\<exists>c. form_certificate B p (map (\<lambda>(s, sk). vote_pair (sign_vote B sk s p)) hs) = Inr c \<and>
     length (c_signer_bitmap c) = 32 \<and> signers c = fst ` set hs \<and> validate_certificate B p c ids leaf_keys = Inr () \<and>
     votes_meet_wait (length ids) (map fst hs)"
proof -
  let ?m = "vote_message (p_chain_id p) (p_realm_id p) (p_validator_tree_root p) (p_proposal_id p)"
  let ?votes = "map (\<lambda>(s, sk). vote_pair (sign_vote B sk s p)) hs"
  have votes: "?votes = map (\<lambda>(s, sk). (s, sign B sk ?m)) hs"
    by (auto simp: vote_pair_def sign_vote_def Let_def)
  have ne: "hs \<noteq> []" using assms(1,6) by auto
  hence "map snd hs \<noteq> []" by simp
  from aggregate_signatures_ok[OF this assms(9)] obtain a where
    a: "aggregate_signatures B (map (\<lambda>sk. sign B sk ?m) (map snd hs)) = Inr a" "sig_parse B a"
       "\<forall>ks. mset ks = mset (map (sk_to_pk B) (map snd hs)) \<longrightarrow> aggregate_verify B a ?m ks" by blast
  have snds: "map snd ?votes = map (\<lambda>sk. sign B sk ?m) (map snd hs)" and fsts: "map fst ?votes = map fst hs"
    unfolding votes by auto
  have fs: "fst ` set ?votes = fst ` set hs" using arg_cong[OF fsts, of set] unfolding set_map .
  have "\<exists>c. form_certificate B p ?votes = Inr c \<and> matches c p \<and> length (c_signer_bitmap c) = 32 \<and>
      signers c = fst ` set ?votes \<and> c_aggregated_signature c = a"
    using ne assms(3-5) a(1) fs by (intro form_certificate_ok) (auto simp: snds fsts simp del: map_map)
  then obtain c where c: "form_certificate B p ?votes = Inr c" "matches c p" "length (c_signer_bitmap c) = 32"
      "signers c = fst ` set hs" "c_aggregated_signature c = a" unfolding fs by blast
  let ?ks = "map (\<lambda>s. the (map_of leaf_keys s)) (sorted_list_of_set (fst ` set hs))"
  have ms: "mset ?ks = mset (map (sk_to_pk B) (map snd hs))"
    by (rule mset_signer_keys[OF assms(4,7)])
  have "set ?ks = set (map (sk_to_pk B) (map snd hs))" using ms by (metis set_mset_mset)
  moreover have "\<forall>k\<in>set (map (sk_to_pk B) (map snd hs)). pk_parse B k"
    using assms(9) unfolding blst_aggregates_def by simp
  ultimately have "list_all (pk_parse B) ?ks" unfolding list_all_iff by metis
  moreover have "?ks \<noteq> []" using ne ms by (metis map_is_Nil_conv mset_zero_iff)
  ultimately have fv: "fast_aggregate_verify B a ?m ?ks = Inr ()"
    using a(2,3) ms by (simp add: fast_aggregate_verify_iff)
  have cd: "card (fst ` set hs) = length hs" using assms(4) by (metis distinct_card length_map set_map)
  have "fst ` set hs \<subseteq> dom (map_of leaf_keys)" using assms(7) by auto
  hence "validate_certificate B p c ids leaf_keys = Inr ()"
    unfolding validate_certificate_iff[OF c(3)] c(4,5) cd using assms(1-3,5,6,8) c(2) fv by simp
  moreover have "votes_meet_wait (length ids) (map fst hs)"
    using assms(4,6) by (simp add: votes_meet_wait_def replication_threshold_def distinct_remdups_id)
  ultimately show ?thesis using c(1,3,4) by blast
qed

text \<open>
  C19. Enough honest votes certify a proposal. When distinct validators, at least half of them
  rounded up, sign the proposal with the keys registered for their sub ids, then
  \<open>form_certificate\<close> succeeds on their votes in whatever order they arrived, the certificate
  names exactly these signers, \<open>validate_certificate\<close> accepts it, and the collected votes meet
  the proposer's waiting condition.
\<close>

theorem honest_votes_certify:
  assumes "1 \<le> length ids" "length ids \<le> 64" "\<forall>s\<in>set ids. s \<le> 255"
    and "distinct (map fst hs)" "fst ` set hs \<subseteq> set ids" "(length ids + 1) div 2 \<le> length hs"
    and "\<forall>(s, sk)\<in>set hs. map_of leaf_keys s = Some (sk_to_pk B sk)"
    and "\<exists>b\<in>set (p_validator_tree_root p). b \<noteq> 0"
    and "blst_aggregates B (map snd hs)
           (vote_message (p_chain_id p) (p_realm_id p) (p_validator_tree_root p) (p_proposal_id p))"
  shows "\<exists>c. form_certificate B p (map (\<lambda>(s, sk). vote_pair (sign_vote B sk s p)) hs) = Inr c \<and>
     signers c = fst ` set hs \<and> validate_certificate B p c ids leaf_keys = Inr () \<and>
     votes_meet_wait (length ids) (map fst hs)"
  using honest_votes_ok[OF assms] by blast

section \<open>Proposals and their bodies\<close>

lemma decode_checked_body_iff:
  "decode_checked_body sha256 p body = Inr d \<longleftrightarrow>
   decode_proposal_body body = Inr (d_output d, d_proof d, d_state_updates d, d_worker_tag d) \<and>
   sha256 body = p_body_hash p \<and> sha256 (d_output d) = p_public_output_hash p \<and>
   sha256 (d_proof d) = p_finalizer_proof_hash p \<and> sha256 (d_state_updates d) = p_backup_hash p"
  by (cases d) (auto simp: decode_checked_body_def rbind_Inr split: if_splits)

text \<open>
  C24. A proposal id pins the proposal body. If two bodies are accepted for two proposals whose ids
  are the ones their fields compute, and the ids are equal, then the proposals, the bodies and
  the decoded parts are the same, or one of two explicit pairs of byte strings (the hashed
  proposal fields, or the bodies) is a SHA-256 collision.
\<close>

theorem accepted_body_binding:
  assumes "proposal_wf p" "proposal_wf q"
    and "p_proposal_id p = proposal_compute_id sha256 p" "p_proposal_id q = proposal_compute_id sha256 q"
    and "p_proposal_id p = p_proposal_id q"
    and "decode_checked_body sha256 p body = Inr d" "decode_checked_body sha256 q body' = Inr d'"
  shows "p = q \<and> body = body' \<and> d = d' \<or>
     collides sha256 (proposal_preimage p) (proposal_preimage q) \<or> collides sha256 body body'"
proof (cases "p = q")
  case True
  hence "body = body' \<or> collides sha256 body body'"
    using assms(6,7) by (auto simp: decode_checked_body_iff collides_def)
  thus ?thesis using True assms(6,7) by auto
next
  case False
  thus ?thesis using proposal_id_binding[OF assms(1-5)] by blast
qed

text \<open>
  A proposal built from its parts is accepted: when the body encodes and the worker tag is
  canonical, the receiver's checked decode of that body against the proposal built from the hashes
  returns exactly the parts, and the proposal's id is the recomputed one.
\<close>

lemma built_proposal_accepted:
  assumes "encode_proposal_body output proof_bytes updates tag = Inr body"
    and "length tag = 32" "validate_hash32_canonical tag = Inr ()"
    and "p = proposal_from_parts sha256 chain realm base sub root (sha256 output) (sha256 proof_bytes)
               (sha256 updates) (sha256 body)"
  shows "decode_checked_body sha256 p body =
       Inr \<lparr>d_output = output, d_proof = proof_bytes, d_state_updates = updates, d_worker_tag = tag\<rparr> \<and>
     proposal_compute_id sha256 p = p_proposal_id p"
proof
  have "decode_proposal_body body = Inr (output, proof_bytes, updates, tag)"
    using assms(1-3) unfolding decode_proposal_body_iff encode_proposal_body_iff by (simp add: body_wf_def)
  thus "decode_checked_body sha256 p body =
      Inr \<lparr>d_output = output, d_proof = proof_bytes, d_state_updates = updates, d_worker_tag = tag\<rparr>"
    by (simp add: decode_checked_body_iff assms(4) proposal_from_parts_def)
  show "proposal_compute_id sha256 p = p_proposal_id p"
    unfolding assms(4) by (rule proposal_from_parts_id[symmetric])
qed

section \<open>Concrete instances\<close>

text \<open>A linear signature scheme over bytes: a signature is the key times the sum of the message.\<close>

definition linear_blst :: "u8 blst" where
  "linear_blst = \<lparr>sig_parse = (\<lambda>s. length s = 96), sig_group_check = (\<lambda>_. True), pk_parse = (\<lambda>k. length k = 1),
     key_validate = (\<lambda>k. length k = 1), sk_to_pk = (\<lambda>sk. [sk]),
     sign = (\<lambda>sk m. 0x80 # (sk * sum_list m) # replicate 94 0),
     aggregate = (\<lambda>ss. Some (0x80 # sum_list (map (\<lambda>s. s ! 1) ss) # replicate 94 0)),
     aggregate_verify = (\<lambda>s m ks. s ! 1 = sum_list (map hd ks) * sum_list m)\<rparr>"

lemma linear_aggregates: "blst_aggregates linear_blst sks m"
proof -
  have "sum_list (map hd ks) = sum_list sks" if "mset ks = mset (map (\<lambda>sk. [sk]) sks)" for ks
  proof -
    have "mset (map hd ks) = mset (map hd (map (\<lambda>sk. [sk]) sks))" using that by (metis mset_map)
    also have "map hd (map (\<lambda>sk. [sk]) sks) = sks" by (induction sks) simp_all
    finally show ?thesis by (metis sum_mset_sum_list)
  qed
  moreover have "sum_list (map (\<lambda>sk. sk * x) sks) = sum_list sks * x" for x
    by (induction sks) (simp_all add: distrib_right)
  ultimately show ?thesis
    by (simp add: blst_aggregates_def linear_blst_def signature_wf_def comp_def)
qed

definition sample_proposal :: "u8 list \<Rightarrow> proposal" where
  "sample_proposal i = \<lparr>p_chain_id = 1, p_realm_id = 2, p_base_checkpoint_id = 3, p_proposer_sub_id = 4,
     p_validator_tree_root = replicate 32 9, p_proposal_id = i, p_public_output_hash = replicate 32 0,
     p_finalizer_proof_hash = replicate 32 0, p_backup_hash = replicate 32 0, p_body_hash = replicate 32 0\<rparr>"

definition sample_leaf_keys :: "(u16 \<times> u8 list) list" where
  "sample_leaf_keys = [(4, [40]), (7, [70]), (9, [90])]"

theorem honest_votes_certify_witness:
  "\<exists>c. form_certificate linear_blst (sample_proposal (replicate 32 5))
         (map (\<lambda>(s, sk). vote_pair (sign_vote linear_blst sk s (sample_proposal (replicate 32 5)))) [(9, 90), (4, 40)]) = Inr c \<and>
       signers c = {4, 9} \<and>
       validate_certificate linear_blst (sample_proposal (replicate 32 5)) c [4, 7, 9] sample_leaf_keys = Inr () \<and>
       votes_meet_wait 3 [9, 4]"
proof -
  let ?hs = "[(9, 90), (4, 40)] :: (u16 \<times> u8) list"
  have "\<exists>c. form_certificate linear_blst (sample_proposal (replicate 32 5))
         (map (\<lambda>(s, sk). vote_pair (sign_vote linear_blst sk s (sample_proposal (replicate 32 5)))) ?hs) = Inr c \<and>
       signers c = fst ` set ?hs \<and>
       validate_certificate linear_blst (sample_proposal (replicate 32 5)) c [4, 7, 9] sample_leaf_keys = Inr () \<and>
       votes_meet_wait (length [4, 7, 9 :: u16]) (map fst ?hs)"
    by (rule honest_votes_certify)
      (simp_all add: sample_leaf_keys_def linear_aggregates sample_proposal_def, simp add: linear_blst_def)
  thus ?thesis by (simp add: insert_commute numeral_3_eq_3)
qed

lemma sample_certified:
  "\<exists>c. length (c_signer_bitmap c) = 32 \<and> signers c = {4, 9} \<and>
     validate_certificate linear_blst (sample_proposal i) c [4, 7, 9] sample_leaf_keys = Inr ()"
proof -
  let ?hs = "[(9, 90), (4, 40)] :: (u16 \<times> u8) list"
  have "\<exists>c. form_certificate linear_blst (sample_proposal i)
         (map (\<lambda>(s, sk). vote_pair (sign_vote linear_blst sk s (sample_proposal i))) ?hs) = Inr c \<and>
       length (c_signer_bitmap c) = 32 \<and> signers c = fst ` set ?hs \<and>
       validate_certificate linear_blst (sample_proposal i) c [4, 7, 9] sample_leaf_keys = Inr () \<and>
       votes_meet_wait (length [4, 7, 9 :: u16]) (map fst ?hs)"
    by (rule honest_votes_ok)
      (simp_all add: sample_leaf_keys_def linear_aggregates sample_proposal_def, simp add: linear_blst_def)
  thus ?thesis by (auto simp: insert_commute)
qed

theorem certificate_valid_iff_witness:
  "\<exists>c. validate_certificate linear_blst (sample_proposal (replicate 32 5)) c [4, 7, 9] sample_leaf_keys = Inr () \<and>
       matches c (sample_proposal (replicate 32 5)) \<and> 2 \<le> card (signers c) \<and> signers c \<subseteq> {4, 7, 9}"
proof -
  obtain c where c: "length (c_signer_bitmap c) = 32"
      "validate_certificate linear_blst (sample_proposal (replicate 32 5)) c [4, 7, 9] sample_leaf_keys = Inr ()"
    using sample_certified by blast
  from certificate_valid_iff[OF c(1), THEN iffD1, OF c(2)]
  have "matches c (sample_proposal (replicate 32 5))" "2 \<le> card (signers c)" "signers c \<subseteq> {4, 7, 9}" by auto
  with c(2) show ?thesis by blast
qed


text \<open>A weak hash, so that two proposals collide: the last 32 bytes.\<close>

definition tail_hash :: "u8 list \<Rightarrow> u8 list" where
  "tail_hash bs = take 32 (rev bs @ replicate 32 0)"

definition sample_body :: "u8 list" where
  "sample_body = body_bytes (replicate 410 3, [1, 2], [], replicate 32 7)"

definition sample_built :: "u64 \<Rightarrow> proposal" where
  "sample_built chain = proposal_from_parts tail_hash chain 1 2 3 (replicate 32 1) (tail_hash (replicate 410 3))
     (tail_hash [1, 2]) (tail_hash []) (tail_hash sample_body)"

lemma sample_body_encodes: "encode_proposal_body (replicate 410 3) [1, 2] [] (replicate 32 7) = Inr sample_body"
  by (simp add: encode_proposal_body_iff MAX_FINALIZER_OUTPUT_BYTES_def MAX_FINALIZER_PROOF_BYTES_def sample_body_def)

lemma sample_tag: "length (replicate 32 (7 :: u8)) = 32" "validate_hash32_canonical (replicate 32 7) = Inr ()"
  using canonical_sevens by (simp_all add: validate_hash32_canonical_def validate_limbs_iff)

lemma sample_body_decodes: "decode_proposal_body sample_body = Inr (replicate 410 3, [1, 2], [], replicate 32 7)"
  using sample_tag
  by (simp add: decode_proposal_body_iff body_wf_def sample_body_def MAX_FINALIZER_OUTPUT_BYTES_def
      MAX_FINALIZER_PROOF_BYTES_def)

lemma built_proposal_accepted_witness:
  "decode_checked_body tail_hash (sample_built 7) sample_body =
     Inr \<lparr>d_output = replicate 410 3, d_proof = [1, 2], d_state_updates = [], d_worker_tag = replicate 32 7\<rparr> \<and>
   proposal_compute_id tail_hash (sample_built 7) = p_proposal_id (sample_built 7)"
  by (rule built_proposal_accepted[OF sample_body_encodes sample_tag sample_built_def])

theorem accepted_body_binding_witness:
  "sample_built 7 \<noteq> sample_built 8 \<and> p_proposal_id (sample_built 7) = p_proposal_id (sample_built 8) \<and>
   collides tail_hash (proposal_preimage (sample_built 7)) (proposal_preimage (sample_built 8))"
proof -
  have l: "length (tail_hash bs) = 32" for bs by (simp add: tail_hash_def)
  have w: "proposal_wf (sample_built c)" for c
    by (simp add: proposal_wf_def sample_built_def proposal_from_parts_def l compute_proposal_id_def)
  have i: "p_proposal_id (sample_built c) = proposal_compute_id tail_hash (sample_built c)" for c
    unfolding sample_built_def by (rule proposal_from_parts_id)
  have e: "p_proposal_id (sample_built 7) = p_proposal_id (sample_built 8)"
    by (simp add: sample_built_def proposal_from_parts_def compute_proposal_id_def)
      (simp add: tail_hash_def)
  have b: "decode_checked_body tail_hash (sample_built c) sample_body =
      Inr \<lparr>d_output = replicate 410 3, d_proof = [1, 2], d_state_updates = [], d_worker_tag = replicate 32 7\<rparr>" for c
    by (simp add: decode_checked_body_iff sample_body_decodes sample_built_def proposal_from_parts_def)
  have "sample_built 7 \<noteq> sample_built 8" by (simp add: sample_built_def proposal_from_parts_def)
  with accepted_body_binding[OF w w i i e b b] e show ?thesis by (simp add: collides_def)
qed

end
