(* ===== verification/Reassembly.thy ===== *)
theory Reassembly
  imports P2p_Messages "HOL-Library.AList"
begin

text \<open>
  Reassembly of proposal bodies, \<open>src/psy_node_common/src/realm/network/reassembly.rs\<close>: chunks
  arrive in any order, possibly twice or overlapping, into a bounded book of in-flight bodies.
  A \<open>BTreeMap\<close> is an association list with ascending keys, the \<open>HashMap\<close> of entries an association
  list with distinct keys; instants and durations are natural numbers, and \<open>duration_since\<close>
  saturates at zero.
\<close>

section \<open>One body\<close>

datatype network_error =
    Chunk_Empty | Chunk_Overflow | Chunk_Exceeds_Body | Body_Incomplete | Body_Hash_Mismatch
  | Total_Parts_Range u32 | Body_Len_Range u64 | Chunk_Exceeds_Bound nat nat
  | Chunk_Unknown | Finalize_Unknown

record proposal_reassembly =
  ra_proposal :: proposal
  ra_total_parts :: u32
  ra_body_len :: u64
  ra_ranges :: "(u64 \<times> u32) list"
  ra_contiguous :: u64
  ra_body :: "u8 list"
  ra_created_at :: nat
  ra_last_request_at :: "nat option"
  ra_direct_request_active :: bool

definition validate_start :: "u32 \<Rightarrow> u64 \<Rightarrow> network_error + unit" where
  "validate_start total_parts body_len =
     (if total_parts = 0 \<or> unat total_parts > MAX_PROPOSAL_PARTS then Inl (Total_Parts_Range total_parts)
      else if body_len = 0 \<or> unat body_len > MAX_PROPOSAL_BODY_BYTES then Inl (Body_Len_Range body_len)
      else Inr ())"

definition reassembly_new :: "proposal \<Rightarrow> u32 \<Rightarrow> u64 \<Rightarrow> nat \<Rightarrow> network_error + proposal_reassembly" where
  "reassembly_new p total_parts body_len now =
     rbind (validate_start total_parts body_len) (\<lambda>_.
       Inr \<lparr>ra_proposal = p, ra_total_parts = total_parts, ra_body_len = body_len, ra_ranges = [],
            ra_contiguous = 0, ra_body = replicate (unat body_len) 0, ra_created_at = now,
            ra_last_request_at = None, ra_direct_request_active = False\<rparr>)"



text \<open>\<open>BTreeMap::insert\<close>\<close>

fun bt_insert :: "u64 \<Rightarrow> u32 \<Rightarrow> (u64 \<times> u32) list \<Rightarrow> (u64 \<times> u32) list" where
  "bt_insert k v [] = [(k, v)]"
| "bt_insert k v ((k', v') # rs) =
     (if k < k' then (k, v) # (k', v') # rs else if k = k' then (k, v) # rs
      else (k', v') # bt_insert k v rs)"

definition overlaps :: "(u64 \<times> u32) list \<Rightarrow> u64 \<Rightarrow> u32 \<Rightarrow> bool" where
  "overlaps ranges offset len =
     (let fin = offset + ucast len in
      if list_ex (\<lambda>(k, l). k + ucast l > offset) (filter (\<lambda>(k, l). k \<le> offset) ranges) then True
      else case filter (\<lambda>(k, l). offset \<le> k \<and> k < fin) ranges of
        [] \<Rightarrow> False
      | (k, l) # _ \<Rightarrow> k < fin)"

fun contiguous_loop :: "u64 \<Rightarrow> (u64 \<times> u32) list \<Rightarrow> u64" where
  "contiguous_loop c [] = c"
| "contiguous_loop c ((k, l) # rs) = (if k = c then contiguous_loop (c + ucast l) rs else c)"

definition recompute_contiguous :: "proposal_reassembly \<Rightarrow> proposal_reassembly" where
  "recompute_contiguous r = r\<lparr>ra_contiguous := contiguous_loop 0 (ra_ranges r)\<rparr>"

definition is_complete :: "proposal_reassembly \<Rightarrow> bool" where
  "is_complete r \<longleftrightarrow> ra_contiguous r \<ge> ra_body_len r"

datatype insert_outcome = Inserted | Duplicate | Complete

definition checked_add :: "u64 \<Rightarrow> u64 \<Rightarrow> u64 option" where
  "checked_add a b = (if unat a + unat b < 2 ^ 64 then Some (a + b) else None)"

definition insert_chunk ::
  "u64 \<Rightarrow> u8 list \<Rightarrow> nat \<Rightarrow> proposal_reassembly \<Rightarrow> proposal_reassembly \<times> (network_error + insert_outcome)" where
  "insert_chunk offset data now r =
     (let len = of_nat (length data) :: u32 in
      if len = 0 then (r, Inl Chunk_Empty)
      else case checked_add offset (of_nat (length data)) of
        None \<Rightarrow> (r, Inl Chunk_Overflow)
      | Some fin \<Rightarrow>
          if fin > ra_body_len r then (r, Inl Chunk_Exceeds_Body)
          else
            let r = r\<lparr>ra_last_request_at := Some now\<rparr> in
            if overlaps (ra_ranges r) offset len then (r, Inr Duplicate)
            else
              let r = r\<lparr>ra_body := take (unat offset) (ra_body r) @ data @ drop (unat fin) (ra_body r),
                        ra_ranges := bt_insert offset len (ra_ranges r)\<rparr>;
                  r = recompute_contiguous r
              in (r, Inr (if ra_contiguous r \<ge> ra_body_len r then Complete else Inserted)))"

definition into_verified_body :: "(u8 list \<Rightarrow> u8 list) \<Rightarrow> proposal_reassembly \<Rightarrow> network_error + (u8 list \<times> u8 list)" where
  "into_verified_body sha256 r =
     (if \<not> is_complete r then Inl Body_Incomplete
      else let hash = sha256 (ra_body r) in
        if hash \<noteq> p_body_hash (ra_proposal r) then Inl Body_Hash_Mismatch
        else Inr (ra_body r, hash))"

section \<open>The book\<close>













section \<open>Ranges\<close>

definition covered :: "(u64 \<times> u32) list \<Rightarrow> nat \<Rightarrow> bool" where
  "covered rs i \<longleftrightarrow> (\<exists>(k, l)\<in>set rs. unat k \<le> i \<and> i < unat k + unat l)"

text \<open>Ascending, non-empty, disjoint ranges inside \<open>[lo, n)\<close>.\<close>

fun ranges_ok :: "nat \<Rightarrow> nat \<Rightarrow> (u64 \<times> u32) list \<Rightarrow> bool" where
  "ranges_ok n lo [] \<longleftrightarrow> lo \<le> n"
| "ranges_ok n lo ((k, l) # rs) \<longleftrightarrow> lo \<le> unat k \<and> 0 < unat l \<and> ranges_ok n (unat k + unat l) rs"

lemma ranges_ok_le: "ranges_ok n lo rs \<Longrightarrow> lo \<le> n"
  by (induction n lo rs rule: ranges_ok.induct) auto

lemma ranges_ok_mem: "ranges_ok n lo rs \<Longrightarrow> (k, l) \<in> set rs \<Longrightarrow> lo \<le> unat k \<and> 0 < unat l \<and> unat k + unat l \<le> n"
  by (induction n lo rs rule: ranges_ok.induct) (auto dest: ranges_ok_le)

lemma unat_add_u32:
  fixes k :: u64 and l :: u32
  assumes "unat k + unat l < 2 ^ 64"
  shows "unat (k + ucast l) = unat k + unat l"
proof -
  have "unat l < 2 ^ 64" by (rule less_le_trans[OF unsigned_less]) simp
  hence "unat (ucast l :: u64) = unat l" by (simp add: unsigned_ucast_eq take_bit_nat_eq_self_iff)
  thus ?thesis using assms by (simp add: unat_word_ariths)
qed

lemma overlaps_iff:
  assumes ok: "ranges_ok n 0 rs" and n: "n < 2 ^ 64" and fit: "unat off + unat len \<le> n" and pos: "0 < unat len"
  shows "overlaps rs off len \<longleftrightarrow> (\<exists>i. unat off \<le> i \<and> i < unat off + unat len \<and> covered rs i)"
proof -
  have fin: "unat (off + ucast len) = unat off + unat len" using fit n by (intro unat_add_u32) simp
  have mem: "0 < unat l" "unat (k + ucast l) = unat k + unat l" if "(k, l) \<in> set rs" for k l
    using ranges_ok_mem[OF ok that] n unat_add_u32[of k l] by auto
  have f: "(case filter P rs of [] \<Rightarrow> False | (k, l) # _ \<Rightarrow> k < off + ucast len) \<longleftrightarrow> (\<exists>x\<in>set rs. P x)"
    if "\<And>k l. P (k, l) \<Longrightarrow> k < off + ucast len" for P
    using that by (cases "filter P rs") (force simp: filter_empty_conv dest: filter_eq_ConsD)+
  have "overlaps rs off len \<longleftrightarrow>
      (\<exists>(k, l)\<in>set rs. k \<le> off \<and> off < k + ucast l \<or> off \<le> k \<and> k < off + ucast len)"
    unfolding overlaps_def Let_def by (subst f) (auto simp: list_ex_iff)
  also have "\<dots> \<longleftrightarrow> (\<exists>(k, l)\<in>set rs. unat k \<le> unat off \<and> unat off < unat k + unat l \<or>
      unat off \<le> unat k \<and> unat k < unat off + unat len)"
    by (rule bex_cong) (auto simp: word_le_nat_alt word_less_nat_alt mem fin)
  also have "\<dots> \<longleftrightarrow> (\<exists>i. unat off \<le> i \<and> i < unat off + unat len \<and> covered rs i)" (is "?L \<longleftrightarrow> ?R")
  proof
    assume ?L
    then obtain k l where kl: "(k, l) \<in> set rs" "unat k \<le> unat off \<and> unat off < unat k + unat l \<or>
      unat off \<le> unat k \<and> unat k < unat off + unat len" by blast
    show ?R
    proof (cases "unat k \<le> unat off \<and> unat off < unat k + unat l")
      case True
      hence "covered rs (unat off)" using kl(1) by (auto simp: covered_def)
      thus ?thesis using pos by (intro exI[of _ "unat off"]) simp
    next
      case False
      hence "unat off \<le> unat k" "unat k < unat off + unat len" using kl(2) by auto
      moreover have "covered rs (unat k)" using kl(1) mem(1)[OF kl(1)] by (auto simp: covered_def)
      ultimately show ?thesis by blast
    qed
  next
    assume ?R
    then obtain i k l where "unat off \<le> i" "i < unat off + unat len" "(k, l) \<in> set rs"
      "unat k \<le> i" "i < unat k + unat l" by (auto simp: covered_def)
    moreover from this have "unat k \<le> unat off \<and> unat off < unat k + unat l \<or>
      unat off \<le> unat k \<and> unat k < unat off + unat len" by linarith
    ultimately show ?L by blast
  qed
  finally show ?thesis .
qed

lemma covered_Cons: "covered ((k, l) # rs) i \<longleftrightarrow> unat k \<le> i \<and> i < unat k + unat l \<or> covered rs i"
  by (auto simp: covered_def)

lemma covered_Nil [simp]: "\<not> covered [] i"
  by (simp add: covered_def)

lemma ranges_ok_covered: "ranges_ok n lo rs \<Longrightarrow> covered rs i \<Longrightarrow> lo \<le> i \<and> i < n"
  using ranges_ok_mem unfolding covered_def by fastforce

lemma bt_insert_ok:
  assumes "ranges_ok n lo rs" "lo \<le> unat k" "0 < unat l" "unat k + unat l \<le> n"
    and "\<And>i. unat k \<le> i \<Longrightarrow> i < unat k + unat l \<Longrightarrow> \<not> covered rs i"
  shows "ranges_ok n lo (bt_insert k l rs)"
    and "covered (bt_insert k l rs) i \<longleftrightarrow> covered rs i \<or> unat k \<le> i \<and> i < unat k + unat l"
proof -
  have "ranges_ok n lo (bt_insert k l rs) \<and>
     (covered (bt_insert k l rs) i \<longleftrightarrow> covered rs i \<or> unat k \<le> i \<and> i < unat k + unat l)"
    using assms
  proof (induction rs arbitrary: lo)
    case (Cons r rs)
    obtain a b where r: "r = (a, b)" by (cases r)
    have a: "lo \<le> unat a" "0 < unat b" "ranges_ok n (unat a + unat b) rs" using Cons.prems(1) by (simp_all add: r)
    have "\<not> (unat k \<le> unat a \<and> unat a < unat k + unat l)" "\<not> (unat a \<le> unat k \<and> unat k < unat a + unat b)"
      using Cons.prems(5)[of "unat a"] Cons.prems(5)[of "unat k"] a(2) assms(3) by (auto simp: r covered_Cons)
    hence "unat k + unat l \<le> unat a \<or> unat a + unat b \<le> unat k" using a(2) assms(3) by linarith
    thus ?case
    proof
      assume "unat k + unat l \<le> unat a"
      moreover from this have "k < a" using assms(3) by (simp add: word_less_nat_alt)
      ultimately show ?thesis using Cons.prems a by (auto simp: r covered_Cons)
    next
      assume ge: "unat a + unat b \<le> unat k"
      hence "\<not> k < a" "k \<noteq> a" using a(2) by (auto simp: word_less_nat_alt)
      moreover have "ranges_ok n (unat a + unat b) (bt_insert k l rs) \<and>
          (covered (bt_insert k l rs) i \<longleftrightarrow> covered rs i \<or> unat k \<le> i \<and> i < unat k + unat l)"
        using Cons.prems(3-5) a(3) ge by (intro Cons.IH) (auto simp: r covered_Cons)
      ultimately show ?thesis using a by (auto simp: r covered_Cons)
    qed
  qed (auto simp: covered_Cons)
  thus "ranges_ok n lo (bt_insert k l rs)"
    "covered (bt_insert k l rs) i \<longleftrightarrow> covered rs i \<or> unat k \<le> i \<and> i < unat k + unat l" by auto
qed

lemma contiguous_loop_spec:
  assumes "ranges_ok n (unat c) rs" "n < 2 ^ 64"
  shows "unat c \<le> unat (contiguous_loop c rs) \<and> unat (contiguous_loop c rs) \<le> n \<and>
    (\<forall>i. unat c \<le> i \<and> i < unat (contiguous_loop c rs) \<longrightarrow> covered rs i) \<and>
    \<not> covered rs (unat (contiguous_loop c rs))"
  using assms
proof (induction c rs rule: contiguous_loop.induct)
  case (2 c k l rs)
  have ok: "unat c \<le> unat k" "0 < unat l" "ranges_ok n (unat k + unat l) rs" using "2.prems"(1) by auto
  have u: "unat (k + ucast l) = unat k + unat l"
    using ranges_ok_le[OF ok(3)] "2.prems"(2) by (intro unat_add_u32) simp
  show ?case
  proof (cases "k = c")
    case True
    let ?c = "contiguous_loop (c + ucast l) rs"
    have ih: "unat c + unat l \<le> unat ?c" "unat ?c \<le> n"
        "\<forall>i. unat c + unat l \<le> i \<and> i < unat ?c \<longrightarrow> covered rs i" "\<not> covered rs (unat ?c)"
      using "2.IH"[OF True] ok u True "2.prems"(2) by simp_all
    have "covered ((k, l) # rs) i" if "unat c \<le> i" "i < unat ?c" for i
      using ih(3) that True by (cases "i < unat c + unat l") (auto simp: covered_Cons)
    thus ?thesis using ih True by (auto simp: covered_Cons)
  next
    case False
    hence "unat c < unat k" using ok(1) by (simp add: word_unat_eq_iff)
    moreover have "\<not> covered rs (unat c)" using ranges_ok_covered[OF ok(3)] calculation by fastforce
    ultimately show ?thesis using False ranges_ok_le[OF "2.prems"(1)] by (auto simp: covered_Cons)
  qed
qed auto

section \<open>Invariant and abstraction\<close>

definition reassembly_inv :: "proposal_reassembly \<Rightarrow> bool" where
  "reassembly_inv r \<longleftrightarrow> 0 < unat (ra_body_len r) \<and> unat (ra_body_len r) \<le> MAX_PROPOSAL_BODY_BYTES \<and>
     length (ra_body r) = unat (ra_body_len r) \<and> ranges_ok (unat (ra_body_len r)) 0 (ra_ranges r) \<and>
     ra_contiguous r = contiguous_loop 0 (ra_ranges r)"

text \<open>The bytes received so far, by position.\<close>

definition content :: "proposal_reassembly \<Rightarrow> nat \<Rightarrow> u8 option" where
  "content r i = (if covered (ra_ranges r) i then Some (ra_body r ! i) else None)"

definition chunk_map :: "nat \<Rightarrow> u8 list \<Rightarrow> nat \<Rightarrow> u8 option" where
  "chunk_map off data i = (if off \<le> i \<and> i < off + length data then Some (data ! (i - off)) else None)"

text \<open>What inserting a chunk into a body of \<open>n\<close> bytes means: chunks that leave the body are refused,
  chunks that touch a received byte are ignored, the others are added.\<close>

definition spec_insert ::
  "nat \<Rightarrow> nat \<Rightarrow> u8 list \<Rightarrow> (nat \<Rightarrow> u8 option) \<Rightarrow> (nat \<Rightarrow> u8 option) \<times> insert_outcome option" where
  "spec_insert n off data m =
     (if data = [] \<or> n < off + length data then (m, None)
      else if dom m \<inter> dom (chunk_map off data) \<noteq> {} then (m, Some Duplicate)
      else let m' = m ++ chunk_map off data
        in (m', Some (if dom m' = {0..<n} then Complete else Inserted)))"

lemma dom_chunk_map: "dom (chunk_map off data) = {i. off \<le> i \<and> i < off + length data}"
  by (auto simp: chunk_map_def dom_def)

lemma dom_content: "dom (content r) = {i. covered (ra_ranges r) i}"
  by (auto simp: content_def dom_def)

lemma body_len_bound: "reassembly_inv r \<Longrightarrow> unat (ra_body_len r) < 2 ^ 32"
  by (simp add: reassembly_inv_def MAX_PROPOSAL_BODY_BYTES_def MAX_FINALIZER_OUTPUT_BYTES_def
      MAX_FINALIZER_PROOF_BYTES_def MAX_BACKUP_BYTES_def)

lemma complete_iff:
  assumes "ranges_ok (unat n) 0 rs"
  shows "contiguous_loop 0 rs \<ge> n \<longleftrightarrow> {i. covered rs i} = {0..<unat n}"
proof -
  have "unat n < 2 ^ 64" by (rule less_le_trans[OF unsigned_less]) simp
  hence s: "unat (contiguous_loop 0 rs) \<le> unat n" "\<forall>i < unat (contiguous_loop 0 rs). covered rs i"
      "\<not> covered rs (unat (contiguous_loop 0 rs))"
    using contiguous_loop_spec[of "unat n" 0 rs] assms by auto
  show ?thesis
  proof
    assume "contiguous_loop 0 rs \<ge> n"
    hence "unat (contiguous_loop 0 rs) = unat n" using s(1) by (simp add: word_le_nat_alt)
    thus "{i. covered rs i} = {0..<unat n}" using s(2) ranges_ok_covered[OF assms] by auto
  next
    assume "{i. covered rs i} = {0..<unat n}"
    hence "\<not> unat (contiguous_loop 0 rs) < unat n" using s(3) by auto
    thus "contiguous_loop 0 rs \<ge> n" by (simp add: word_le_nat_alt)
  qed
qed

lemma is_complete_iff:
  "reassembly_inv r \<Longrightarrow> is_complete r \<longleftrightarrow> dom (content r) = {0..<unat (ra_body_len r)}"
  using complete_iff[of "ra_body_len r" "ra_ranges r"]
  by (simp add: is_complete_def reassembly_inv_def dom_content)

lemma content_complete:
  assumes "reassembly_inv r" "is_complete r"
  shows "ra_body r = map (\<lambda>i. the (content r i)) [0..<unat (ra_body_len r)]"
proof (rule nth_equalityI)
  fix i assume "i < length (ra_body r)"
  hence i: "i < unat (ra_body_len r)" using assms(1) by (simp add: reassembly_inv_def)
  hence "i \<in> dom (content r)" using assms is_complete_iff by simp
  hence "covered (ra_ranges r) i" by (simp add: dom_content)
  thus "ra_body r ! i = map (\<lambda>i. the (content r i)) [0..<unat (ra_body_len r)] ! i"
    using i by (simp add: content_def)
qed (use assms(1) in \<open>simp add: reassembly_inv_def\<close>)

section \<open>Inserting refines the abstract specification\<close>

lemma content_insert:
  assumes "reassembly_inv r" "ranges_ok (unat (ra_body_len r)) 0 rs" "off + length data \<le> unat (ra_body_len r)"
    and "\<And>i. covered rs i \<longleftrightarrow> covered (ra_ranges r) i \<or> off \<le> i \<and> i < off + length data"
    and "dom (content r) \<inter> dom (chunk_map off data) = {}"
    and "r' = r\<lparr>ra_last_request_at := t, ra_body := take off (ra_body r) @ data @ drop (off + length data) (ra_body r),
               ra_ranges := rs, ra_contiguous := c\<rparr>"
  shows "content r' = content r ++ chunk_map off data"
proof
  fix i
  have len: "length (ra_body r) = unat (ra_body_len r)" using assms(1) by (simp add: reassembly_inv_def)
  show "content r' i = (content r ++ chunk_map off data) i"
  proof (cases "off \<le> i \<and> i < off + length data")
    case True
    hence "i - off < length data" by linarith
    thus ?thesis using True assms(3,4,6) len by (simp add: content_def chunk_map_def nth_append map_add_def)
  next
    case False
    have "(take off (ra_body r) @ data @ drop (off + length data) (ra_body r)) ! i = ra_body r ! i"
      if "covered (ra_ranges r) i"
    proof -
      have "i < unat (ra_body_len r)"
        using ranges_ok_covered that assms(1) by (auto simp: reassembly_inv_def)
      thus ?thesis using False assms(3) len by (auto simp: nth_append not_less)
    qed
    thus ?thesis using False assms(4,6) by (auto simp: content_def chunk_map_def map_add_def)
  qed
qed

lemma insert_chunk_refines:
  assumes inv: "reassembly_inv r" and len: "length data < 2 ^ 32"
    and ins: "insert_chunk off data now r = (r', res)"
  shows "reassembly_inv r' \<and> ra_proposal r' = ra_proposal r \<and> ra_body_len r' = ra_body_len r \<and>
    spec_insert (unat (ra_body_len r)) (unat off) data (content r) =
      (content r', case res of Inl _ \<Rightarrow> None | Inr out \<Rightarrow> Some out)"
proof -
  let ?n = "unat (ra_body_len r)" and ?l = "of_nat (length data) :: u32"
  have ul: "unat ?l = length data" using len unat_len_u32 by blast
  have u64: "unat (of_nat (length data) :: u64) = length data" using len by (simp add: unat_of_nat)
  have n: "?n < 2 ^ 32" by (rule body_len_bound[OF inv])
  show ?thesis
  proof (cases "data = [] \<or> ?n < unat off + length data")
    case True
    hence "r' = r \<and> (\<exists>e. res = Inl e)"
    proof
      assume "?n < unat off + length data"
      moreover have "unat (off + of_nat (length data)) = unat off + length data"
        if "unat off + length data < 2 ^ 64" using that u64 by (simp add: unat_word_ariths)
      ultimately have "checked_add off (of_nat (length data)) = None \<or>
          (\<exists>fin. checked_add off (of_nat (length data)) = Some fin \<and> ra_body_len r < fin)"
        by (auto simp: checked_add_def u64 word_less_nat_alt)
      thus ?thesis using ins by (cases "?l = 0") (auto simp: insert_chunk_def Let_def)
    qed (use ins in \<open>auto simp: insert_chunk_def\<close>)
    thus ?thesis using True inv by (auto simp: spec_insert_def)
  next
    case False
    hence fit: "unat off + length data \<le> ?n" and pos: "0 < length data" by auto
    have l0: "?l \<noteq> 0" using ul pos by (metis unsigned_0 less_irrefl)
    have fin: "unat (off + of_nat (length data)) = unat off + length data"
      using fit n u64 by (simp add: unat_word_ariths)
    have ca: "checked_add off (of_nat (length data)) = Some (off + of_nat (length data))"
      using fit n u64 by (simp add: checked_add_def)
    have nle: "\<not> ra_body_len r < off + of_nat (length data)" using fit fin by (simp add: word_less_nat_alt)
    have ok: "ranges_ok ?n 0 (ra_ranges r)" using inv by (simp add: reassembly_inv_def)
    have ov: "overlaps (ra_ranges r) off ?l \<longleftrightarrow> dom (content r) \<inter> dom (chunk_map (unat off) data) \<noteq> {}"
      using overlaps_iff[OF ok, of off ?l] fit n pos by (auto simp: ul dom_content dom_chunk_map)
    show ?thesis
    proof (cases "overlaps (ra_ranges r) off ?l")
      case True
      hence "r' = r\<lparr>ra_last_request_at := Some now\<rparr>" "res = Inr Duplicate"
        using ins l0 ca nle by (auto simp: insert_chunk_def Let_def)
      moreover from this have "reassembly_inv r'" using inv by (auto simp: reassembly_inv_def)
      ultimately show ?thesis using fit pos ov True by (simp add: spec_insert_def content_def fun_eq_iff)
    next
      case False
      let ?rs = "bt_insert off ?l (ra_ranges r)"
      have rs: "ranges_ok ?n 0 ?rs" "\<And>i. covered ?rs i \<longleftrightarrow> covered (ra_ranges r) i \<or> unat off \<le> i \<and> i < unat off + length data"
        using bt_insert_ok[OF ok, of off ?l] False ov fit pos
        by (auto simp: ul dom_content dom_chunk_map)
      have r': "r' = r\<lparr>ra_last_request_at := Some now, ra_body := take (unat off) (ra_body r) @ data @ drop (unat off + length data) (ra_body r),
               ra_ranges := ?rs, ra_contiguous := contiguous_loop 0 ?rs\<rparr>"
        and res: "res = Inr (if contiguous_loop 0 ?rs \<ge> ra_body_len r then Complete else Inserted)"
        using ins l0 ca nle False by (auto simp: insert_chunk_def Let_def recompute_contiguous_def fin)
      have inv': "reassembly_inv r'" using inv rs(1) fit by (auto simp: r' reassembly_inv_def)
      have c: "content r' = content r ++ chunk_map (unat off) data"
        using ov False by (intro content_insert[OF inv rs(1) fit rs(2) _ r']) simp
      have "contiguous_loop 0 ?rs \<ge> ra_body_len r \<longleftrightarrow> dom (content r') = {0..<?n}"
        using complete_iff[OF rs(1)] by (simp add: dom_content r')
      thus ?thesis using inv' fit pos ov False c res by (simp add: spec_insert_def r' del: dom_map_add)
    qed
  qed
qed

text \<open>
  C20. Inserting a chunk refines the set-of-bytes view of a body. From any state satisfying the
  invariant (ascending, disjoint ranges inside the body, the recorded contiguous prefix), whatever
  the offset and the data, the insertion keeps the invariant, the proposal and the length, and acts
  on the received bytes as the specification says: chunks that are empty or leave the body (also by
  overflow of the offset) change nothing, chunks that touch a received byte are duplicates and
  change nothing, all others add exactly their bytes, and the outcome is \<open>Complete\<close> exactly when
  every byte of the body has been received.
\<close>

theorem reassembly_insert_refines:
  assumes "reassembly_inv r" "length data < 2 ^ 32" "insert_chunk off data now r = (r', res)"
  shows "reassembly_inv r' \<and> ra_proposal r' = ra_proposal r \<and> ra_body_len r' = ra_body_len r \<and>
    spec_insert (unat (ra_body_len r)) (unat off) data (content r) =
      (content r', case res of Inl _ \<Rightarrow> None | Inr out \<Rightarrow> Some out)"
  by (rule insert_chunk_refines[OF assms])

section \<open>Delivering all chunks\<close>

definition piece :: "nat \<Rightarrow> u8 list \<Rightarrow> nat \<Rightarrow> u8 list" where
  "piece cs b i = take cs (drop (i * cs) b)"

definition feed :: "nat \<Rightarrow> u8 list \<Rightarrow> nat \<Rightarrow> nat list \<Rightarrow> proposal_reassembly \<Rightarrow> proposal_reassembly" where
  "feed cs b now is r = fold (\<lambda>i r. fst (insert_chunk (of_nat (i * cs)) (piece cs b i) now r)) is r"

definition blocks :: "nat \<Rightarrow> u8 list \<Rightarrow> nat set \<Rightarrow> nat \<Rightarrow> u8 option" where
  "blocks cs b S j = (if j < length b \<and> j div cs \<in> S then Some (b ! j) else None)"

lemma div_block_iff: "0 < cs \<Longrightarrow> j div cs = i \<longleftrightarrow> i * cs \<le> j \<and> j < i * cs + cs" for cs :: nat
  by (metis add.commute div_nat_eqI mult.commute mult_Suc_right div_times_less_eq_dividend dividend_less_div_times)

lemma chunk_map_piece:
  assumes "0 < cs"
  shows "chunk_map (i * cs) (piece cs b i) = blocks cs b {i}"
proof
  fix j
  show "chunk_map (i * cs) (piece cs b i) j = blocks cs b {i} j"
  proof (cases "j div cs = i \<and> j < length b")
    case True
    hence "i * cs \<le> j" "j < i * cs + cs" "j < length b" using div_block_iff[OF assms, of j i] by blast+
    hence "i * cs \<le> j" "j - i * cs < cs" "i * cs \<le> length b" "j < i * cs + length (piece cs b i)"
      unfolding piece_def by (linarith, linarith, linarith, simp)
    thus ?thesis using True by (simp add: chunk_map_def blocks_def piece_def)
  next
    case False
    have "\<not> (i * cs \<le> j \<and> j < i * cs + length (piece cs b i))"
    proof
      assume "i * cs \<le> j \<and> j < i * cs + length (piece cs b i)"
      hence "i * cs \<le> j" "j < i * cs + cs" "j < i * cs + (length b - i * cs)" by (auto simp: piece_def)
      moreover from this have "j < length b" by linarith
      ultimately show False using False div_block_iff[OF assms, of j i] by blast
    qed
    thus ?thesis using False by (auto simp: chunk_map_def blocks_def)
  qed
qed

lemma dom_blocks: "dom (blocks cs b S) = {j. j < length b \<and> j div cs \<in> S}"
  by (auto simp: blocks_def dom_def)

lemma feed_step:
  assumes "reassembly_inv r" "content r = blocks cs b S" "unat (ra_body_len r) = length b"
    and "0 < cs" "cs < 2 ^ 32" "i * cs < length b"
    and r': "r' = fst (insert_chunk (of_nat (i * cs)) (piece cs b i) now r)"
  shows "reassembly_inv r' \<and> content r' = blocks cs b (insert i S) \<and> ra_body_len r' = ra_body_len r \<and>
    ra_proposal r' = ra_proposal r"
proof -
  obtain res where ins: "insert_chunk (of_nat (i * cs)) (piece cs b i) now r = (r', res)"
    using r' by (metis prod.collapse)
  have off: "unat (of_nat (i * cs) :: u64) = i * cs"
    using assms(3,6) body_len_bound[OF assms(1)] by (intro unat_of_nat_u64) simp
  have fit: "i * cs + length (piece cs b i) \<le> length b" "piece cs b i \<noteq> []"
    using assms(4,6) by (auto simp: piece_def)
  have "length (piece cs b i) < 2 ^ 32" using assms(5) by (simp add: piece_def)
  note ref = insert_chunk_refines[OF assms(1) this ins]
  have hd: "i * cs \<in> dom (blocks cs b {i})" using assms(4,6) by (simp add: dom_blocks)
  have spec: "fst (spec_insert (length b) (i * cs) (piece cs b i) (blocks cs b S)) = blocks cs b (insert i S)"
  proof (cases "i \<in> S")
    case True
    hence "i * cs \<in> dom (blocks cs b S)" using assms(4,6) by (simp add: dom_blocks)
    thus ?thesis using True hd fit by (auto simp: spec_insert_def chunk_map_piece[OF assms(4)] insert_absorb)
  next
    case False
    hence "dom (blocks cs b S) \<inter> dom (blocks cs b {i}) = {}" by (auto simp: dom_blocks)
    moreover have "blocks cs b S ++ blocks cs b {i} = blocks cs b (insert i S)"
      by (auto simp: fun_eq_iff blocks_def map_add_def)
    ultimately show ?thesis using fit by (simp add: spec_insert_def chunk_map_piece[OF assms(4)] Let_def)
  qed
  show ?thesis using ref[unfolded off] spec by (simp add: assms(2,3))
qed

lemma feed_content:
  assumes "0 < cs" "cs < 2 ^ 32" "\<forall>i\<in>set is. i * cs < length b"
    and "reassembly_inv r" "content r = blocks cs b S" "unat (ra_body_len r) = length b"
  shows "reassembly_inv (feed cs b now is r) \<and> content (feed cs b now is r) = blocks cs b (set is \<union> S) \<and>
    ra_body_len (feed cs b now is r) = ra_body_len r \<and> ra_proposal (feed cs b now is r) = ra_proposal r"
  using assms(3-6)
proof (induction "is" arbitrary: r S)
  case (Cons i "is")
  let ?r = "fst (insert_chunk (of_nat (i * cs)) (piece cs b i) now r)"
  have st: "reassembly_inv ?r" "content ?r = blocks cs b (insert i S)" "ra_body_len ?r = ra_body_len r"
      "ra_proposal ?r = ra_proposal r"
    using feed_step[OF Cons.prems(2-4) assms(1,2) _ refl, of i now] Cons.prems(1) by auto
  have "reassembly_inv (feed cs b now is ?r) \<and> content (feed cs b now is ?r) = blocks cs b (set is \<union> insert i S) \<and>
    ra_body_len (feed cs b now is ?r) = ra_body_len ?r \<and> ra_proposal (feed cs b now is ?r) = ra_proposal ?r"
    using Cons.prems(1,4) st(3) by (intro Cons.IH st(1,2)) auto
  thus ?case using st(3,4) by (simp add: feed_def)
qed (simp add: feed_def)

lemma new_inv:
  assumes "reassembly_new p tp n now = Inr r"
  shows "reassembly_inv r \<and> content r = Map.empty \<and> ra_body_len r = n \<and> ra_proposal r = p"
proof -
  have "n \<noteq> 0" using assms by (auto simp: reassembly_new_def validate_start_def rbind_Inr split: if_splits)
  hence "0 < unat n" by (simp add: unat_gt_0)
  thus ?thesis using assms
    by (auto simp: reassembly_new_def validate_start_def rbind_Inr reassembly_inv_def content_def fun_eq_iff
        split: if_splits)
qed

text \<open>
  C22. All chunks delivered means the body is delivered. For a body cut into pieces of any size,
  after every piece has arrived at least once, in any order and with any repetitions, a freshly
  started reassembly of the announced length is complete and hands out exactly that body, with
  the hash the proposal announced.
\<close>

theorem all_chunks_reassemble:
  assumes "reassembly_new p total_parts (of_nat (length b)) now = Inr r"
    and "length b < 2 ^ 64" "0 < cs" "cs < 2 ^ 32" "set is = {i. i * cs < length b}"
    and "sha256 b = p_body_hash p"
  shows "into_verified_body sha256 (feed cs b t is r) = Inr (b, sha256 b)"
proof -
  note new = new_inv[OF assms(1)]
  have n: "unat (ra_body_len r) = length b" using new assms(2) unat_of_nat_u64 by simp
  have "content r = blocks cs b {}" using new by (auto simp: blocks_def fun_eq_iff)
  with feed_content[OF assms(3,4), of "is" b r "{}" t] new n assms(5)
  have f: "reassembly_inv (feed cs b t is r)" "content (feed cs b t is r) = blocks cs b (set is)"
      "ra_body_len (feed cs b t is r) = ra_body_len r" "ra_proposal (feed cs b t is r) = p" by auto
  have all: "blocks cs b (set is) j = Some (b ! j)" if "j < length b" for j
    using that assms(5) le_less_trans[OF div_times_less_eq_dividend that] by (simp add: blocks_def)
  have "j div cs \<in> set is" if "j < length b" for j
    using assms(5) le_less_trans[OF div_times_less_eq_dividend that] by simp
  hence "dom (content (feed cs b t is r)) = {0..<length b}"
    unfolding f(2) by (auto simp: dom_blocks)
  hence c: "is_complete (feed cs b t is r)" using is_complete_iff[OF f(1)] f(3) n by simp
  have "ra_body (feed cs b t is r) = map (\<lambda>j. the (blocks cs b (set is) j)) [0..<length b]"
    using content_complete[OF f(1) c] f(2,3) n by simp
  also have "\<dots> = b" using all by (intro nth_equalityI) auto
  finally show ?thesis using c f(4) assms(6) by (simp add: into_verified_body_def)
qed

section \<open>The book keeps its bound and its bodies\<close>

















section \<open>Concrete instances\<close>

definition sample_meta :: proposal where
  "sample_meta = \<lparr>p_chain_id = 1, p_realm_id = 2, p_base_checkpoint_id = 3, p_proposer_sub_id = 4,
     p_validator_tree_root = [], p_proposal_id = [7], p_public_output_hash = [],
     p_finalizer_proof_hash = [], p_backup_hash = [], p_body_hash = [15]\<rparr>"

definition sum_hash :: "u8 list \<Rightarrow> u8 list" where
  "sum_hash bs = [sum_list bs]"

definition sample_reassembly :: proposal_reassembly where
  "sample_reassembly = \<lparr>ra_proposal = sample_meta, ra_total_parts = 3, ra_body_len = 5, ra_ranges = [],
     ra_contiguous = 0, ra_body = replicate 5 0, ra_created_at = 10, ra_last_request_at = None,
     ra_direct_request_active = False\<rparr>"

lemma max_parts: "MAX_PROPOSAL_PARTS = 1711"
  by (simp add: MAX_PROPOSAL_PARTS_def MAX_PROPOSAL_BODY_BYTES_def MAX_FINALIZER_OUTPUT_BYTES_def
      MAX_FINALIZER_PROOF_BYTES_def MAX_BACKUP_BYTES_def MAX_PROPOSAL_CHUNK_BYTES_def)

lemma max_body: "MAX_PROPOSAL_BODY_BYTES = 105120198"
  by (simp add: MAX_PROPOSAL_BODY_BYTES_def MAX_FINALIZER_OUTPUT_BYTES_def MAX_FINALIZER_PROOF_BYTES_def
      MAX_BACKUP_BYTES_def)

lemma sample_new: "reassembly_new sample_meta 3 (of_nat (length [1, 2, 3, 4, 5 :: u8])) 10 = Inr sample_reassembly"
  by (simp add: reassembly_new_def validate_start_def max_parts max_body sample_reassembly_def)

theorem reassembly_insert_refines_witness:
  "let (r', res) = insert_chunk 2 [3, 4] 11 sample_reassembly
   in res = Inr Inserted \<and> reassembly_inv r' \<and>
      spec_insert 5 2 [3, 4] (content sample_reassembly) = (content r', Some Inserted)"
proof -
  obtain r' res where i: "insert_chunk 2 [3, 4] 11 sample_reassembly = (r', res)" by fastforce
  have "res = Inr Inserted"
    using i by (simp add: insert_chunk_def checked_add_def sample_reassembly_def overlaps_def
        recompute_contiguous_def Let_def)
  moreover have "reassembly_inv sample_reassembly" using new_inv[OF sample_new] by blast
  ultimately show ?thesis
    using reassembly_insert_refines[OF _ _ i] i by (simp add: sample_reassembly_def)
qed

theorem all_chunks_reassemble_witness:
  "into_verified_body sum_hash (feed 2 [1, 2, 3, 4, 5] 12 [2, 0, 0, 1] sample_reassembly) = Inr ([1, 2, 3, 4, 5], [15])"
proof -
  have s: "set [2, 0, 0, 1] = {i. i * 2 < length [1, 2, 3, 4, 5 :: u8]}" by auto
  have h: "sum_hash [1, 2, 3, 4, 5] = p_body_hash sample_meta" by (simp add: sum_hash_def sample_meta_def)
  have "into_verified_body sum_hash (feed 2 [1, 2, 3, 4, 5] 12 [2, 0, 0, 1] sample_reassembly) =
      Inr ([1, 2, 3, 4, 5], sum_hash [1, 2, 3, 4, 5])"
    by (rule all_chunks_reassemble[where ?sha256.0 = sum_hash, OF sample_new _ _ _ s h]) simp_all
  thus ?thesis by (simp add: sum_hash_def)
qed


end
