(* ===== verification/User_Id.thy ===== *)
theory User_Id
  imports Psy_Prelude
begin

unbundle bit_operations_syntax

text \<open>
  User ids, \<open>src/psy_core/src/user_id.rs\<close>: six strategies that permute the bits of a registration
  id. Each strategy has a canonical bit-vector form (shared with the circuits through a bridge that
  sums bits, a parameter here), an optimised form on \<open>u64\<close> and its inverse. The locale
  \<open>user_id_strategy\<close> is the contract of the trait \<open>UserIdGeneratorStrategy\<close>; every strategy is
  an interpretation.
\<close>

section \<open>Bit sums, slices and reversal\<close>

definition le_sum_u64 :: "bool list \<Rightarrow> u64" where
  "le_sum_u64 bits = fold (\<lambda>(i, b) acc. if b then acc OR shl64 1 i else acc) (enumerate 0 bits) 0"

text \<open>Slicing panics out of range.\<close>

definition slice :: "nat \<Rightarrow> nat \<Rightarrow> 'b list \<Rightarrow> 'b list option" where
  "slice a b xs = (if a \<le> b \<and> b \<le> length xs then Some (take (b - a) (drop a xs)) else None)"

definition slice_from :: "nat \<Rightarrow> 'b list \<Rightarrow> 'b list option" where
  "slice_from a xs = (if a \<le> length xs then Some (drop a xs) else None)"

definition reverse_bits_in_limit :: "u64 \<Rightarrow> u8 \<Rightarrow> u64" where
  "reverse_bits_in_limit x num_bits =
     (let difference = 64 - ucast num_bits :: u64
      in shr64 (word_reverse x) (unat difference))"

section \<open>The strategies\<close>

definition circuit_s0 :: "('b list \<Rightarrow> 'f) \<Rightarrow> 'b list \<Rightarrow> u8 \<Rightarrow> u8 \<Rightarrow> u8 \<Rightarrow> 'f option" where
  "circuit_s0 bridge bits c r g = Some (bridge bits)"

definition user_id_s0 :: "u64 \<Rightarrow> u8 \<Rightarrow> u8 \<Rightarrow> u8 \<Rightarrow> u64" where
  "user_id_s0 reg_id c r g = reg_id"

definition registration_id_s0 :: "u64 \<Rightarrow> u8 \<Rightarrow> u8 \<Rightarrow> u8 \<Rightarrow> u64" where
  "registration_id_s0 uid c r g = uid"

definition circuit_s1 :: "('b list \<Rightarrow> 'f) \<Rightarrow> 'b list \<Rightarrow> u8 \<Rightarrow> u8 \<Rightarrow> u8 \<Rightarrow> 'f option" where
  "circuit_s1 bridge bits c r g = Some (bridge (rev bits))"

definition user_id_s1 :: "u64 \<Rightarrow> u8 \<Rightarrow> u8 \<Rightarrow> u8 \<Rightarrow> u64" where
  "user_id_s1 reg_id c r g = reverse_bits_in_limit reg_id (c + r)"

definition registration_id_s1 :: "u64 \<Rightarrow> u8 \<Rightarrow> u8 \<Rightarrow> u8 \<Rightarrow> u64" where
  "registration_id_s1 uid c r g = reverse_bits_in_limit uid (c + r)"

definition circuit_s2 :: "('b list \<Rightarrow> 'f) \<Rightarrow> 'b list \<Rightarrow> u8 \<Rightarrow> u8 \<Rightarrow> u8 \<Rightarrow> 'f option" where
  "circuit_s2 bridge bits c r g =
     do { tp \<leftarrow> slice 0 (unat c) bits;
          bottom \<leftarrow> slice_from (unat c) bits;
          Some (bridge (bottom @ rev tp)) }"

definition user_id_s2 :: "u64 \<Rightarrow> u8 \<Rightarrow> u8 \<Rightarrow> u8 \<Rightarrow> u64" where
  "user_id_s2 reg_id c r g =
     (let low = reg_id AND (shl64 1 (unat c) - 1);
          high = shr64 reg_id (unat c)
      in shl64 (reverse_bits_in_limit low c) (unat r) OR high)"

definition registration_id_s2 :: "u64 \<Rightarrow> u8 \<Rightarrow> u8 \<Rightarrow> u8 \<Rightarrow> u64" where
  "registration_id_s2 uid c r g =
     (let bottom = uid AND (shl64 1 (unat r) - 1);
          tp = shr64 uid (unat r)
      in shl64 bottom (unat c) OR reverse_bits_in_limit tp c)"

definition circuit_s3 :: "('b list \<Rightarrow> 'f) \<Rightarrow> 'b list \<Rightarrow> u8 \<Rightarrow> u8 \<Rightarrow> u8 \<Rightarrow> 'f option" where
  "circuit_s3 bridge bits c r g =
     do { tp \<leftarrow> slice_from 10 bits;
          bottom \<leftarrow> slice 0 10 bits;
          Some (bridge (bottom @ rev tp)) }"

definition user_id_s3 :: "u64 \<Rightarrow> u8 \<Rightarrow> u8 \<Rightarrow> u8 \<Rightarrow> u64" where
  "user_id_s3 reg_id c r g =
     (let h = c + r
      in shl64 (reverse_bits_in_limit (shr64 reg_id 10) (h - 10)) 10 OR (reg_id AND 0x3FF))"

definition registration_id_s3 :: "u64 \<Rightarrow> u8 \<Rightarrow> u8 \<Rightarrow> u8 \<Rightarrow> u64" where
  "registration_id_s3 uid c r g =
     (let h = c + r
      in shl64 (reverse_bits_in_limit (shr64 uid 10) (h - 10)) 10 OR (uid AND 0x3FF))"

definition circuit_s4 :: "('b list \<Rightarrow> 'f) \<Rightarrow> 'b list \<Rightarrow> u8 \<Rightarrow> u8 \<Rightarrow> u8 \<Rightarrow> 'f option" where
  "circuit_s4 bridge bits c realm_height group_height =
     (let g = unat group_height; r = unat realm_height in
      do { realm_index_bits \<leftarrow> slice 0 g bits;
           user_index_bits \<leftarrow> slice g (g + r) bits;
           group_id_bits \<leftarrow> slice_from (g + r) bits;
           let half = r div 2;
           user_low \<leftarrow> slice 0 half user_index_bits;
           user_high \<leftarrow> slice_from half user_index_bits;
           let modified_user = rev user_high @ user_low;
           Some (bridge (modified_user @ rev realm_index_bits @ group_id_bits)) })"

definition user_id_s4 :: "u64 \<Rightarrow> u8 \<Rightarrow> u8 \<Rightarrow> u8 \<Rightarrow> u64" where
  "user_id_s4 reg_id coord_h realm_h group_h =
     (let realm_idx = reg_id AND (shl64 1 (unat group_h) - 1);
          user_idx = shr64 reg_id (unat group_h) AND (shl64 1 (unat realm_h) - 1);
          group_id = shr64 reg_id (unat (group_h + realm_h)) AND (shl64 1 (unat (coord_h - group_h)) - 1);
          realm_rev = reverse_bits_in_limit realm_idx group_h;
          full_realm = shl64 group_id (unat group_h) OR realm_rev;
          half = realm_h div 2;
          u_low = user_idx AND (shl64 1 (unat half) - 1);
          u_high = shr64 user_idx (unat half) AND (shl64 1 (unat (realm_h - half)) - 1);
          u_high_rev = reverse_bits_in_limit u_high (realm_h - half);
          mod_user = shl64 u_low (unat (realm_h - half)) OR u_high_rev
      in shl64 full_realm (unat realm_h) OR mod_user)"

definition registration_id_s4 :: "u64 \<Rightarrow> u8 \<Rightarrow> u8 \<Rightarrow> u8 \<Rightarrow> u64" where
  "registration_id_s4 uid coord_h realm_h group_h =
     (let mod_user = uid AND (shl64 1 (unat realm_h) - 1);
          full_realm = shr64 uid (unat realm_h);
          half = realm_h div 2;
          u_high_rev = mod_user AND (shl64 1 (unat (realm_h - half)) - 1);
          u_low = shr64 mod_user (unat (realm_h - half));
          u_high = reverse_bits_in_limit u_high_rev (realm_h - half);
          user_idx = shl64 u_high (unat half) OR u_low;
          realm_rev = full_realm AND (shl64 1 (unat group_h) - 1);
          group_id = shr64 full_realm (unat group_h);
          realm_idx = reverse_bits_in_limit realm_rev group_h
      in (shl64 group_id (unat (group_h + realm_h)) OR shl64 user_idx (unat group_h)) OR realm_idx)"

definition circuit_s5 :: "('b list \<Rightarrow> 'f) \<Rightarrow> 'b list \<Rightarrow> u8 \<Rightarrow> u8 \<Rightarrow> u8 \<Rightarrow> 'f option" where
  "circuit_s5 bridge bits c realm_height group_height =
     (let g = unat group_height; r = unat realm_height in
      do { realm_index_bits \<leftarrow> slice 0 g bits;
           user_index_bits \<leftarrow> slice g (g + r) bits;
           group_id_bits \<leftarrow> slice_from (g + r) bits;
           Some (bridge (rev user_index_bits @ rev realm_index_bits @ group_id_bits)) })"

definition user_id_s5 :: "u64 \<Rightarrow> u8 \<Rightarrow> u8 \<Rightarrow> u8 \<Rightarrow> u64" where
  "user_id_s5 user_registration_id c r g =
     (let realm_index = user_registration_id AND (shl64 1 (unat g) - 1);
          user_index = shr64 user_registration_id (unat g) AND (shl64 1 (unat r) - 1);
          shift_amount_for_group = g + r;
          group_id_height = c - g;
          group_id = shr64 user_registration_id (unat shift_amount_for_group) AND
                       (shl64 1 (unat group_id_height) - 1);
          reversed_realm_index = reverse_bits_in_limit realm_index g;
          full_realm_id = shl64 group_id (unat g) OR reversed_realm_index;
          reversed_user_index = reverse_bits_in_limit user_index r
      in shl64 full_realm_id (unat r) OR reversed_user_index)"

definition registration_id_s5 :: "u64 \<Rightarrow> u8 \<Rightarrow> u8 \<Rightarrow> u8 \<Rightarrow> u64" where
  "registration_id_s5 user_id c r g =
     (let reversed_user_index = user_id AND (shl64 1 (unat r) - 1);
          full_realm_id = shr64 user_id (unat r);
          original_user_index = reverse_bits_in_limit reversed_user_index r;
          reversed_realm_index = full_realm_id AND (shl64 1 (unat g) - 1);
          group_id = shr64 full_realm_id (unat g);
          original_realm_index = reverse_bits_in_limit reversed_realm_index g;
          shift_for_user = g;
          shift_for_group = g + r
      in (shl64 group_id (unat shift_for_group) OR shl64 original_user_index (unat shift_for_user)) OR
         original_realm_index)"

section \<open>The public functions\<close>

definition get_user_id_from_user_registration_id :: "u64 \<Rightarrow> u8 \<Rightarrow> u8 \<Rightarrow> u8 \<Rightarrow> u64" where
  "get_user_id_from_user_registration_id = user_id_s5"


definition circuit_user_registration_tree_index_bits_to_user_id ::
  "('b list \<Rightarrow> 'f) \<Rightarrow> 'b list \<Rightarrow> u8 \<Rightarrow> u8 \<Rightarrow> u8 \<Rightarrow> 'f option" where
  "circuit_user_registration_tree_index_bits_to_user_id = circuit_s5"

section \<open>Words as bit vectors\<close>

declare shl64_small [simp del] shr64_small [simp del]

definition seg :: "nat \<Rightarrow> nat \<Rightarrow> u64 \<Rightarrow> bool list" where
  "seg a b x = map (bit x) [a..<b]"

definition fits :: "nat \<Rightarrow> u64 \<Rightarrow> bool" where
  "fits k x \<longleftrightarrow> (\<forall>i\<ge>k. \<not> bit x i)"

named_theorems seg_simps \<open>bit vectors of word operations\<close>

lemma length_seg [simp]: "length (seg a b x) = b - a"
  by (simp add: seg_def)

lemma fits_0 [simp]: "fits 0 x \<longleftrightarrow> x = 0"
  by (auto simp: fits_def intro: bit_word_eqI)

lemma fits_less: "k \<le> 64 \<Longrightarrow> fits k x \<longleftrightarrow> unat x < 2 ^ k"
proof -
  assume k: "k \<le> 64"
  have "fits k x \<longleftrightarrow> take_bit k x = x"
    unfolding fits_def bit_eq_iff[of "take_bit k x"] bit_take_bit_iff
    by (meson bit_imp_possible_bit not_le)
  also have "\<dots> \<longleftrightarrow> take_bit k (unat x) = unat x"
    by (metis unsigned_take_bit_eq word_unat_eq_iff)
  finally show ?thesis by (simp add: take_bit_nat_eq_self_iff)
qed

lemma fits_mono: "fits k x \<Longrightarrow> k \<le> n \<Longrightarrow> fits n x"
  by (auto simp: fits_def)

lemma seg_eqI:
  assumes "fits k x" "fits k y" "seg 0 k x = seg 0 k y"
  shows "x = y"
proof (rule bit_word_eqI)
  fix i
  have "bit x i \<longleftrightarrow> bit y i" if "i < k"
    using arg_cong[OF assms(3), of "\<lambda>xs. xs ! i"] that by (simp add: seg_def)
  moreover have "\<not> bit x i \<and> \<not> bit y i" if "\<not> i < k" using assms(1,2) that by (simp add: fits_def)
  ultimately show "bit x i \<longleftrightarrow> bit y i" by blast
qed

lemma seg_split: "a \<le> b \<Longrightarrow> b \<le> c \<Longrightarrow> seg a c x = seg a b x @ seg b c x"
  unfolding seg_def map_append[symmetric] by (metis upt_add_eq_append le_add_diff_inverse)

lemma seg_take_drop: "b \<le> k \<Longrightarrow> take (b - a) (drop a (seg 0 k x)) = seg a b x"
  by (cases "a \<le> b") (simp_all add: seg_def take_map drop_map take_upt)

lemma mask_u64: "n < 64 \<Longrightarrow> x AND (shl64 1 n - 1) = take_bit n x" for x :: u64
  by (simp add: shl64_small take_bit_eq_mask mask_eq_exp_minus_1 push_bit_eq_mult)

lemma fits_mask: "fits n (take_bit n x)"
  by (simp add: fits_def bit_take_bit_iff)

lemma seg_mask: "b \<le> n \<Longrightarrow> seg a b (take_bit n x) = seg a b x"
  by (simp add: seg_def bit_take_bit_iff)

lemma seg_shift: "n < 64 \<Longrightarrow> seg a b (shr64 x n) = seg (n + a) (n + b) x"
  by (rule nth_equalityI) (simp_all add: seg_def shr64_small bit_drop_bit_eq add.assoc)

lemma fits_shift: "n < 64 \<Longrightarrow> fits k x \<Longrightarrow> m + n = k \<Longrightarrow> fits m (shr64 x n)"
  by (simp add: fits_def shr64_small bit_drop_bit_eq)

lemma reverse_limit:
  assumes "fits (unat n) x" "unat n \<le> 64"
  shows "seg 0 (unat n) (reverse_bits_in_limit x n) = rev (seg 0 (unat n) x)"
    and "fits (unat n) (reverse_bits_in_limit x n)"
proof -
  have "unat (64 - ucast n :: u64) = 64 - unat n"
  proof -
    have "unat (ucast n :: u64) = unat n"
      by (simp add: unsigned_ucast_eq take_bit_nat_eq_self_iff less_le_trans[OF unsigned_less])
    thus ?thesis using assms(2) by (subst unat_sub) (simp_all add: word_le_nat_alt)
  qed
  hence r: "reverse_bits_in_limit x n = shr64 (word_reverse x) (64 - unat n)"
    by (simp add: reverse_bits_in_limit_def)
  have "bit (reverse_bits_in_limit x n) i \<longleftrightarrow> i < unat n \<and> bit x (unat n - Suc i)" for i
  proof (cases "unat n = 0")
    case True
    hence "x = 0" using assms(1) by simp
    moreover have "word_reverse (0 :: u64) = 0" by (rule bit_word_eqI) (simp add: bit_word_reverse_iff)
    ultimately show ?thesis by (simp add: reverse_bits_in_limit_def shr64_def)
  next
    case False
    hence "64 - unat n < 64" by simp
    hence "bit (reverse_bits_in_limit x n) i \<longleftrightarrow> 64 - unat n + i < 64 \<and> bit x (64 - Suc (64 - unat n + i))"
      by (simp add: r shr64_small bit_drop_bit_eq bit_word_reverse_iff)
    thus ?thesis using assms(2) by (auto simp: diff_diff_eq add.commute)
  qed
  note b = this
  show "seg 0 (unat n) (reverse_bits_in_limit x n) = rev (seg 0 (unat n) x)"
    by (rule nth_equalityI) (simp_all add: seg_def rev_nth b)
  show "fits (unat n) (reverse_bits_in_limit x n)" by (simp add: fits_def b)
qed

lemma join_bits:
  assumes "fits n lo" "fits m hi" "n + m \<le> 64"
  shows "seg 0 (n + m) (shl64 hi n OR lo) = seg 0 n lo @ seg 0 m hi"
    and "fits (n + m) (shl64 hi n OR lo)"
proof -
  have "bit (shl64 hi n) i \<longleftrightarrow> n \<le> i \<and> i < 64 \<and> bit hi (i - n)" for i
  proof (cases "n < 64")
    case True
    thus ?thesis by (auto simp: shl64_small bit_push_bit_iff)
  next
    case False
    hence "m = 0" using assms(3) by simp
    thus ?thesis using assms(2) by (simp add: shl64_def)
  qed
  hence b: "bit (shl64 hi n OR lo) i \<longleftrightarrow> n \<le> i \<and> i < 64 \<and> bit hi (i - n) \<or> bit lo i" for i
    by (simp add: bit_or_iff)
  show "fits (n + m) (shl64 hi n OR lo)"
    using assms(1,2) by (auto simp: fits_def b)
  show "seg 0 (n + m) (shl64 hi n OR lo) = seg 0 n lo @ seg 0 m hi"
  proof (rule nth_equalityI)
    fix i assume "i < length (seg 0 (n + m) (shl64 hi n OR lo))"
    thus "seg 0 (n + m) (shl64 hi n OR lo) ! i = (seg 0 n lo @ seg 0 m hi) ! i"
      using assms(1,3) by (cases "i < n") (auto simp: seg_def b nth_append fits_def)
  qed simp
qed

lemma le_sum_bit:
  assumes "length bits \<le> 64"
  shows "seg 0 (length bits) (le_sum_u64 bits) = bits" "fits (length bits) (le_sum_u64 bits)"
proof -
  have "bit (le_sum_u64 bits) i \<longleftrightarrow> i < length bits \<and> bits ! i" for i
    using assms
  proof (induction bits rule: rev_induct)
    case (snoc b bits)
    have "le_sum_u64 (bits @ [b]) = (if b then le_sum_u64 bits OR push_bit (length bits) 1 else le_sum_u64 bits)"
      using snoc.prems by (simp add: le_sum_u64_def enumerate_append_eq shl64_small)
    moreover have "bit (2 ^ n :: u64) i \<longleftrightarrow> i = n" if "n < 64" for n
      using that by (auto simp: bit_exp_iff)
    ultimately show ?case using snoc by (auto simp: bit_or_iff nth_append less_Suc_eq)
  qed (simp add: le_sum_u64_def)
  note b = this
  show "seg 0 (length bits) (le_sum_u64 bits) = bits" by (rule nth_equalityI) (simp_all add: seg_def b)
  show "fits (length bits) (le_sum_u64 bits)" by (simp add: fits_def b)
qed

section \<open>Representing words by bit vectors\<close>

definition rep :: "u64 \<Rightarrow> bool list \<Rightarrow> bool" where
  "rep x bs \<longleftrightarrow> fits (length bs) x \<and> seg 0 (length bs) x = bs"

lemma rep_unique: "rep x bs \<Longrightarrow> rep y bs \<Longrightarrow> x = y"
  unfolding rep_def using seg_eqI by metis

lemma rep_exists: "fits k x \<Longrightarrow> rep x (seg 0 k x)"
  by (simp add: rep_def)

lemma rep_le_sum: "length bs \<le> 64 \<Longrightarrow> rep (le_sum_u64 bs) bs"
  by (simp add: rep_def le_sum_bit)

lemma rep_Nil: "rep 0 []"
  by (simp add: rep_def seg_def)

lemma rep_join:
  assumes "rep lo as" "rep hi bs" "length as + length bs \<le> 64" "n = length as"
  shows "rep (shl64 hi n OR lo) (as @ bs)"
  using join_bits[of n lo "length bs" hi] assms by (simp add: rep_def)

lemma rep_rev:
  assumes "rep x bs" "unat n = length bs" "length bs \<le> 64"
  shows "rep (reverse_bits_in_limit x n) (rev bs)"
  using reverse_limit[of n x] assms by (simp add: rep_def)

lemma rep_mask:
  assumes "rep x bs" "n \<le> length bs" "n < 64"
  shows "rep (x AND (shl64 1 n - 1)) (take n bs)"
proof -
  have "seg 0 n x = take n bs" using assms(1,2) seg_take_drop[of n "length bs" 0 x] by (simp add: rep_def)
  thus ?thesis using assms(2,3) by (simp add: rep_def mask_u64 fits_mask seg_mask)
qed

lemma rep_shift:
  assumes "rep x bs" "n \<le> length bs" "n < 64"
  shows "rep (shr64 x n) (drop n bs)"
proof -
  have "seg n (length bs) x = drop n bs"
    using assms(1,2) seg_take_drop[of "length bs" "length bs" n x] by (simp add: rep_def)
  thus ?thesis using assms fits_shift[of n "length bs" x "length bs - n"]
    by (simp add: rep_def seg_shift)
qed

lemma rep_field:
  assumes "rep x bs" "n + m \<le> length bs" "m < 64" "n < 64 \<or> m = 0"
  shows "rep (shr64 x n AND (shl64 1 m - 1)) (take m (drop n bs))"
proof (cases "n < 64")
  case True
  thus ?thesis using assms by (intro rep_mask rep_shift) simp_all
next
  case False
  thus ?thesis using assms(4) by (simp add: shl64_def rep_Nil)
qed

section \<open>The contract of a strategy\<close>

definition height_sum :: "u8 \<Rightarrow> u8 \<Rightarrow> nat" where
  "height_sum c r = unat c + unat r"

text \<open>Heights of a tree with at most 64 levels, below 64 on each side, with a group height that
  does not exceed the coordinator's.\<close>

definition heights_ok :: "u8 \<Rightarrow> u8 \<Rightarrow> u8 \<Rightarrow> bool" where
  "heights_ok c r g \<longleftrightarrow> unat g \<le> unat c \<and> unat c < 64 \<and> unat r < 64 \<and> height_sum c r \<le> 64"

locale user_id_strategy =
  fixes ok :: "u8 \<Rightarrow> u8 \<Rightarrow> u8 \<Rightarrow> bool"
    and perm :: "bool list \<Rightarrow> u8 \<Rightarrow> u8 \<Rightarrow> u8 \<Rightarrow> bool list option"
    and unperm :: "bool list \<Rightarrow> u8 \<Rightarrow> u8 \<Rightarrow> u8 \<Rightarrow> bool list"
    and fwd :: "u64 \<Rightarrow> u8 \<Rightarrow> u8 \<Rightarrow> u8 \<Rightarrow> u64"
    and bwd :: "u64 \<Rightarrow> u8 \<Rightarrow> u8 \<Rightarrow> u8 \<Rightarrow> u64"
  assumes ok_height: "ok c r g \<Longrightarrow> height_sum c r \<le> 64"
    and perm_total: "ok c r g \<Longrightarrow> length bs = height_sum c r \<Longrightarrow>
      \<exists>bs'. perm bs c r g = Some bs' \<and> length bs' = length bs \<and> unperm bs' c r g = bs"
    and unperm_inv: "ok c r g \<Longrightarrow> length bs = height_sum c r \<Longrightarrow>
      length (unperm bs c r g) = length bs \<and> perm (unperm bs c r g) c r g = Some bs"
    and fwd_rep: "ok c r g \<Longrightarrow> length bs = height_sum c r \<Longrightarrow> rep x bs \<Longrightarrow> perm bs c r g = Some bs' \<Longrightarrow>
      rep (fwd x c r g) bs'"
    and bwd_rep: "ok c r g \<Longrightarrow> length bs = height_sum c r \<Longrightarrow> rep x bs \<Longrightarrow>
      rep (bwd x c r g) (unperm bs c r g)"
begin

lemma native_circuit:
  assumes "ok c r g" "length bs = height_sum c r"
  shows "map_option le_sum_u64 (perm bs c r g) = Some (fwd (le_sum_u64 bs) c r g)"
proof -
  obtain bs' where bs': "perm bs c r g = Some bs'" "length bs' = length bs"
    using perm_total[OF assms] by blast
  have "rep (fwd (le_sum_u64 bs) c r g) bs'"
    using fwd_rep[OF assms rep_le_sum bs'(1)] ok_height[OF assms(1)] assms(2) by simp
  moreover have "rep (le_sum_u64 bs') bs'" using rep_le_sum bs'(2) ok_height[OF assms(1)] assms(2) by simp
  ultimately show ?thesis using bs'(1) rep_unique by simp
qed

lemma roundtrip:
  assumes "ok c r g" "fits (height_sum c r) x"
  shows "fits (height_sum c r) (fwd x c r g) \<and> bwd (fwd x c r g) c r g = x"
proof -
  let ?bs = "seg 0 (height_sum c r) x"
  have l: "length ?bs = height_sum c r" by simp
  obtain bs' where bs': "perm ?bs c r g = Some bs'" "length bs' = length ?bs" "unperm bs' c r g = ?bs"
    using perm_total[OF assms(1) l] by blast
  have f: "rep (fwd x c r g) bs'" by (rule fwd_rep[OF assms(1) l rep_exists[OF assms(2)] bs'(1)])
  hence "rep (bwd (fwd x c r g) c r g) ?bs" using bwd_rep[OF assms(1), of bs'] bs'(2,3) l by simp
  thus ?thesis using f bs'(2) rep_unique[OF _ rep_exists[OF assms(2)]] by (simp add: rep_def)
qed

lemma roundtrip_back:
  assumes "ok c r g" "fits (height_sum c r) x"
  shows "fits (height_sum c r) (bwd x c r g) \<and> fwd (bwd x c r g) c r g = x"
proof -
  let ?bs = "seg 0 (height_sum c r) x"
  have l: "length ?bs = height_sum c r" by simp
  note u = unperm_inv[OF assms(1) l]
  have b: "rep (bwd x c r g) (unperm ?bs c r g)" by (rule bwd_rep[OF assms(1) l rep_exists[OF assms(2)]])
  have "rep (fwd (bwd x c r g) c r g) ?bs"
    using fwd_rep[OF assms(1) _ b conjunct2[OF u]] u l by simp
  thus ?thesis using b u rep_unique[OF _ rep_exists[OF assms(2)]] by (simp add: rep_def)
qed

lemma bijection:
  assumes "ok c r g"
  shows "bij_betw (\<lambda>x. fwd x c r g) {x. fits (height_sum c r) x} {x. fits (height_sum c r) x}"
  by (rule bij_betw_byWitness[where f' = "\<lambda>x. bwd x c r g"])
    (use roundtrip[OF assms] roundtrip_back[OF assms] in auto)

end

section \<open>The strategies keep the contract\<close>

lemma unat_u8_add: "unat a + unat b < 256 \<Longrightarrow> unat (a + b) = unat a + unat b" for a b :: u8
  by (simp add: unat_word_ariths)

lemma unat_u8_sub: "unat b \<le> unat a \<Longrightarrow> unat (a - b) = unat a - unat b" for a b :: u8
  by (simp add: unat_sub word_le_nat_alt)

definition same :: "bool list \<Rightarrow> u8 \<Rightarrow> u8 \<Rightarrow> u8 \<Rightarrow> bool list" where
  "same bs c r g = bs"

definition flip :: "bool list \<Rightarrow> u8 \<Rightarrow> u8 \<Rightarrow> u8 \<Rightarrow> bool list" where
  "flip bs c r g = rev bs"

definition unperm2 :: "bool list \<Rightarrow> u8 \<Rightarrow> u8 \<Rightarrow> u8 \<Rightarrow> bool list" where
  "unperm2 bs c r g = rev (drop (unat r) bs) @ take (unat r) bs"

definition perm3 :: "bool list \<Rightarrow> u8 \<Rightarrow> u8 \<Rightarrow> u8 \<Rightarrow> bool list" where
  "perm3 bs c r g = take 10 bs @ rev (drop 10 bs)"

interpretation s0: user_id_strategy heights_ok "circuit_s0 (\<lambda>bs. bs)" same user_id_s0 registration_id_s0
  by unfold_locales (simp_all add: heights_ok_def circuit_s0_def user_id_s0_def registration_id_s0_def same_def)

lemma s1_rep:
  assumes "heights_ok c r g" "length bs = height_sum c r" "rep x bs"
  shows "rep (reverse_bits_in_limit x (c + r)) (rev bs)"
  using assms by (intro rep_rev) (auto simp: heights_ok_def height_sum_def unat_u8_add)

interpretation s1: user_id_strategy heights_ok "circuit_s1 (\<lambda>bs. bs)" flip user_id_s1 registration_id_s1
proof (unfold_locales, goal_cases)
  case (4 c r g bs x bs')
  thus ?case using s1_rep by (auto simp: circuit_s1_def user_id_s1_def)
next
  case (5 c r g bs x)
  thus ?case using s1_rep by (auto simp: registration_id_s1_def flip_def)
qed (simp_all add: heights_ok_def circuit_s1_def flip_def)

interpretation s2: user_id_strategy heights_ok "circuit_s2 (\<lambda>bs. bs)" unperm2 user_id_s2 registration_id_s2
proof (unfold_locales, goal_cases)
  case (4 c r g bs x bs')
  hence h: "unat c < 64" "length bs = unat c + unat r" "length bs \<le> 64"
    by (auto simp: heights_ok_def height_sum_def)
  have "bs' = drop (unat c) bs @ rev (take (unat c) bs)"
    using 4(4) h(2) by (simp add: circuit_s2_def slice_def slice_from_def)
  moreover have "rep (user_id_s2 x c r g) (drop (unat c) bs @ rev (take (unat c) bs))"
    unfolding user_id_s2_def Let_def using h 4(3) by (intro rep_join rep_rev rep_mask rep_shift) simp_all
  ultimately show ?case by simp
next
  case (5 c r g bs x)
  hence h: "unat r < 64" "length bs = unat c + unat r" "length bs \<le> 64"
    by (auto simp: heights_ok_def height_sum_def)
  thus ?case unfolding registration_id_s2_def Let_def unperm2_def
    using 5(3) by (intro rep_join rep_rev rep_mask rep_shift) simp_all
qed (auto simp: heights_ok_def height_sum_def circuit_s2_def slice_def slice_from_def unperm2_def)

definition heights_ok3 :: "u8 \<Rightarrow> u8 \<Rightarrow> u8 \<Rightarrow> bool" where
  "heights_ok3 c r g \<longleftrightarrow> heights_ok c r g \<and> 10 \<le> height_sum c r"

lemma s3_rep:
  assumes "heights_ok3 c r g" "length bs = height_sum c r" "rep x bs"
  shows "rep (user_id_s3 x c r g) (perm3 bs c r g)" "rep (registration_id_s3 x c r g) (perm3 bs c r g)"
proof -
  have h: "length bs \<le> 64" "10 \<le> length bs" "length bs = unat c + unat r"
    using assms by (auto simp: heights_ok3_def heights_ok_def height_sum_def)
  have "unat (c + r) = length bs" using h by (simp add: unat_u8_add)
  hence u: "unat (c + r - 10) = length bs - 10" using h by (subst unat_u8_sub) simp_all
  have "x AND 0x3FF = x AND (shl64 1 10 - 1)" by (simp add: shl64_def)
  hence "rep (shl64 (reverse_bits_in_limit (shr64 x 10) (c + r - 10)) 10 OR (x AND 0x3FF)) (perm3 bs c r g)"
    unfolding perm3_def using h u assms(3)
    by (simp only:) (intro rep_join rep_rev rep_mask rep_shift; simp)
  thus "rep (user_id_s3 x c r g) (perm3 bs c r g)" "rep (registration_id_s3 x c r g) (perm3 bs c r g)"
    by (simp_all add: user_id_s3_def registration_id_s3_def Let_def)
qed

interpretation s3: user_id_strategy heights_ok3 "circuit_s3 (\<lambda>bs. bs)" perm3 user_id_s3 registration_id_s3
proof (unfold_locales, goal_cases)
  case (4 c r g bs x bs')
  hence "bs' = perm3 bs c r g"
    by (auto simp: heights_ok3_def circuit_s3_def slice_def slice_from_def perm3_def)
  thus ?case using s3_rep(1)[OF 4(1-3)] by simp
next
  case (5 c r g bs x)
  thus ?case by (rule s3_rep(2))
qed (auto simp: heights_ok3_def heights_ok_def height_sum_def circuit_s3_def slice_def slice_from_def perm3_def)

definition unperm4 :: "bool list \<Rightarrow> u8 \<Rightarrow> u8 \<Rightarrow> u8 \<Rightarrow> bool list" where
  "unperm4 bs c rh gh =
     (let r = unat rh; g = unat gh; k = r - r div 2; user = take r bs; full = drop r bs
      in rev (take g full) @ (drop k user @ rev (take k user)) @ drop g full)"

definition unperm5 :: "bool list \<Rightarrow> u8 \<Rightarrow> u8 \<Rightarrow> u8 \<Rightarrow> bool list" where
  "unperm5 bs c rh gh =
     (let r = unat rh; g = unat gh; full = drop r bs
      in rev (take g full) @ rev (take r bs) @ drop g full)"

lemma s45_heights:
  assumes "heights_ok c r g" "length bs = height_sum c r"
  shows "unat g < 64" "unat r < 64" "unat c - unat g < 64" "unat (g + r) = unat g + unat r"
    "unat (c - g) = unat c - unat g" "length bs = unat c + unat r" "length bs \<le> 64" "unat g \<le> unat c"
    "unat (r div 2) = unat r div 2" "unat (r - r div 2) = unat r - unat r div 2"
proof -
  show "unat (r div 2) = unat r div 2" by (simp add: unat_div)
  thus "unat (r - r div 2) = unat r - unat r div 2" by (subst unat_u8_sub) simp_all
qed (use assms in \<open>auto simp: heights_ok_def height_sum_def unat_u8_add unat_u8_sub\<close>)

lemma s45_group:
  assumes "heights_ok c r g" "length bs = height_sum c r" "rep x bs"
  shows "rep (shr64 x (unat (g + r)) AND (shl64 1 (unat (c - g)) - 1)) (drop (unat g + unat r) bs)"
proof -
  note h = s45_heights[OF assms(1,2)]
  have "rep (shr64 x (unat (g + r)) AND (shl64 1 (unat (c - g)) - 1))
      (take (unat (c - g)) (drop (unat (g + r)) bs))"
    using h assms(3) by (intro rep_field) auto
  thus ?thesis using h by simp
qed

lemma split3:
  assumes "m + n \<le> length bs"
  obtains a b d where "bs = a @ b @ d" "length a = m" "length b = n"
proof
  show "bs = take m bs @ take n (drop m bs) @ drop n (drop m bs)" by (metis append_take_drop_id)
qed (use assms in auto)

interpretation s5: user_id_strategy heights_ok "circuit_s5 (\<lambda>bs. bs)" unperm5 user_id_s5 registration_id_s5
proof (unfold_locales, goal_cases)
  case (1 c r g)
  thus ?case by (simp add: heights_ok_def)
next
  case (2 c r g bs)
  note h = s45_heights[OF 2]
  obtain a b d where "bs = a @ b @ d" "length a = unat g" "length b = unat r"
    by (rule split3[of "unat g" "unat r" bs]) (use h in auto)
  thus ?case by (simp add: circuit_s5_def slice_def slice_from_def unperm5_def Let_def)
next
  case (3 c r g bs)
  note h = s45_heights[OF 3]
  obtain a b d where "bs = a @ b @ d" "length a = unat r" "length b = unat g"
    by (rule split3[of "unat r" "unat g" bs]) (use h in auto)
  thus ?case by (simp add: circuit_s5_def slice_def slice_from_def unperm5_def Let_def)
next
  case (4 c r g bs x bs')
  note h = s45_heights[OF 4(1,2)]
  have "bs' = rev (take (unat r) (drop (unat g) bs)) @ rev (take (unat g) bs) @ drop (unat g + unat r) bs"
    using 4(4) h by (simp add: circuit_s5_def slice_def slice_from_def Let_def)
  moreover have "rep (user_id_s5 x c r g)
      (rev (take (unat r) (drop (unat g) bs)) @ (rev (take (unat g) bs) @ drop (unat g + unat r) bs))"
    unfolding user_id_s5_def Let_def using h 4(3)
    by (intro rep_join rep_rev rep_field rep_mask s45_group[OF 4(1-3)]) auto
  ultimately show ?case by simp
next
  case (5 c r g bs x)
  note h = s45_heights[OF 5(1,2)]
  have "rep (registration_id_s5 x c r g)
      ((rev (take (unat g) (drop (unat r) bs)) @ rev (take (unat r) bs)) @ drop (unat g) (drop (unat r) bs))"
    unfolding registration_id_s5_def Let_def or.assoc using h 5(3)
    by (intro rep_join rep_rev rep_field rep_mask rep_shift) auto
  thus ?case by (simp add: unperm5_def Let_def)
qed

interpretation s4: user_id_strategy heights_ok "circuit_s4 (\<lambda>bs. bs)" unperm4 user_id_s4 registration_id_s4
proof (unfold_locales, goal_cases)
  case (1 c r g)
  thus ?case by (simp add: heights_ok_def)
next
  case (2 c r g bs)
  note h = s45_heights[OF 2]
  obtain a b d where bs: "bs = a @ b @ d" "length a = unat g" "length b = unat r"
    by (rule split3[of "unat g" "unat r" bs]) (use h in auto)
  obtain lo hi where "b = lo @ hi" "length lo = unat r div 2" "length hi = unat r - unat r div 2"
    using bs(3) append_take_drop_id[of "unat r div 2" b]
    by (metis length_drop length_take min.absorb2 div_le_dividend)
  thus ?case using bs by (simp add: circuit_s4_def slice_def slice_from_def unperm4_def Let_def)
next
  case (3 c r g bs)
  note h = s45_heights[OF 3]
  obtain a b d where bs: "bs = a @ b @ d" "length a = unat r" "length b = unat g"
    by (rule split3[of "unat r" "unat g" bs]) (use h in auto)
  obtain hi lo where "a = hi @ lo" "length hi = unat r - unat r div 2" "length lo = unat r div 2"
  proof
    show "a = take (unat r - unat r div 2) a @ drop (unat r - unat r div 2) a" by simp
  qed (use bs(2) in auto)
  thus ?case using bs by (simp add: circuit_s4_def slice_def slice_from_def unperm4_def Let_def)
next
  case (4 c r g bs x bs')
  note h = s45_heights[OF 4(1,2)]
  let ?u = "take (unat r) (drop (unat g) bs)" and ?half = "unat r div 2"
  have "bs' = (rev (drop ?half ?u) @ take ?half ?u) @ rev (take (unat g) bs) @ drop (unat g + unat r) bs"
    using 4(4) h by (simp add: circuit_s4_def slice_def slice_from_def Let_def split: if_splits)
  moreover have u: "rep (shr64 x (unat g) AND (shl64 1 (unat r) - 1)) ?u"
    using h 4(3) by (intro rep_field) auto
  have "rep (shr64 (shr64 x (unat g) AND (shl64 1 (unat r) - 1)) ?half AND (shl64 1 (unat r - ?half) - 1))
      (take (unat r - ?half) (drop ?half ?u))"
    using h by (intro rep_field u) auto
  moreover have "take (unat r - ?half) (drop ?half ?u) = drop ?half ?u" using h by simp
  moreover have "rep (user_id_s4 x c r g)
      ((rev (take (unat r - ?half) (drop ?half ?u)) @ take ?half ?u) @ (rev (take (unat g) bs) @ drop (unat g + unat r) bs))"
    unfolding user_id_s4_def Let_def h(9,10) using h 4(3)
    by (intro rep_join rep_rev rep_mask rep_field u s45_group[OF 4(1-3)]) auto
  ultimately show ?case by simp
next
  case (5 c r g bs x)
  note h = s45_heights[OF 5(1,2)]
  have u: "rep (x AND (shl64 1 (unat r) - 1)) (take (unat r) bs)" using h 5(3) by (intro rep_mask) auto
  have "rep (registration_id_s4 x c r g)
      ((rev (take (unat g) (drop (unat r) bs)) @
        (drop (unat r - unat r div 2) (take (unat r) bs) @ rev (take (unat r - unat r div 2) (take (unat r) bs)))) @
       drop (unat g) (drop (unat r) bs))"
    unfolding registration_id_s4_def Let_def h(9,10) or.assoc using h 5(3)
    by (intro rep_join rep_rev rep_mask rep_shift u) auto
  thus ?case by (simp add: unperm4_def Let_def)
qed

declare shl64_small [simp] shr64_small [simp]

section \<open>Properties\<close>

lemma circuit_bridge:
  "circuit_s0 f bs c r g = map_option f (circuit_s0 (\<lambda>bs. bs) bs c r g)"
  "circuit_s1 f bs c r g = map_option f (circuit_s1 (\<lambda>bs. bs) bs c r g)"
  "circuit_s2 f bs c r g = map_option f (circuit_s2 (\<lambda>bs. bs) bs c r g)"
  "circuit_s3 f bs c r g = map_option f (circuit_s3 (\<lambda>bs. bs) bs c r g)"
  "circuit_s4 f bs c r g = map_option f (circuit_s4 (\<lambda>bs. bs) bs c r g)"
  "circuit_s5 f bs c r g = map_option f (circuit_s5 (\<lambda>bs. bs) bs c r g)"
  by (simp_all add: circuit_s0_def circuit_s1_def circuit_s2_def circuit_s3_def circuit_s4_def circuit_s5_def
      slice_def slice_from_def Let_def)

text \<open>
  C31. The circuits and the node compute the same user id. For admissible heights and the bits of
  any registration id the bit-vector form never panics, and with the native bridge it equals the
  optimised arithmetic on \<open>u64\<close>, for every one of the six strategies (the fixed-split strategy for
  trees of at least 10 levels) and so for the exported default.
\<close>

theorem user_id_native_matches_circuit:
  assumes "heights_ok c r g" "length bs = height_sum c r"
  shows "circuit_user_registration_tree_index_bits_to_user_id le_sum_u64 bs c r g =
      Some (get_user_id_from_user_registration_id (le_sum_u64 bs) c r g) \<and>
    circuit_s0 le_sum_u64 bs c r g = Some (user_id_s0 (le_sum_u64 bs) c r g) \<and>
    circuit_s1 le_sum_u64 bs c r g = Some (user_id_s1 (le_sum_u64 bs) c r g) \<and>
    circuit_s2 le_sum_u64 bs c r g = Some (user_id_s2 (le_sum_u64 bs) c r g) \<and>
    (10 \<le> height_sum c r \<longrightarrow> circuit_s3 le_sum_u64 bs c r g = Some (user_id_s3 (le_sum_u64 bs) c r g)) \<and>
    circuit_s4 le_sum_u64 bs c r g = Some (user_id_s4 (le_sum_u64 bs) c r g)"
  using s0.native_circuit[OF assms] s1.native_circuit[OF assms] s2.native_circuit[OF assms]
    s4.native_circuit[OF assms] s5.native_circuit[OF assms] s3.native_circuit[OF _ assms(2)] assms(1)
  by (simp add: circuit_bridge[of le_sum_u64] circuit_user_registration_tree_index_bits_to_user_id_def
      get_user_id_from_user_registration_id_def heights_ok3_def)

theorem user_id_native_matches_circuit_witness:
  "circuit_user_registration_tree_index_bits_to_user_id le_sum_u64 [True, True, False, True] 3 1 2 =
     Some (get_user_id_from_user_registration_id (le_sum_u64 [True, True, False, True]) 3 1 2)"
  using user_id_native_matches_circuit[of 3 1 2 "[True, True, False, True]"]
  by (simp add: heights_ok_def height_sum_def)



lemma realm_bits:
  assumes "heights_ok c r g" "length bs = height_sum c r" "rep x bs"
  shows "rep (shr64 (user_id_s5 x c r g) (unat r) AND (shl64 1 (unat g) - 1)) (rev (take (unat g) bs))"
proof -
  note h = s45_heights[OF assms(1,2)]
  let ?out = "rev (take (unat r) (drop (unat g) bs)) @ rev (take (unat g) bs) @ drop (unat g + unat r) bs"
  have "circuit_s5 (\<lambda>bs. bs) bs c r g = Some ?out"
    using h by (simp add: circuit_s5_def slice_def slice_from_def Let_def)
  hence "rep (user_id_s5 x c r g) ?out" by (rule s5.fwd_rep[OF assms])
  from rep_field[OF this, of "unat r" "unat g"] h show ?thesis by simp
qed

text \<open>
  Round robin over the realms: with group height \<open>g\<close>, two different registration ids less than
  \<open>2 ^ g\<close> apart are placed in different realms (the realm is the user id without its lowest \<open>r\<close>
  bits), so every \<open>2 ^ g\<close> consecutive registrations use \<open>2 ^ g\<close> realms.
\<close>

lemma user_id_round_robin:
  assumes "heights_ok c r g" "unat x < unat y" "unat y < unat x + 2 ^ unat g" "unat y < 2 ^ height_sum c r"
  shows "shr64 (get_user_id_from_user_registration_id x c r g) (unat r) \<noteq>
    shr64 (get_user_id_from_user_registration_id y c r g) (unat r)"
proof
  assume same: "shr64 (get_user_id_from_user_registration_id x c r g) (unat r) =
    shr64 (get_user_id_from_user_registration_id y c r g) (unat r)"
  have h: "height_sum c r \<le> 64" "unat g \<le> height_sum c r" "unat g \<le> 64"
    using assms(1) by (auto simp: heights_ok_def height_sum_def)
  have f: "fits (height_sum c r) x" "fits (height_sum c r) y" using fits_less[OF h(1)] assms(2,4) by auto
  let ?bx = "seg 0 (height_sum c r) x" and ?by = "seg 0 (height_sum c r) y"
  have l: "length ?bx = height_sum c r" "length ?by = height_sum c r" by simp_all
  have "rev (take (unat g) ?bx) = rev (take (unat g) ?by)"
    using realm_bits[OF assms(1) l(1) rep_exists[OF f(1)]] realm_bits[OF assms(1) l(2) rep_exists[OF f(2)]] same h(2)
    by (simp add: get_user_id_from_user_registration_id_def rep_def)
  hence "seg 0 (unat g) x = seg 0 (unat g) y" using seg_take_drop[OF h(2), of 0] by simp
  hence "take_bit (unat g) x = take_bit (unat g) y"
    by (intro seg_eqI[OF fits_mask fits_mask]) (simp add: seg_mask)
  hence "take_bit (unat g) (unat x) = take_bit (unat g) (unat y)" by (metis unsigned_take_bit_eq)
  hence "unat x mod 2 ^ unat g = unat y mod 2 ^ unat g" by (simp add: take_bit_eq_mod)
  hence "2 ^ unat g dvd unat y - unat x" using assms(2)
    by (metis less_imp_le mod_eq_dvd_iff_nat)
  moreover have "0 < unat y - unat x" "unat y - unat x < 2 ^ unat g" using assms(2,3) by auto
  ultimately show False using nat_dvd_not_less by blast
qed

lemma user_id_round_robin_witness:
  "shr64 (get_user_id_from_user_registration_id 4 3 1 2) 1 \<noteq>
   shr64 (get_user_id_from_user_registration_id 7 3 1 2) 1"
  using user_id_round_robin[of 3 1 2 4 7] by (simp add: heights_ok_def height_sum_def)

end
