(* ===== verification/Realm_Rotation.thy ===== *)
theory Realm_Rotation
  imports Psy_Prelude
begin

unbundle bit_operations_syntax

text \<open>
  The proposer schedule of \<open>src/parth_common/src/realm_rotation.rs\<close>: a swap-or-not shuffle with 90
  rounds, seeded per realm and epoch, that picks the validator allowed to propose. The Poseidon hash
  of a list of field elements to four field elements is the parameter \<open>q_hash_many\<close>, over which
  every statement is universally quantified; elements are their canonical 64-bit values (every value
  the schedule converts to a field element is below the field order).
\<close>

section \<open>The schedule\<close>








text \<open>A division by zero panics.\<close>

definition epoch :: "u64 \<Rightarrow> u64 \<Rightarrow> u64 option" where
  "epoch checkpoint_id per_epoch = (if per_epoch = 0 then None else Some (checkpoint_id div per_epoch))"

definition anchor_checkpoint_id :: "u64 \<Rightarrow> u64 \<Rightarrow> u64" where
  "anchor_checkpoint_id ep per_epoch =
     (let first = ep * per_epoch in if first = 0 then 0 else first - 1)"








section \<open>Every round is an involution\<close>

lemma flip_lt: "0 < n \<Longrightarrow> (p + n - i) mod n < (n :: nat)"
  by simp







lemma last_of_previous: "0 < e \<Longrightarrow> 0 < p \<Longrightarrow> (e * p - 1) div p = e - (1 :: nat)"
proof -
  assume "0 < e" "0 < p"
  then obtain d where "e = Suc d" by (cases e) auto
  hence "e * p - 1 = (p - 1) + d * p" using \<open>0 < p\<close> by simp
  thus ?thesis using \<open>0 < p\<close> \<open>e = Suc d\<close> by (simp only: div_mult_self1) simp
qed

section \<open>Properties\<close>



text \<open>
  The schedule of an epoch is anchored before the epoch begins: for a target checkpoint beyond
  the first epoch the anchor is the last checkpoint of the previous epoch, and in the first epoch it
  is checkpoint 0; the computation does not wrap around for any 64-bit checkpoint.
\<close>

lemma anchor_precedes_epoch:
  assumes "0 < per_epoch" "epoch T per_epoch = Some ep"
  shows "if ep = 0 then anchor_checkpoint_id ep per_epoch = 0
    else anchor_checkpoint_id ep per_epoch < T \<and>
      epoch (anchor_checkpoint_id ep per_epoch) per_epoch = Some (ep - 1) \<and>
      unat (anchor_checkpoint_id ep per_epoch) + 1 = unat ep * unat per_epoch"
proof -
  have ep: "unat ep = unat T div unat per_epoch"
    using assms by (auto simp: epoch_def unat_div split: if_splits)
  have p: "0 < unat per_epoch" using assms(1) by (simp add: word_less_nat_alt)
  have le: "unat ep * unat per_epoch \<le> unat T" unfolding ep by simp
  hence m: "unat (ep * per_epoch) = unat ep * unat per_epoch"
    using le_less_trans[OF le unsigned_less[of T]] by (simp add: unat_word_ariths)
  show ?thesis
  proof (cases "ep = 0")
    case False
    hence e: "0 < unat ep" by (simp add: unat_gt_0)
    hence nz: "ep * per_epoch \<noteq> 0" using m p by (metis mult_is_0 unsigned_0 less_irrefl)
    have a: "unat (anchor_checkpoint_id ep per_epoch) = unat ep * unat per_epoch - 1"
      using nz m by (simp add: anchor_checkpoint_id_def Let_def unat_minus_one)
    have "(unat ep * unat per_epoch - 1) div unat per_epoch = unat ep - 1"
      using e p by (rule last_of_previous)
    hence "unat (anchor_checkpoint_id ep per_epoch div per_epoch) = unat (ep - 1)"
      using False by (simp add: unat_div a unat_minus_one)
    hence "epoch (anchor_checkpoint_id ep per_epoch) per_epoch = Some (ep - 1)"
      using p by (auto simp: epoch_def word_unat_eq_iff)
    moreover have pos: "0 < unat ep * unat per_epoch" using e p by simp
    moreover have "anchor_checkpoint_id ep per_epoch < T"
      unfolding word_less_nat_alt a using pos le by linarith
    ultimately show ?thesis using False a by simp
  qed (simp add: anchor_checkpoint_id_def)
qed

lemma anchor_precedes_epoch_witness:
  "anchor_checkpoint_id 2 10 < 25 \<and> epoch (anchor_checkpoint_id 2 10) 10 = Some 1"
  using anchor_precedes_epoch[of 10 25 2] by (simp add: epoch_def)

end
