(* ===== verification/Tree_Planner.thy ===== *)
theory Tree_Planner
  imports Psy_Prelude "HOL-Library.Multiset"
begin

text \<open>
  The binary aggregation planner of \<open>src/psy_data/src/tree_planner/mod.rs\<close>: the positions of a
  binary tree and the levels of aggregation jobs that reduce \<open>n\<close> leaves to one. A leaf left over on
  a level of odd size is carried to the next level under its own position.
\<close>

section \<open>Positions and jobs\<close>

record tree_position =
  tp_level :: u64
  tp_index :: u64

definition new_position :: "u64 \<Rightarrow> u64 \<Rightarrow> tree_position" where
  "new_position l i = \<lparr>tp_level = l, tp_index = i\<rparr>"

definition is_leaf :: "tree_position \<Rightarrow> bool" where
  "is_leaf p \<longleftrightarrow> tp_level p = 0"

definition get_left_child :: "tree_position \<Rightarrow> tree_position" where
  "get_left_child p = new_position (tp_level p - 1) (tp_index p * 2)"

definition get_right_child :: "tree_position \<Rightarrow> tree_position" where
  "get_right_child p = new_position (tp_level p - 1) (tp_index p * 2 + 1)"

definition get_parent :: "tree_position \<Rightarrow> tree_position" where
  "get_parent p = new_position (tp_level p + 1) (shr64 (tp_index p) 1)"

definition get_span :: "tree_position \<Rightarrow> u64" where
  "get_span p = shl64 1 (unat (tp_level p))"

definition is_null :: "tree_position \<Rightarrow> bool" where
  "is_null p \<longleftrightarrow> tp_level p = 0xffff"

definition new_null :: tree_position where
  "new_null = \<lparr>tp_level = 0xffff, tp_index = 0\<rparr>"

record binary_tree_job =
  position :: tree_position
  left_job :: tree_position
  right_job :: tree_position

definition gen_leaves_binary_tree_planner :: "nat \<Rightarrow> binary_tree_job list" where
  "gen_leaves_binary_tree_planner n =
     map (\<lambda>i. \<lparr>position = new_position 0 (of_nat i), left_job = new_null, right_job = new_null\<rparr>) [0..<n]"

section \<open>The planner\<close>

definition next_level :: "u64 \<Rightarrow> binary_tree_job list \<Rightarrow> binary_tree_job list" where
  "next_level level_index cur =
     map (\<lambda>i. \<lparr>position = new_position level_index (of_nat i),
               left_job = position (cur ! (i * 2)),
               right_job = position (cur ! (i * 2 + 1))\<rparr>) [0..<length cur div 2]"

definition leftover :: "binary_tree_job list \<Rightarrow> binary_tree_job list" where
  "leftover cur = (if length cur mod 2 = 1 then [cur ! (length cur - 1)] else [])"

lemma length_round [simp]: "length (next_level l cur @ leftover cur) = length cur div 2 + length cur mod 2"
  by (auto simp: next_level_def leftover_def)

text \<open>The \<open>while\<close> loop: it stops because \<open>current\<close> shrinks while it has two elements.\<close>

function planner_levels :: "u64 \<Rightarrow> binary_tree_job list \<Rightarrow> binary_tree_job list list" where
  "planner_levels level_index cur =
     (if length cur > 1
      then next_level level_index cur #
           planner_levels (level_index + 1) (next_level level_index cur @ leftover cur)
      else [])"
  by pat_completeness auto
termination
  by (relation "measure (length \<circ> snd)") (simp_all only: comp_def snd_conv in_measure length_round wf_measure, presburger)

declare planner_levels.simps [simp del]

record binary_tree_planner =
  levels :: "binary_tree_job list list"
  num_leaves :: nat

definition new_planner :: "nat \<Rightarrow> binary_tree_planner" where
  "new_planner n = \<lparr>levels = planner_levels 1 (gen_leaves_binary_tree_planner n), num_leaves = n\<rparr>"

section \<open>Each round consumes its input\<close>

definition job_inputs :: "binary_tree_job \<Rightarrow> tree_position list" where
  "job_inputs j = [left_job j, right_job j]"

definition all_inputs :: "binary_tree_job list \<Rightarrow> tree_position multiset" where
  "all_inputs js = mset (concat (map job_inputs js))"

definition all_positions :: "binary_tree_job list \<Rightarrow> tree_position multiset" where
  "all_positions js = mset (map position js)"

lemma all_positions_simps [simp]:
  "all_positions [] = {#}" "all_positions (j # js) = add_mset (position j) (all_positions js)"
  "all_positions (js @ ks) = all_positions js + all_positions ks"
  by (simp_all add: all_positions_def)

lemma all_inputs_simps [simp]:
  "all_inputs [] = {#}" "all_inputs (js @ ks) = all_inputs js + all_inputs ks"
  by (simp_all add: all_inputs_def)

lemma pairs_cover:
  "concat (map (\<lambda>i. [xs ! (i * 2), xs ! (i * 2 + 1)]) [0..<length xs div 2]) @
   (if length xs mod 2 = 1 then [xs ! (length xs - 1)] else []) = xs"
proof (induction xs rule: induct_list012)
  case (3 x y zs)
  have u: "[0..<length (x # y # zs) div 2] = 0 # map Suc [0..<length zs div 2]"
    by (simp add: map_Suc_upt upt_conv_Cons del: upt_Suc)
  show ?case using "3.IH"(1) unfolding u
    by (cases zs) (auto simp: comp_def nth_Cons' split: if_splits)
qed simp_all

lemma round_consumes: "all_inputs (next_level l cur) + all_positions (leftover cur) = all_positions cur"
proof -
  have "all_inputs (next_level l cur) = mset (map position
      (concat (map (\<lambda>i. [cur ! (i * 2), cur ! (i * 2 + 1)]) [0..<length cur div 2])))"
    by (simp add: all_inputs_def next_level_def job_inputs_def map_concat comp_def)
  moreover have "all_positions (leftover cur) =
      mset (map position (if length cur mod 2 = 1 then [cur ! (length cur - 1)] else []))"
    by (simp add: all_positions_def leftover_def)
  ultimately have "all_inputs (next_level l cur) + all_positions (leftover cur) = mset (map position
      (concat (map (\<lambda>i. [cur ! (i * 2), cur ! (i * 2 + 1)]) [0..<length cur div 2]) @
       (if length cur mod 2 = 1 then [cur ! (length cur - 1)] else [])))"
    by (simp only: map_append mset_append)
  thus ?thesis by (simp only: pairs_cover all_positions_def)
qed

section \<open>The whole plan\<close>

definition plan_jobs :: "binary_tree_job list list \<Rightarrow> binary_tree_job list" where
  "plan_jobs lvls = concat lvls"

lemma plan_jobs_simps [simp]: "plan_jobs [] = []" "plan_jobs (l # ls) = l @ plan_jobs ls"
  by (simp_all add: plan_jobs_def)

lemma planner_stop [simp]: "length cur \<le> 1 \<Longrightarrow> planner_levels l cur = []"
  by (simp add: planner_levels.simps)

lemma planner_round [simp]:
  "1 < length cur \<Longrightarrow> planner_levels l cur =
     next_level l cur # planner_levels (l + 1) (next_level l cur @ leftover cur)"
  by (subst planner_levels.simps) simp

lemma planner_count: "cur \<noteq> [] \<Longrightarrow> length (plan_jobs (planner_levels l cur)) = length cur - 1"
proof (induction l cur rule: planner_levels.induct)
  case (1 l cur)
  show ?case
  proof (cases "1 < length cur")
    case True
    hence "0 < length cur div 2 + length cur mod 2" by presburger
    hence n: "next_level l cur @ leftover cur \<noteq> []" unfolding length_round[of l cur, symmetric] by blast
    have "length (next_level l cur) = length cur div 2" by (simp add: next_level_def)
    thus ?thesis using "1.IH"[OF True n] True length_round[of l cur] by simp presburger
  next
    case False
    thus ?thesis using "1.prems" by (cases cur) auto
  qed
qed

lemma planner_consumes:
  "1 < length cur \<Longrightarrow> plan_jobs (planner_levels l cur) = js \<Longrightarrow>
   js \<noteq> [] \<and> add_mset (position (last js)) (all_inputs js) = all_positions cur + all_positions js"
proof (induction l cur arbitrary: js rule: planner_levels.induct)
  case (1 l cur)
  let ?nl = "next_level l cur" and ?lo = "leftover cur"
  define js' where "js' = plan_jobs (planner_levels (l + 1) (?nl @ ?lo))"
  have js: "js = ?nl @ js'" using "1.prems" by (simp add: js'_def)
  have c: "all_inputs ?nl + all_positions ?lo = all_positions cur" by (rule round_consumes)
  show ?case
  proof (cases "1 < length (?nl @ ?lo)")
    case True
    from "1.IH"[OF "1.prems"(1) True js'_def[symmetric]]
    have "js' \<noteq> []" and
      ih: "add_mset (position (last js')) (all_inputs js') = all_positions ?nl + all_positions ?lo + all_positions js'"
      by simp_all
    have "add_mset (position (last js)) (all_inputs js) =
        all_inputs ?nl + add_mset (position (last js')) (all_inputs js')"
      using \<open>js' \<noteq> []\<close> by (simp add: js)
    also have "\<dots> = (all_inputs ?nl + all_positions ?lo) + (all_positions ?nl + all_positions js')"
      unfolding ih by (simp add: ac_simps)
    finally show ?thesis using \<open>js' \<noteq> []\<close> by (simp add: c js)
  next
    case False
    hence "length cur = 2" using "1.prems"(1) length_round[of l cur] by presburger
    hence lo: "?lo = []" and nl: "length ?nl = 1" by (simp_all add: leftover_def next_level_def)
    have "js' = []" unfolding js'_def using False by simp
    moreover obtain j where "?nl = [j]" using nl by (auto simp: length_Suc_conv)
    ultimately show ?thesis using c lo by (simp add: js)
  qed
qed

lemma next_level_positions:
  "map position (next_level l cur) = map (\<lambda>i. new_position l (of_nat i)) [0..<length cur div 2]"
  by (simp add: next_level_def)

lemma distinct_row: "n \<le> 2 ^ 64 \<Longrightarrow> distinct (map (\<lambda>i. new_position l (of_nat i)) [0..<n])"
  unfolding distinct_map by (auto simp: new_position_def of_nat_u64_inj intro!: inj_onI)

lemma unat_inc: "unat (l :: u64) + 1 < 2 ^ 64 \<Longrightarrow> unat (l + 1) = unat l + 1"
  by (simp add: unat_word_ariths)

lemma planner_distinct:
  "unat l + length cur < 2 ^ 64 \<Longrightarrow>
   distinct (map position (plan_jobs (planner_levels l cur))) \<and>
   (\<forall>j\<in>set (plan_jobs (planner_levels l cur)). unat l \<le> unat (tp_level (position j)))"
proof (induction l cur rule: planner_levels.induct)
  case (1 l cur)
  let ?nl = "next_level l cur" and ?cur' = "next_level l cur @ leftover cur"
  show ?case
  proof (cases "1 < length cur")
    case True
    let ?js' = "plan_jobs (planner_levels (l + 1) ?cur')"
    have l1: "unat (l + 1) = unat l + 1" using "1.prems" True by (intro unat_inc) linarith
    have "length cur div 2 + length cur mod 2 < length cur" using True by presburger
    hence "unat (l + 1) + length ?cur' < 2 ^ 64"
      unfolding l1 length_round using "1.prems" by linarith
    note ih = "1.IH"[OF True this]
    have nl: "\<forall>j\<in>set ?nl. tp_level (position j) = l" by (auto simp: next_level_def new_position_def)
    have d: "distinct (map position ?nl)"
      unfolding next_level_positions using "1.prems" by (intro distinct_row) linarith
    have "position ` set ?nl \<inter> position ` set ?js' = {}"
    proof (rule ccontr)
      assume "position ` set ?nl \<inter> position ` set ?js' \<noteq> {}"
      then obtain a b where "a \<in> set ?nl" "b \<in> set ?js'" "position a = position b" by auto
      thus False using nl ih l1 by fastforce
    qed
    thus ?thesis using True ih nl d l1 by fastforce
  qed simp
qed

lemma planner_rounds: "length (planner_levels l cur) \<le> k \<longleftrightarrow> length cur \<le> 2 ^ k"
proof (induction l cur arbitrary: k rule: planner_levels.induct)
  case (1 l cur)
  show ?case
  proof (cases "1 < length cur")
    case True
    show ?thesis
    proof (cases k)
      case (Suc m)
      have "length (planner_levels l cur) \<le> k \<longleftrightarrow> length cur div 2 + length cur mod 2 \<le> 2 ^ m"
        using "1.IH"[OF True, of m] True by (simp only: planner_round list.size Suc length_round) simp
      also have "\<dots> \<longleftrightarrow> length cur \<le> 2 * 2 ^ m" by presburger
      finally show ?thesis by (simp add: Suc)
    qed (use True in simp)
  next
    case False
    have "length cur \<le> 2 ^ k" using False by (metis not_less one_le_numeral one_le_power le_trans)
    thus ?thesis using False by simp
  qed
qed

lemma in_all_positions [simp]: "p \<in># all_positions js \<longleftrightarrow> p \<in> position ` set js"
  by (auto simp: all_positions_def)

lemma inputs_of_round:
  assumes "j \<in> set (next_level l cur)" "p \<in> set (job_inputs j)"
  shows "p \<in> position ` set cur"
proof -
  have "p \<in># all_inputs (next_level l cur)" using assms by (auto simp: all_inputs_def)
  hence "p \<in># all_positions cur" by (metis round_consumes union_iff)
  thus ?thesis by simp
qed

lemma leftover_subset: "cur \<noteq> [] \<Longrightarrow> set (leftover cur) \<subseteq> set cur"
  by (auto simp: leftover_def)

lemma planner_ready:
  "d < length (planner_levels l cur) \<Longrightarrow> j \<in> set (planner_levels l cur ! d) \<Longrightarrow> p \<in> set (job_inputs j) \<Longrightarrow>
   p \<in> position ` set cur \<or> p \<in> position ` set (plan_jobs (take d (planner_levels l cur)))"
proof (induction l cur arbitrary: d rule: planner_levels.induct)
  case (1 l cur)
  have long: "1 < length cur" using "1.prems"(1) by (cases "1 < length cur") auto
  show ?case
  proof (cases d)
    case 0
    thus ?thesis using "1.prems" long inputs_of_round by simp
  next
    case (Suc e)
    from "1.IH"[OF long, of e] "1.prems" long Suc
    have "p \<in> position ` set (next_level l cur @ leftover cur) \<or>
        p \<in> position ` set (plan_jobs (take e (planner_levels (l + 1) (next_level l cur @ leftover cur))))"
      by simp
    moreover have "set (leftover cur) \<subseteq> set cur" using long by (intro leftover_subset) auto
    ultimately show ?thesis using long Suc by auto
  qed
qed

section \<open>Properties\<close>

lemma leaves_positions:
  "map position (gen_leaves_binary_tree_planner n) = map (\<lambda>i. new_position 0 (of_nat i)) [0..<n]"
  by (simp add: gen_leaves_binary_tree_planner_def)

lemma length_leaves [simp]: "length (gen_leaves_binary_tree_planner n) = n"
  by (simp add: gen_leaves_binary_tree_planner_def)

text \<open>
  C34. The aggregation plan is a full binary reduction. For \<open>n \<ge> 2\<close> leaves it has exactly \<open>n - 1\<close> jobs,
  no two leaves or jobs share a position, and every position is the input of exactly one job except
  the position of the last job, the root, which is the input of none.
\<close>

theorem planner_reduces:
  assumes "1 < n" "n < 2 ^ 63"
  shows "let leaves = gen_leaves_binary_tree_planner n; jobs = plan_jobs (levels (new_planner n)) in
    length jobs = n - 1 \<and> distinct (map position (leaves @ jobs)) \<and>
    add_mset (position (last jobs)) (all_inputs jobs) = all_positions (leaves @ jobs)"
proof -
  let ?leaves = "gen_leaves_binary_tree_planner n"
  let ?jobs = "plan_jobs (planner_levels 1 ?leaves)"
  have "?leaves \<noteq> []" using assms(1) by (metis length_leaves list.size(3) not_less_zero)
  hence c: "length ?jobs = n - 1" using planner_count[of ?leaves 1] by simp
  have m: "add_mset (position (last ?jobs)) (all_inputs ?jobs) = all_positions ?leaves + all_positions ?jobs"
    using planner_consumes[of ?leaves 1 ?jobs] assms(1) by simp
  have d: "distinct (map position ?jobs)" "\<forall>j\<in>set ?jobs. 1 \<le> unat (tp_level (position j))"
    using planner_distinct[of 1 ?leaves] assms(2) by simp_all
  have dl: "distinct (map position ?leaves)"
    unfolding leaves_positions using assms(2) by (intro distinct_row) simp
  have "\<forall>j\<in>set ?leaves. unat (tp_level (position j)) = 0"
    by (auto simp: gen_leaves_binary_tree_planner_def new_position_def)
  hence "position ` set ?leaves \<inter> position ` set ?jobs = {}" using d(2) by fastforce
  thus ?thesis using c m d(1) dl by (simp add: new_planner_def Let_def)
qed

theorem planner_reduces_witness:
  "length (plan_jobs (levels (new_planner 5))) = 4 \<and>
   distinct (map position (gen_leaves_binary_tree_planner 5 @ plan_jobs (levels (new_planner 5))))"
  using planner_reduces[of 5] by (simp add: Let_def)

text \<open>
  C35. The planner's loop ends, after exactly \<open>\<lceil>log\<^sub>2 n\<rceil>\<close> rounds: the plan fits in \<open>k\<close> levels if and only
  if the leaves number at most \<open>2 ^ k\<close>. Running the levels in order is sound: each input of a job of a
  level is a leaf or the output of a job of an earlier level.
\<close>

theorem planner_terminates_ready:
  "(length (levels (new_planner n)) \<le> k \<longleftrightarrow> n \<le> 2 ^ k) \<and>
   (d < length (levels (new_planner n)) \<longrightarrow> j \<in> set (levels (new_planner n) ! d) \<longrightarrow>
      set (job_inputs j) \<subseteq> position ` set (gen_leaves_binary_tree_planner n) \<union>
        position ` set (plan_jobs (take d (levels (new_planner n)))))"
  using planner_rounds[of 1 "gen_leaves_binary_tree_planner n" k]
    planner_ready[of d 1 "gen_leaves_binary_tree_planner n" j]
  by (auto simp: new_planner_def)

theorem planner_terminates_ready_witness:
  "length (levels (new_planner 5)) = 3 \<and>
   set (job_inputs (levels (new_planner 5) ! 2 ! 0)) \<subseteq> position ` set (gen_leaves_binary_tree_planner 5) \<union>
     position ` set (plan_jobs (take 2 (levels (new_planner 5))))"
proof -
  have l: "length (levels (new_planner 5)) = 3"
    using planner_terminates_ready[of 5 3, THEN conjunct1] planner_terminates_ready[of 5 2, THEN conjunct1]
    by simp
  have "levels (new_planner 5) ! 2 \<noteq> []" by code_simp
  hence "levels (new_planner 5) ! 2 ! 0 \<in> set (levels (new_planner 5) ! 2)" by simp
  thus ?thesis using planner_terminates_ready[of 5 0 2 "levels (new_planner 5) ! 2 ! 0"] l by simp
qed

end
