(* ===== verification/Nca_Proof.thy ===== *)
theory Nca_Proof
  imports Merkle_Proof Node_Key
begin

unbundle bit_operations_syntax

text \<open>
  Nearest-common-ancestor update proofs, \<open>src/parth_core/src/crypto/hash/nca/nca_proof.rs\<close>: two delta
  proofs of subtrees joined at their nearest common ancestor, the partial form without the derived
  fields, the form with a link from the ancestor to the root, and the ordering of a set of such
  proofs by their dependencies. A panic is \<open>None\<close>.
\<close>

section \<open>Update proofs\<close>

definition checked_merkle_height :: "nat \<Rightarrow> u8 option" where
  "checked_merkle_height siblings_len = (if siblings_len < 64 then Some (of_nat siblings_len) else None)"

record 'h nca_update =
  old_nearest_common_ancestor_value :: 'h
  new_nearest_common_ancestor_value :: 'h
  child_a :: "'h delta_merkle_proof"
  child_b :: "'h delta_merkle_proof"
  nearest_common_ancestor_level :: u8
  nearest_common_ancestor_index :: u64
  level_a :: u8
  level_b :: u8

record 'h partial_nca_update =
  p_child_a :: "'h delta_merkle_proof"
  p_child_b :: "'h delta_merkle_proof"
  p_nca_level :: u8

definition to_partial :: "'h nca_update \<Rightarrow> 'h partial_nca_update" where
  "to_partial p = \<lparr>p_child_a = child_a p, p_child_b = child_b p, p_nca_level = nearest_common_ancestor_level p\<rparr>"

definition get_a_node_key :: "'h nca_update \<Rightarrow> node_key" where
  "get_a_node_key p = Node_Key (level_a p) (dmp_index (child_a p))"

definition get_b_node_key :: "'h nca_update \<Rightarrow> node_key" where
  "get_b_node_key p = Node_Key (level_b p) (dmp_index (child_b p))"

definition is_solo_filler :: "'h nca_update \<Rightarrow> bool" where
  "is_solo_filler p \<longleftrightarrow> dmp_new_root (child_a p) = dmp_new_root (child_b p) \<and> child_a p = child_b p"

text \<open>The two orders of \<open>two_to_one\<close> shared by \<open>verify\<close>, \<open>validate\<close> and the partial proofs.\<close>

definition join_roots :: "('h \<Rightarrow> 'h \<Rightarrow> 'h) \<Rightarrow> bool \<Rightarrow> 'h \<Rightarrow> 'h \<Rightarrow> 'h" where
  "join_roots t is_a_right a b = (if is_a_right then t b a else t a b)"

definition nca_verify :: "('h \<Rightarrow> 'h \<Rightarrow> 'h) \<Rightarrow> 'h nca_update \<Rightarrow> bool option" where
  "nca_verify t p =
     (let solo_mask = (if is_solo_filler p then 0 else 1 :: nat);
          nca_level = nearest_common_ancestor_level p;
          expected_level_a = unat nca_level + length (dmp_siblings (child_a p)) + solo_mask;
          expected_level_b = unat nca_level + length (dmp_siblings (child_b p)) + solo_mask
      in if unat (level_a p) = expected_level_a \<and> unat (level_b p) = expected_level_b
      then
        let level_diff_a = level_a p - nca_level;
            level_diff_b = level_b p - nca_level
        in if level_diff_a \<ge> 64 \<or> level_diff_b \<ge> 64 then Some False
        else
          let nca_index_a = shr64 (dmp_index (child_a p)) (unat level_diff_a);
              nca_index_b = shr64 (dmp_index (child_b p)) (unat level_diff_b)
          in if nca_index_a = nca_index_b \<and> nca_index_a = nearest_common_ancestor_index p \<and>
                dmp_verify t (child_a p) \<and> dmp_verify t (child_b p)
          then do {
            is_a_right \<leftarrow> is_on_the_right_of (get_a_node_key p) (get_b_node_key p);
            Some (old_nearest_common_ancestor_value p =
                    join_roots t is_a_right (dmp_old_root (child_a p)) (dmp_old_root (child_b p)) \<and>
                  new_nearest_common_ancestor_value p =
                    join_roots t is_a_right (dmp_new_root (child_a p)) (dmp_new_root (child_b p))) }
          else Some False
      else Some False)"

definition assert_that :: "bool \<Rightarrow> unit option" where
  "assert_that b = (if b then Some () else None)"

definition nca_validate :: "('h \<Rightarrow> 'h \<Rightarrow> 'h) \<Rightarrow> 'h nca_update \<Rightarrow> unit option" where
  "nca_validate t p =
     (let solo_mask = (if is_solo_filler p then 0 else 1 :: nat);
          nca_level = nearest_common_ancestor_level p
      in do {
        assert_that (unat (level_a p) = unat nca_level + length (dmp_siblings (child_a p)) + solo_mask);
        assert_that (unat (level_b p) = unat nca_level + length (dmp_siblings (child_b p)) + solo_mask);
        assert_that (level_a p \<ge> nca_level);
        assert_that (level_b p \<ge> nca_level);
        let level_diff_a = level_a p - nca_level;
        let level_diff_b = level_b p - nca_level;
        assert_that (level_diff_a < 64);
        assert_that (level_diff_b < 64);
        let nca_index_a = shr64 (dmp_index (child_a p)) (unat level_diff_a);
        let nca_index_b = shr64 (dmp_index (child_b p)) (unat level_diff_b);
        assert_that (nca_index_a = nca_index_b);
        assert_that (nca_index_a = nearest_common_ancestor_index p);
        assert_that (dmp_verify t (child_a p));
        assert_that (dmp_verify t (child_b p));
        is_a_right \<leftarrow> is_on_the_right_of (get_a_node_key p) (get_b_node_key p);
        assert_that (old_nearest_common_ancestor_value p =
          join_roots t is_a_right (dmp_old_root (child_a p)) (dmp_old_root (child_b p)));
        assert_that (new_nearest_common_ancestor_value p =
          join_roots t is_a_right (dmp_new_root (child_a p)) (dmp_new_root (child_b p))) })"

section \<open>Partial proofs\<close>

definition checked_child_level :: "'h partial_nca_update \<Rightarrow> nat \<Rightarrow> u8 option" where
  "checked_child_level p siblings_len =
     (let level_diff = siblings_len + 1 in
      if \<not> level_diff < 64 then None
      else let level = unat (p_nca_level p) + level_diff in
           if level < 256 then Some (of_nat level) else None)"

definition get_level_a :: "'h partial_nca_update \<Rightarrow> u8 option" where
  "get_level_a p = checked_child_level p (length (dmp_siblings (p_child_a p)))"

definition get_level_b :: "'h partial_nca_update \<Rightarrow> u8 option" where
  "get_level_b p = checked_child_level p (length (dmp_siblings (p_child_b p)))"

definition p_get_a_node_key :: "'h partial_nca_update \<Rightarrow> node_key option" where
  "p_get_a_node_key p = map_option (\<lambda>l. Node_Key l (dmp_index (p_child_a p))) (get_level_a p)"

definition p_get_b_node_key :: "'h partial_nca_update \<Rightarrow> node_key option" where
  "p_get_b_node_key p = map_option (\<lambda>l. Node_Key l (dmp_index (p_child_b p))) (get_level_b p)"

definition compute_old_nca_value :: "('h \<Rightarrow> 'h \<Rightarrow> 'h) \<Rightarrow> 'h partial_nca_update \<Rightarrow> 'h option" where
  "compute_old_nca_value t p = do {
     ka \<leftarrow> p_get_a_node_key p; kb \<leftarrow> p_get_b_node_key p;
     is_a_right \<leftarrow> is_on_the_right_of ka kb;
     Some (join_roots t is_a_right (dmp_old_root (p_child_a p)) (dmp_old_root (p_child_b p))) }"

definition compute_new_nca_value :: "('h \<Rightarrow> 'h \<Rightarrow> 'h) \<Rightarrow> 'h partial_nca_update \<Rightarrow> 'h option" where
  "compute_new_nca_value t p = do {
     ka \<leftarrow> p_get_a_node_key p; kb \<leftarrow> p_get_b_node_key p;
     is_a_right \<leftarrow> is_on_the_right_of ka kb;
     Some (join_roots t is_a_right (dmp_new_root (p_child_a p)) (dmp_new_root (p_child_b p))) }"

definition get_nca_index :: "'h partial_nca_update \<Rightarrow> u64 option" where
  "get_nca_index p =
     (let level_diff_a = length (dmp_siblings (p_child_a p)) + 1 in
      if \<not> level_diff_a < 64 then None else Some (shr64 (dmp_index (p_child_a p)) level_diff_a))"

definition to_full_proof :: "('h \<Rightarrow> 'h \<Rightarrow> 'h) \<Rightarrow> 'h partial_nca_update \<Rightarrow> 'h nca_update option" where
  "to_full_proof t p = do {
     old_value \<leftarrow> compute_old_nca_value t p;
     new_value \<leftarrow> compute_new_nca_value t p;
     la \<leftarrow> get_level_a p;
     lb \<leftarrow> get_level_b p;
     nca_index \<leftarrow> get_nca_index p;
     Some \<lparr>old_nearest_common_ancestor_value = old_value, new_nearest_common_ancestor_value = new_value,
           child_a = p_child_a p, child_b = p_child_b p, nearest_common_ancestor_level = p_nca_level p,
           nearest_common_ancestor_index = nca_index, level_a = la, level_b = lb\<rparr> }"

text \<open>\<open>n - 1\<close> on a \<open>usize\<close>, wrapping.\<close>

definition pred_usize :: "nat \<Rightarrow> nat" where
  "pred_usize n = (if n = 0 then 2 ^ 64 - 1 else n - 1)"

definition from_delta_merkle_proof_pair ::
  "('h \<Rightarrow> 'h \<Rightarrow> 'h) \<Rightarrow> 'h delta_merkle_proof \<Rightarrow> 'h delta_merkle_proof \<Rightarrow> 'h partial_nca_update option" where
  "from_delta_merkle_proof_pair t dmp_a dmp_b = do {
     height \<leftarrow> checked_merkle_height (length (dmp_siblings dmp_a));
     assert_that (length (dmp_siblings dmp_a) = length (dmp_siblings dmp_b));
     assert_that (dmp_index dmp_a \<noteq> dmp_index dmp_b);
     nca \<leftarrow> find_nearest_common_ancestor (Node_Key height (dmp_index dmp_a)) (Node_Key height (dmp_index dmp_b));
     let dist_to_nca = unat (height - nk_level nca);
     a \<leftarrow> shorten_height t dmp_a (pred_usize dist_to_nca);
     b \<leftarrow> shorten_height t dmp_b (pred_usize dist_to_nca);
     Some \<lparr>p_child_a = a, p_child_b = b, p_nca_level = nk_level nca\<rparr> }"

section \<open>Proofs with a link to the root\<close>

record 'h partial_nca_link =
  pl_nca_proof :: "'h partial_nca_update"
  link_siblings :: "'h list"

record 'h nca_link =
  l_nca_proof :: "'h nca_update"
  link_proof :: "'h delta_merkle_proof"

text \<open>\<open>&siblings[from..]\<close>, which panics beyond the end.\<close>

definition tail_from :: "nat \<Rightarrow> 'a list \<Rightarrow> 'a list option" where
  "tail_from n xs = (if n \<le> length xs then Some (drop n xs) else None)"

definition link_from_delta_merkle_proof_pair ::
  "('h \<Rightarrow> 'h \<Rightarrow> 'h) \<Rightarrow> 'h delta_merkle_proof \<Rightarrow> 'h delta_merkle_proof \<Rightarrow> 'h partial_nca_link option" where
  "link_from_delta_merkle_proof_pair t dmp_a dmp_b = do {
     height \<leftarrow> checked_merkle_height (length (dmp_siblings dmp_a));
     assert_that (length (dmp_siblings dmp_a) = length (dmp_siblings dmp_b));
     assert_that (dmp_index dmp_a \<noteq> dmp_index dmp_b);
     nca \<leftarrow> find_nearest_common_ancestor (Node_Key height (dmp_index dmp_a)) (Node_Key height (dmp_index dmp_b));
     let dist_to_nca = unat (height - nk_level nca);
     links \<leftarrow> tail_from dist_to_nca (dmp_siblings dmp_a);
     links_b \<leftarrow> tail_from dist_to_nca (dmp_siblings dmp_b);
     assert_that (links = links_b);
     a \<leftarrow> shorten_height t dmp_a (pred_usize dist_to_nca);
     b \<leftarrow> shorten_height t dmp_b (pred_usize dist_to_nca);
     Some \<lparr>pl_nca_proof = \<lparr>p_child_a = a, p_child_b = b, p_nca_level = nk_level nca\<rparr>, link_siblings = links\<rparr> }"

definition link_from_delta_merkle_proof_pair_alt_height ::
  "('h \<Rightarrow> 'h \<Rightarrow> 'h) \<Rightarrow> 'h delta_merkle_proof \<Rightarrow> 'h delta_merkle_proof \<Rightarrow> 'h partial_nca_link option" where
  "link_from_delta_merkle_proof_pair_alt_height t dmp_a dmp_b = do {
     height_a \<leftarrow> checked_merkle_height (length (dmp_siblings dmp_a));
     height_b \<leftarrow> checked_merkle_height (length (dmp_siblings dmp_b));
     let leaf_key_a = Node_Key height_a (dmp_index dmp_a);
     let leaf_key_b = Node_Key height_b (dmp_index dmp_b);
     assert_that (leaf_key_a \<noteq> leaf_key_b);
     related \<leftarrow> is_direct_path_related leaf_key_a leaf_key_b;
     assert_that (\<not> related);
     nca \<leftarrow> find_nearest_common_ancestor leaf_key_a leaf_key_b;
     let dist_to_nca_a = unat (height_a - nk_level nca);
     let dist_to_nca_b = unat (height_b - nk_level nca);
     links \<leftarrow> tail_from dist_to_nca_a (dmp_siblings dmp_a);
     links_b \<leftarrow> tail_from dist_to_nca_b (dmp_siblings dmp_b);
     assert_that (links = links_b);
     a \<leftarrow> shorten_height t dmp_a (pred_usize dist_to_nca_a);
     b \<leftarrow> shorten_height t dmp_b (pred_usize dist_to_nca_b);
     Some \<lparr>pl_nca_proof = \<lparr>p_child_a = a, p_child_b = b, p_nca_level = nk_level nca\<rparr>, link_siblings = links\<rparr> }"

definition link_to_full_proof :: "('h \<Rightarrow> 'h \<Rightarrow> 'h) \<Rightarrow> 'h partial_nca_link \<Rightarrow> 'h nca_link option" where
  "link_to_full_proof t p = do {
     nca \<leftarrow> to_full_proof t (pl_nca_proof p);
     Some \<lparr>l_nca_proof = nca,
           link_proof = dmp_from_params t (nearest_common_ancestor_index nca)
             (old_nearest_common_ancestor_value nca) (new_nearest_common_ancestor_value nca) (link_siblings p)\<rparr> }"

definition full_link_from_pair ::
  "('h \<Rightarrow> 'h \<Rightarrow> 'h) \<Rightarrow> 'h delta_merkle_proof \<Rightarrow> 'h delta_merkle_proof \<Rightarrow> 'h nca_link option" where
  "full_link_from_pair t dmp_a dmp_b =
     Option.bind (link_from_delta_merkle_proof_pair t dmp_a dmp_b) (link_to_full_proof t)"

definition to_partial_proof :: "'h nca_link \<Rightarrow> 'h partial_nca_link" where
  "to_partial_proof p =
     \<lparr>pl_nca_proof =
        \<lparr>p_child_a = child_a (l_nca_proof p), p_child_b = child_b (l_nca_proof p),
         p_nca_level = nearest_common_ancestor_level (l_nca_proof p)\<rparr>,
      link_siblings = dmp_siblings (link_proof p)\<rparr>"

definition link_verify :: "('h \<Rightarrow> 'h \<Rightarrow> 'h) \<Rightarrow> 'h nca_link \<Rightarrow> bool option" where
  "link_verify t p = do {
     ok \<leftarrow> nca_verify t (l_nca_proof p);
     Some (ok \<and> dmp_verify t (link_proof p) \<and>
       old_nearest_common_ancestor_value (l_nca_proof p) = dmp_old_value (link_proof p) \<and>
       new_nearest_common_ancestor_value (l_nca_proof p) = dmp_new_value (link_proof p)) }"

section \<open>Dependency levels\<close>

text \<open>Signed 64-bit dependency indices are integers; they are only compared.\<close>

record 'h nca_proofs_with_dependencies =
  nd_nca_proofs :: "'h nca_update list"
  dependencies :: "(int \<times> int) list"
  root_proof_index :: nat
  nd_nearest_common_ancestor_level :: u8
  nd_nearest_common_ancestor_index :: u64
  link_level :: u8
  link_index :: u64
  nd_link_proof :: "'h delta_merkle_proof"

datatype dependency_error = Count_Mismatch | Dependency_Out_Of_Range | Unsatisfied_Dependency

definition dependency_solved :: "(int \<times> int) list \<Rightarrow> int set \<Rightarrow> nat \<Rightarrow> bool" where
  "dependency_solved deps solved x =
     (case deps ! x of (l, r) \<Rightarrow> (l \<le> -1 \<or> l \<in> solved) \<and> (r \<le> -1 \<or> r \<in> solved))"

text \<open>The \<open>while\<close> loop; every round that does not fail solves at least one proof.\<close>

function levels_loop ::
  "(int \<times> int) list \<Rightarrow> nat \<Rightarrow> nat \<Rightarrow> int set \<Rightarrow> nat list \<Rightarrow> dependency_error + nat list list" where
  "levels_loop deps total_values solved_values solved remaining =
     (if solved_values < total_values then
        let level = filter (dependency_solved deps solved) remaining;
            new_remaining = filter (\<lambda>x. \<not> dependency_solved deps solved x) remaining
        in if level = [] then Inl Unsatisfied_Dependency
        else rbind (levels_loop deps total_values (solved_values + length level)
                      (solved \<union> int ` set level) new_remaining)
               (\<lambda>levels. Inr (level # levels))
      else Inr [])"
  by pat_completeness auto
termination
  by (relation "measure (\<lambda>(deps, total_values, solved_values, solved, remaining). total_values - solved_values)")
    (auto simp: filter_empty_conv intro!: diff_less_mono2, (metis length_greater_0_conv filter_empty_conv)?)

definition get_index_levels :: "'h nca_proofs_with_dependencies \<Rightarrow> dependency_error + nat list list" where
  "get_index_levels u =
     (let total_values = length (nd_nca_proofs u) in
      rbind (guard_or Count_Mismatch (length (dependencies u) = total_values)) (\<lambda>_.
      rbind (guard_or Dependency_Out_Of_Range
               (list_all (\<lambda>(l, r). l < int total_values \<and> r < int total_values) (dependencies u))) (\<lambda>_.
        levels_loop (dependencies u) total_values 0 {} [0..<total_values])))"

section \<open>Dependency levels are a topological order\<close>

declare levels_loop.simps [simp del]

definition dep_list :: "(int \<times> int) list \<Rightarrow> nat \<Rightarrow> int list" where
  "dep_list deps x = [fst (deps ! x), snd (deps ! x)]"

lemma dependency_solved_iff:
  "dependency_solved deps solved x \<longleftrightarrow> (\<forall>d\<in>set (dep_list deps x). d < 0 \<or> d \<in> solved)"
  by (auto simp: dependency_solved_def dep_list_def split: prod.splits)

lemma levels_loop_stop: "\<not> k < n \<Longrightarrow> levels_loop deps n k solved rem = Inr []"
  by (simp add: levels_loop.simps)

lemma levels_loop_round:
  assumes "k < n"
  shows "levels_loop deps n k (int ` S) rem =
    (let L = filter (dependency_solved deps (int ` S)) rem;
         R = filter (\<lambda>x. \<not> dependency_solved deps (int ` S) x) rem
     in if L = [] then Inl Unsatisfied_Dependency
        else rbind (levels_loop deps n (k + length L) (int ` (S \<union> set L)) R) (\<lambda>lv. Inr (L # lv)))"
  unfolding image_Un by (subst levels_loop.simps) (simp only: assms if_True)

lemma levels_loop_error: "levels_loop deps n k solved rem = Inl e \<Longrightarrow> e = Unsatisfied_Dependency"
proof (induction deps n k solved rem rule: levels_loop.induct)
  case (1 deps n k solved rem)
  show ?case using "1.prems" "1.IH"
    by (subst (asm) levels_loop.simps) (auto simp: Let_def rbind_Inl split: if_splits)
qed

definition levels_ok :: "(int \<times> int) list \<Rightarrow> nat set \<Rightarrow> nat list \<Rightarrow> nat list list \<Rightarrow> bool" where
  "levels_ok deps S rem lv \<longleftrightarrow> distinct (concat lv) \<and> set (concat lv) = set rem \<and> [] \<notin> set lv \<and>
     (\<forall>d<length lv. \<forall>x\<in>set (lv ! d). dependency_solved deps (int ` (S \<union> set (concat (take d lv)))) x)"

lemma levels_ok_Cons:
  assumes "levels_ok deps (S \<union> set L) R lv" "L \<noteq> []" "distinct rem"
    "L = filter (dependency_solved deps (int ` S)) rem"
    "R = filter (\<lambda>x. \<not> dependency_solved deps (int ` S) x) rem"
  shows "levels_ok deps S rem (L # lv)"
proof -
  have "dependency_solved deps (int ` (S \<union> set (concat (take d (L # lv))))) x"
    if "d < length (L # lv)" "x \<in> set ((L # lv) ! d)" for d x
    using that assms(1,4) by (cases d) (auto simp: levels_ok_def Un_assoc)
  moreover have "distinct (concat (L # lv))" "set (concat (L # lv)) = set rem"
    using assms by (auto simp: levels_ok_def)
  ultimately show ?thesis using assms(1,2) unfolding levels_ok_def by simp
qed

lemma levels_loop_sound:
  "levels_loop deps n k (int ` S) rem = Inr lv \<Longrightarrow> distinct rem \<Longrightarrow> k + length rem = n \<Longrightarrow>
   levels_ok deps S rem lv"
proof (induction "n - k" arbitrary: k S rem lv rule: less_induct)
  case less
  show ?case
  proof (cases "k < n")
    case False
    hence "length rem = 0" using less.prems(3) by linarith
    hence "rem = []" by simp
    thus ?thesis using less.prems False by (simp add: levels_loop_stop levels_ok_def)
  next
    case True
    define L where "L = filter (dependency_solved deps (int ` S)) rem"
    define R where "R = filter (\<lambda>x. \<not> dependency_solved deps (int ` S) x) rem"
    obtain lv' where L: "L \<noteq> []" and lv': "levels_loop deps n (k + length L) (int ` (S \<union> set L)) R = Inr lv'"
      and lv: "lv = L # lv'"
      using less.prems(1) unfolding levels_loop_round[OF True] L_def[symmetric] R_def[symmetric]
      by (auto simp: Let_def rbind_Inr split: if_splits)
    have "k + length L + length R = n" using less.prems(3)
        sum_length_filter_compl[of "dependency_solved deps (int ` S)" rem] by (simp add: L_def R_def)
    moreover have "n - (k + length L) < n - k" using True L by (simp add: diff_less_mono2)
    moreover have "distinct R" using less.prems(2) by (simp add: R_def)
    ultimately have "levels_ok deps (S \<union> set L) R lv'" using less.hyps lv' by blast
    thus ?thesis unfolding lv using L less.prems(2) L_def R_def by (rule levels_ok_Cons)
  qed
qed

text \<open>A rank that every dependency decreases: the dependency graph is acyclic.\<close>

definition dependency_rank :: "(int \<times> int) list \<Rightarrow> (nat \<Rightarrow> nat) \<Rightarrow> bool" where
  "dependency_rank deps rk \<longleftrightarrow>
     (\<forall>x<length deps. \<forall>d\<in>set (dep_list deps x). d < 0 \<or> rk (nat d) < rk x)"

definition dependencies_in_range :: "(int \<times> int) list \<Rightarrow> bool" where
  "dependencies_in_range deps \<longleftrightarrow> (\<forall>x<length deps. \<forall>d\<in>set (dep_list deps x). d < int (length deps))"

lemma ready_exists:
  assumes "dependency_rank deps rk" "dependencies_in_range deps"
    "set rem = {0..<length deps} - S" "rem \<noteq> []"
  shows "filter (dependency_solved deps (int ` S)) rem \<noteq> []"
proof -
  obtain x where x: "x \<in> set rem" and least: "\<forall>y\<in>set rem. rk x \<le> rk y"
    using assms(4) by (metis arg_min_if_finite(1) arg_min_least finite_set set_empty)
  have "d < 0 \<or> d \<in> int ` S" if "d \<in> set (dep_list deps x)" for d
  proof (cases "d < 0")
    case False
    have "x < length deps" using x assms(3) by auto
    hence "rk (nat d) < rk x" and "d < int (length deps)"
      using that False assms(1,2) by (auto simp: dependency_rank_def dependencies_in_range_def)
    hence "rk (nat d) < rk x" "nat d < length deps" using False by linarith+
    hence "nat d \<in> S" using least assms(3) by (metis DiffI atLeastLessThan_iff not_less zero_le)
    thus ?thesis using False by (metis image_eqI nat_0_le not_less)
  qed simp
  hence "x \<in> set (filter (dependency_solved deps (int ` S)) rem)"
    using x by (simp add: dependency_solved_iff)
  thus ?thesis by (metis empty_iff list.set(1))
qed

lemma levels_loop_complete:
  assumes "dependency_rank deps rk" "dependencies_in_range deps" "n = length deps"
  shows "set rem = {0..<n} - S \<Longrightarrow> k + length rem = n \<Longrightarrow> \<exists>lv. levels_loop deps n k (int ` S) rem = Inr lv"
proof (induction "n - k" arbitrary: k S rem rule: less_induct)
  case less
  show ?case
  proof (cases "k < n")
    case True
    define L where "L = filter (dependency_solved deps (int ` S)) rem"
    define R where "R = filter (\<lambda>x. \<not> dependency_solved deps (int ` S) x) rem"
    have "rem \<noteq> []" using True less.prems(2) by auto
    hence L: "L \<noteq> []" unfolding L_def using ready_exists assms less.prems(1) by blast
    have "k + length L + length R = n" using less.prems(2)
        sum_length_filter_compl[of "dependency_solved deps (int ` S)" rem] by (simp add: L_def R_def)
    moreover have "n - (k + length L) < n - k" using True L by (simp add: diff_less_mono2)
    moreover have "set R = {0..<n} - (S \<union> set L)" using less.prems(1) by (auto simp: L_def R_def)
    ultimately obtain lv where "levels_loop deps n (k + length L) (int ` (S \<union> set L)) R = Inr lv"
      using less.hyps by blast
    thus ?thesis using L unfolding levels_loop_round[OF True] L_def[symmetric] R_def[symmetric] by simp
  qed (simp add: levels_loop_stop)
qed

lemma in_concat_nth: "x \<in> set (concat lv) \<longleftrightarrow> (\<exists>d<length lv. x \<in> set (lv ! d))"
  unfolding set_concat UN_iff by (metis in_set_conv_nth)

lemma levels_give_rank:
  assumes "levels_ok deps {} [0..<length deps] lv"
  shows "\<exists>rk. dependency_rank deps rk"
proof -
  define rk where "rk x = (LEAST d. d < length lv \<and> x \<in> set (lv ! d))" for x
  have in_lv: "\<exists>d<length lv. x \<in> set (lv ! d)" if "x < length deps" for x
  proof -
    have "x \<in> set (concat lv)" using that assms by (simp add: levels_ok_def)
    thus ?thesis by (simp only: in_concat_nth)
  qed
  have "rk (nat d) < rk x" if x: "x < length deps" and d: "d \<in> set (dep_list deps x)" "\<not> d < 0" for x d
  proof -
    have r: "rk x < length lv \<and> x \<in> set (lv ! rk x)"
      unfolding rk_def using in_lv[OF x] by (rule LeastI2_ex) simp
    hence "dependency_solved deps (int ` set (concat (take (rk x) lv))) x"
      using assms by (simp add: levels_ok_def)
    hence "d \<in> int ` set (concat (take (rk x) lv))" using d unfolding dependency_solved_iff by blast
    hence "nat d \<in> set (concat (take (rk x) lv))" by (auto simp del: set_concat)
    then obtain e where e: "e < rk x" "e < length lv" "nat d \<in> set (lv ! e)"
      by (auto simp: in_concat_nth simp del: set_concat)
    hence "rk (nat d) \<le> e" unfolding rk_def by (intro Least_le) simp
    thus ?thesis using e(1) by simp
  qed
  thus ?thesis unfolding dependency_rank_def by blast
qed

lemma in_range_iff:
  "list_all (\<lambda>(l, r). l < int (length deps) \<and> r < int (length deps)) deps \<longleftrightarrow> dependencies_in_range deps"
  by (auto simp: dependencies_in_range_def dep_list_def list_all_length case_prod_beta)

section \<open>Verification\<close>

lemma assert_that_Some [simp]: "assert_that b = Some u \<longleftrightarrow> b"
  by (simp add: assert_that_def)

lemma assert_that_simps [simp]: "assert_that True = Some ()" "assert_that False = None"
  by (simp_all add: assert_that_def)

lemma u8_level_diff:
  assumes "unat (la :: u8) = unat l + m"
  shows "l \<le> la" "unat (la - l) = m"
proof -
  show "l \<le> la" using assms by (simp add: word_le_nat_alt)
  thus "unat (la - l) = m" using assms by (simp add: unat_sub)
qed

lemma on_the_right_total: "\<exists>b. is_on_the_right_of k k' = Some b"
  by (auto simp: is_on_the_right_of_def parent_at_level_def)

text \<open>What an accepted proof satisfies.\<close>

definition nca_checks :: "('h \<Rightarrow> 'h \<Rightarrow> 'h) \<Rightarrow> 'h nca_update \<Rightarrow> bool \<Rightarrow> bool" where
  "nca_checks t p is_a_right \<longleftrightarrow>
     (let m = (if is_solo_filler p then 0 else 1);
          da = length (dmp_siblings (child_a p)) + m;
          db = length (dmp_siblings (child_b p)) + m
      in unat (level_a p) = unat (nearest_common_ancestor_level p) + da \<and>
         unat (level_b p) = unat (nearest_common_ancestor_level p) + db \<and>
         da < 64 \<and> db < 64 \<and>
         shr64 (dmp_index (child_a p)) da = nearest_common_ancestor_index p \<and>
         shr64 (dmp_index (child_b p)) db = nearest_common_ancestor_index p \<and>
         dmp_verify t (child_a p) \<and> dmp_verify t (child_b p) \<and>
         is_on_the_right_of (get_a_node_key p) (get_b_node_key p) = Some is_a_right \<and>
         old_nearest_common_ancestor_value p =
           join_roots t is_a_right (dmp_old_root (child_a p)) (dmp_old_root (child_b p)) \<and>
         new_nearest_common_ancestor_value p =
           join_roots t is_a_right (dmp_new_root (child_a p)) (dmp_new_root (child_b p)))"

lemma u8_lt_64: "unat (x :: u8) = n \<Longrightarrow> x < 64 \<longleftrightarrow> n < 64" "unat (x :: u8) = n \<Longrightarrow> 64 \<le> x \<longleftrightarrow> 64 \<le> n"
  by (simp_all add: word_less_nat_alt word_le_nat_alt)

lemma nca_verify_iff: "nca_verify t p = Some True \<longleftrightarrow> (\<exists>r. nca_checks t p r)"
proof -
  let ?m = "if is_solo_filler p then 0 else 1 :: nat"
  let ?da = "length (dmp_siblings (child_a p)) + ?m" and ?db = "length (dmp_siblings (child_b p)) + ?m"
  obtain r where r: "is_on_the_right_of (get_a_node_key p) (get_b_node_key p) = Some r"
    using on_the_right_total by blast
  show ?thesis
  proof (cases "unat (level_a p) = unat (nearest_common_ancestor_level p) + ?da \<and>
      unat (level_b p) = unat (nearest_common_ancestor_level p) + ?db")
    case True
    note d = u8_level_diff(2)[OF conjunct1[OF True]] u8_level_diff(2)[OF conjunct2[OF True]]
    show ?thesis using True unfolding nca_verify_def nca_checks_def Let_def d u8_lt_64(2)[OF d(1)] u8_lt_64(2)[OF d(2)] r
      by (auto simp: add.assoc)
  next
    case False
    thus ?thesis unfolding nca_verify_def nca_checks_def Let_def by (auto simp: add.assoc)
  qed
qed

lemma nca_validate_iff: "nca_validate t p = Some () \<longleftrightarrow> (\<exists>r. nca_checks t p r)"
proof -
  let ?m = "if is_solo_filler p then 0 else 1 :: nat"
  let ?da = "length (dmp_siblings (child_a p)) + ?m" and ?db = "length (dmp_siblings (child_b p)) + ?m"
  obtain r where r: "is_on_the_right_of (get_a_node_key p) (get_b_node_key p) = Some r"
    using on_the_right_total by blast
  show ?thesis
  proof (cases "unat (level_a p) = unat (nearest_common_ancestor_level p) + ?da \<and>
      unat (level_b p) = unat (nearest_common_ancestor_level p) + ?db")
    case True
    note a = u8_level_diff[OF conjunct1[OF True]] and b = u8_level_diff[OF conjunct2[OF True]]
    show ?thesis using True a(1) b(1) unfolding nca_validate_def nca_checks_def Let_def a(2) b(2)
        u8_lt_64(1)[OF a(2)] u8_lt_64(1)[OF b(2)] r
      by (auto simp: add.assoc bind_eq_Some_conv)
  next
    case False
    thus ?thesis unfolding nca_validate_def nca_checks_def Let_def by (auto simp: add.assoc bind_eq_Some_conv)
  qed
qed

end
