(* ===== verification/Nca_Update.thy ===== *)
theory Nca_Update
  imports Nca_Proof
begin

unbundle bit_operations_syntax

text \<open>
  What the nearest-common-ancestor proofs of \<open>Nca_Proof\<close> establish: an accepted proof whose children
  lie in different halves below the ancestor gives Merkle paths from all four child values, and the
  proofs built from two delta proofs of one tree are accepted and describe the tree with both leaves
  updated.
\<close>

section \<open>Sides of the ancestor\<close>

lemma odd_side: "x div 2 = y div 2 \<Longrightarrow> odd x \<noteq> odd y \<Longrightarrow> (y < x) = odd (x :: nat)"
  by presburger

lemma div_less_iff: "x div m \<noteq> y div m \<Longrightarrow> (y < x) = (y div m < x div (m :: nat))"
proof -
  assume ne: "x div m \<noteq> y div m"
  show ?thesis
  proof
    assume "y < x"
    thus "y div m < x div m" using div_le_mono[of y x m] ne by simp
  next
    assume "y div m < x div m"
    thus "y < x" using div_le_mono[of x y m] by (meson leD leI)
  qed
qed

lemma unat_shr64: "n < 64 \<Longrightarrow> unat (shr64 x n) = unat x div 2 ^ n"
  by (simp only: shr64_small unat_drop_bit_eq) (rule drop_bit_eq_div)

lemma side_of:
  fixes x y :: u64
  assumes "unat x div 2 ^ k = a" "unat y div 2 ^ k = b" "a div 2 = b div 2" "odd a \<noteq> odd b"
  shows "(y < x) = odd a"
proof -
  have "a \<noteq> b" using assms(4) by auto
  hence "(unat y < unat x) = (b < a)" using div_less_iff[of "unat x" "2 ^ k" "unat y"] assms(1,2) by simp
  thus ?thesis using odd_side[OF assms(3,4)] by (simp add: word_less_nat_alt)
qed

lemma ancestor_index:
  assumes "unat la = unat lb + d" "0 < unat lb" "d < 64"
  shows "parent_at_level (Node_Key la x) lb = Some (Node_Key lb (shr64 x d))"
proof -
  have "lb \<le> la" "unat (la - lb) = d" by (rule u8_level_diff[OF assms(1)])+
  moreover have "\<not> la \<le> la - lb" using assms(1,2) calculation(2) by (simp add: word_le_nat_alt)
  ultimately show ?thesis by (simp add: parent_at_level_def n_th_ancestor_def not_less)
qed

text \<open>The keys compare like the bits just below the ancestor.\<close>

lemma right_iff:
  assumes "unat la = l + m + 1" "unat lb = l + n + 1" "m < 63" "n < 63"
    "shr64 x (m + 1) = shr64 y (n + 1)" "bit x m \<noteq> bit y n"
  shows "is_on_the_right_of (Node_Key la x) (Node_Key lb y) = Some (bit x m)"
proof -
  define a where "a = unat x div 2 ^ m"
  define b where "b = unat y div 2 ^ n"
  have "unat x div 2 ^ (m + 1) = unat y div 2 ^ (n + 1)"
    using assms(3,4) arg_cong[OF assms(5), of unat] by (simp only: unat_shr64)
  hence half: "a div 2 = b div 2" unfolding a_def b_def by (simp add: div_mult2_eq[symmetric] mult.commute)
  have odd: "odd a = bit x m" "odd b = bit y n" by (simp_all add: a_def b_def bit_unat_div)
  hence ne: "odd a \<noteq> odd b" using assms(6) by simp
  show ?thesis
  proof (cases rule: linorder_cases[of m n])
    case equal
    hence "lb = la" using assms(1,2) by (simp add: word_unat_eq_iff)
    moreover have "(y < x) = odd a"
      by (rule side_of[of x m a y b]) (use equal half ne in \<open>simp_all add: a_def b_def\<close>)
    ultimately show ?thesis using odd by (auto simp: is_on_the_right_of_def)
  next
    case greater
    have "parent_at_level (Node_Key la x) lb = Some (Node_Key lb (shr64 x (m - n)))"
      by (rule ancestor_index) (use greater assms in simp_all)
    moreover have "lb < la" using greater assms(1,2) by (simp add: word_less_nat_alt)
    moreover have "(y < shr64 x (m - n)) = odd a"
    proof (rule side_of[of "shr64 x (m - n)" n a y b])
      show "unat (shr64 x (m - n)) div 2 ^ n = a" unfolding a_def using greater assms(3)
        by (simp only: unat_shr64[of "m - n"] div_mult2_eq[symmetric] power_add[symmetric]) simp
    qed (use half ne in \<open>simp_all add: b_def\<close>)
    ultimately show ?thesis using odd by (auto simp: is_on_the_right_of_def)
  next
    case less
    have "parent_at_level (Node_Key lb y) la = Some (Node_Key la (shr64 y (n - m)))"
      by (rule ancestor_index) (use less assms in simp_all)
    moreover have "la < lb" using less assms(1,2) by (simp add: word_less_nat_alt)
    moreover have "(shr64 y (n - m) < x) = odd a"
    proof (rule side_of[of x m a "shr64 y (n - m)" b])
      show "unat (shr64 y (n - m)) div 2 ^ m = b" unfolding b_def using less assms(4)
        by (simp only: unat_shr64[of "n - m"] div_mult2_eq[symmetric] power_add[symmetric]) simp
    qed (use half ne in \<open>simp_all add: a_def\<close>)
    ultimately show ?thesis using odd by (auto simp: is_on_the_right_of_def)
  qed
qed

section \<open>Paths through an accepted proof\<close>

definition path_to :: "('h \<Rightarrow> 'h \<Rightarrow> 'h) \<Rightarrow> 'h \<Rightarrow> 'h \<Rightarrow> u64 \<Rightarrow> 'h list \<Rightarrow> bool" where
  "path_to t root v index sibs \<longleftrightarrow>
     mp_verify t \<lparr>mp_root = root, mp_value = v, mp_index = index, mp_siblings = sibs\<rparr>"

lemma path_snoc:
  assumes "path_to t root v index sibs" "length sibs < 64"
  shows "path_to t (if bit index (length sibs) then t s root else t root s) v index (sibs @ [s])"
  using assms bit_test_u64[of "length sibs" index]
  by (auto simp: path_to_def mp_verify_def verify_merkle_proof_core_def root_loop_append
      simp del: shl64_small)

lemma delta_paths:
  "dmp_verify t p \<Longrightarrow> path_to t (dmp_old_root p) (dmp_old_value p) (dmp_index p) (dmp_siblings p)"
  "dmp_verify t p \<Longrightarrow> path_to t (dmp_new_root p) (dmp_new_value p) (dmp_index p) (dmp_siblings p)"
  by (auto simp: path_to_def mp_verify_def dmp_verify_def verify_merkle_proof_core_def
      verify_delta_merkle_proof_core_def)

definition opposite_halves :: "'h nca_update \<Rightarrow> bool" where
  "opposite_halves p \<longleftrightarrow>
     bit (dmp_index (child_a p)) (length (dmp_siblings (child_a p))) \<noteq>
     bit (dmp_index (child_b p)) (length (dmp_siblings (child_b p)))"

lemma accepted_paths:
  assumes "nca_verify t p = Some True" "opposite_halves p"
  defines "a \<equiv> child_a p" and "b \<equiv> child_b p"
  shows "path_to t (old_nearest_common_ancestor_value p) (dmp_old_value a) (dmp_index a) (dmp_siblings a @ [dmp_old_root b])"
    "path_to t (new_nearest_common_ancestor_value p) (dmp_new_value a) (dmp_index a) (dmp_siblings a @ [dmp_new_root b])"
    "path_to t (old_nearest_common_ancestor_value p) (dmp_old_value b) (dmp_index b) (dmp_siblings b @ [dmp_old_root a])"
    "path_to t (new_nearest_common_ancestor_value p) (dmp_new_value b) (dmp_index b) (dmp_siblings b @ [dmp_new_root a])"
proof -
  let ?m = "length (dmp_siblings a)" and ?n = "length (dmp_siblings b)"
  have "\<not> is_solo_filler p" using assms(2) by (auto simp: opposite_halves_def is_solo_filler_def)
  then obtain r where c: "unat (level_a p) = unat (nearest_common_ancestor_level p) + ?m + 1"
      "unat (level_b p) = unat (nearest_common_ancestor_level p) + ?n + 1" "?m < 63" "?n < 63"
      "shr64 (dmp_index a) (?m + 1) = shr64 (dmp_index b) (?n + 1)"
    and va: "dmp_verify t a" and vb: "dmp_verify t b"
    and r: "is_on_the_right_of (Node_Key (level_a p) (dmp_index a)) (Node_Key (level_b p) (dmp_index b)) = Some r"
    and o: "old_nearest_common_ancestor_value p = join_roots t r (dmp_old_root a) (dmp_old_root b)"
    and nw: "new_nearest_common_ancestor_value p = join_roots t r (dmp_new_root a) (dmp_new_root b)"
    using assms(1) unfolding nca_verify_iff nca_checks_def get_a_node_key_def get_b_node_key_def a_def b_def
    by (auto simp: Let_def)
  have ne: "bit (dmp_index a) ?m \<noteq> bit (dmp_index b) ?n" using assms(2) by (simp add: opposite_halves_def a_def b_def)
  have ra: "r = bit (dmp_index a) ?m" using right_iff[OF c ne] r by simp
  have rb: "r = (\<not> bit (dmp_index b) ?n)" using ra ne by blast
  have l: "?m < 64" "?n < 64" using c(3,4) by simp_all
  show "path_to t (old_nearest_common_ancestor_value p) (dmp_old_value a) (dmp_index a) (dmp_siblings a @ [dmp_old_root b])"
    using path_snoc[OF delta_paths(1)[OF va] l(1), of "dmp_old_root b"] by (simp add: o ra join_roots_def)
  show "path_to t (new_nearest_common_ancestor_value p) (dmp_new_value a) (dmp_index a) (dmp_siblings a @ [dmp_new_root b])"
    using path_snoc[OF delta_paths(2)[OF va] l(1), of "dmp_new_root b"] by (simp add: nw ra join_roots_def)
  show "path_to t (old_nearest_common_ancestor_value p) (dmp_old_value b) (dmp_index b) (dmp_siblings b @ [dmp_old_root a])"
    using path_snoc[OF delta_paths(1)[OF vb] l(2), of "dmp_old_root a"] rb by (simp add: o join_roots_def split: if_splits)
  show "path_to t (new_nearest_common_ancestor_value p) (dmp_new_value b) (dmp_index b) (dmp_siblings b @ [dmp_new_root a])"
    using path_snoc[OF delta_paths(2)[OF vb] l(2), of "dmp_new_root a"] rb by (simp add: nw join_roots_def split: if_splits)
qed

section \<open>The tree with one and two leaves updated\<close>

lemma take_ref_siblings: "m \<le> h \<Longrightarrow> take m (ref_siblings t f j 0 h) = ref_siblings t f j 0 m"
  by (simp add: ref_siblings_def take_map)

lemma drop_ref_siblings: "drop m (ref_siblings t f j 0 h) = ref_siblings t f j m h"
  by (simp add: ref_siblings_def drop_map)

lemma length_ref_siblings [simp]: "length (ref_siblings t f j i h) = h - i"
  by (simp add: ref_siblings_def)

lemma root_loop_leaf:
  assumes "m \<le> 64"
  shows "root_loop t index 0 v (ref_siblings t f (unat index) 0 m) =
    mnode t (f(unat index := v)) m (unat index div 2 ^ m)"
proof -
  have "ref_siblings t f (unat index) 0 m = ref_siblings t (f(unat index := v)) (unat index) 0 m"
    by (rule ref_siblings_cong) simp
  thus ?thesis using root_loop_ref[of 0 m t index "f(unat index := v)"] assms by simp
qed

text \<open>Two positions that part \<open>d\<close> levels above the leaves.\<close>

definition part_at :: "nat \<Rightarrow> nat \<Rightarrow> nat \<Rightarrow> bool" where
  "part_at d i j \<longleftrightarrow> 0 < d \<and> i div 2 ^ d = j div 2 ^ d \<and> i div 2 ^ (d - 1) \<noteq> j div 2 ^ (d - 1)"

lemma part_at_above: "part_at d i j \<Longrightarrow> d \<le> n \<Longrightarrow> i div 2 ^ n = j div 2 ^ n"
proof -
  assume p: "part_at d i j" and "d \<le> n"
  then obtain m where n: "n = d + m" using le_Suc_ex by blast
  show ?thesis using p unfolding n power_add div_mult2_eq by (simp add: part_at_def)
qed

lemma part_at_neq: "part_at d i j \<Longrightarrow> i \<noteq> j"
  by (auto simp: part_at_def)

lemma above_siblings:
  assumes "part_at d i j" "\<And>k. k \<noteq> i \<Longrightarrow> k \<noteq> j \<Longrightarrow> f k = g k"
  shows "ref_siblings t f i d h = ref_siblings t g j d h"
proof -
  have "mnode t f n (sib_index (i div 2 ^ n)) = mnode t g n (sib_index (j div 2 ^ n))" if "d \<le> n" for n
  proof -
    have e: "i div 2 ^ n = j div 2 ^ n" using part_at_above[OF assms(1) that] .
    show ?thesis unfolding e
      by (rule mnode_other, rule assms(2)) (metis e sib_index_neq)+
  qed
  thus ?thesis by (simp add: ref_siblings_def)
qed

text \<open>Joining the two subtree roots gives the node of the ancestor.\<close>

lemma join_subtrees:
  assumes "part_at d i j" "r = (j < i)"
  shows "join_roots t r (mnode t f (d - 1) (i div 2 ^ (d - 1))) (mnode t f (d - 1) (j div 2 ^ (d - 1))) =
    mnode t f d (i div 2 ^ d)"
proof -
  obtain e where d: "d = Suc e" using assms(1) by (cases d) (auto simp: part_at_def)
  define a where "a = i div 2 ^ e"
  define b where "b = j div 2 ^ e"
  have ne: "a \<noteq> b" and half: "a div 2 = b div 2" and top: "i div 2 ^ d = a div 2"
    using assms(1) by (simp_all add: part_at_def d a_def b_def div_mult2_eq[symmetric] mult.commute)
  have "r = (b < a)" using div_less_iff[of i "2 ^ e" j] ne assms(2) by (simp add: a_def b_def)
  moreover have "b = sib_index a" "(b < a) = odd a" using ne half by (auto simp: sib_index_def) presburger+
  ultimately show ?thesis unfolding top
    by (simp add: d mnode_sib join_roots_def a_def[symmetric] b_def[symmetric] del: mnode.simps)
qed

section \<open>The nearest common ancestor of two leaves\<close>

lemma anc_div: "is_anc c (Node_Key l x) \<Longrightarrow> lev c \<le> unat l \<and> unat x div 2 ^ (unat l - lev c) = unat (nk_index c)"
  unfolding is_anc_def by (auto simp: unat_drop_bit_eq drop_bit_eq_div[symmetric])

lemma nca_part_ordered:
  assumes "valid_key (Node_Key l x)" "valid_key (Node_Key l y)" "x < y"
    "is_nca c (Node_Key l x) (Node_Key l y)"
  shows "lev c < unat l" "part_at (unat l - lev c) (unat x) (unat y)"
proof -
  note sp = nca_split[OF assms(1,2) _ _ assms(4)]
  have lt: "Node_Key l x < Node_Key l y" using assms(3) by (simp add: less_node_key_def)
  have c: "is_anc (left_child c) (Node_Key l x)" "is_anc (right_child c) (Node_Key l y)" "lev c < unat l"
    using sp(1,2,4) lt by simp_all
  show "lev c < unat l" by (rule c(3))
  have l64: "lev c < 64" using c(3) assms(1) by (simp add: valid_key_def)
  have "nk_index (left_child c) \<noteq> nk_index (right_child c)"
    using left_neq_right[of c] by (simp add: left_child_def right_child_def)
  hence ne: "unat x div 2 ^ (unat l - Suc (lev c)) \<noteq> unat y div 2 ^ (unat l - Suc (lev c))"
    using anc_div[OF c(1)] anc_div[OF c(2)] lev_child[OF l64] by (simp add: word_unat_eq_iff)
  have "unat x div 2 ^ (unat l - lev c) = unat y div 2 ^ (unat l - lev c)"
    using assms(4) anc_div[of c l x] anc_div[of c l y] by (simp add: is_nca_def)
  thus "part_at (unat l - lev c) (unat x) (unat y)" using ne c(3) by (simp add: part_at_def)
qed

lemma part_at_sym: "part_at d i j \<longleftrightarrow> part_at d j i"
  by (auto simp: part_at_def)

lemma drop_bit_small: "unat x < 2 ^ h \<Longrightarrow> drop_bit h x = 0" for x :: u64
  unfolding word_unat_eq_iff unat_drop_bit_eq by (simp add: drop_bit_eq_div[where 'a = nat])

lemma leaf_nca:
  assumes "h < 64" "unat x < 2 ^ h" "unat y < 2 ^ h" "x \<noteq> y"
  obtains c d where "find_nearest_common_ancestor (Node_Key (of_nat h) x) (Node_Key (of_nat h) y) = Some c"
    "unat (of_nat h - nk_level c) = d" "lev c + d = h" "part_at d (unat x) (unat y)"
proof -
  let ?l = "of_nat h :: u8"
  have l: "unat ?l = h" using assms(1) by (simp add: unat_of_nat)
  have v: "valid_key (Node_Key ?l x)" "valid_key (Node_Key ?l y)"
    using assms l by (simp_all add: valid_key_def drop_bit_small)
  obtain c where c: "find_nearest_common_ancestor (Node_Key ?l x) (Node_Key ?l y) = Some c"
    "is_nca c (Node_Key ?l x) (Node_Key ?l y)"
    using find_nca_correct[OF v] by blast
  have "lev c < h \<and> part_at (h - lev c) (unat x) (unat y)"
  proof (cases "x < y")
    case True
    thus ?thesis using nca_part_ordered[OF v True c(2)] l by simp
  next
    case False
    hence "y < x" using assms(4) by simp
    thus ?thesis using nca_part_ordered[OF v(2,1)] c(2) l part_at_sym is_nca_comm by metis
  qed
  moreover from this have "unat (?l - nk_level c) = h - lev c"
    using u8_level_diff(2)[of ?l "nk_level c" "h - lev c"] l by simp
  ultimately show ?thesis using that c(1) by (metis le_add_diff_inverse less_imp_le)
qed

section \<open>Built proofs\<close>

text \<open>A delta proof of leaf \<open>index\<close> of the tree over \<open>f\<close>, from \<open>old\<close> to \<open>new\<close>.\<close>

definition ref_delta :: "('h \<Rightarrow> 'h \<Rightarrow> 'h) \<Rightarrow> (nat \<Rightarrow> 'h) \<Rightarrow> nat \<Rightarrow> u64 \<Rightarrow> 'h \<Rightarrow> 'h \<Rightarrow> 'h delta_merkle_proof" where
  "ref_delta t f h index old new = dmp_from_params t index old new (ref_siblings t f (unat index) 0 h)"

lemma ref_delta_fields [simp]:
  "dmp_index (ref_delta t f h x u v) = x" "dmp_old_value (ref_delta t f h x u v) = u"
  "dmp_new_value (ref_delta t f h x u v) = v"
  "dmp_siblings (ref_delta t f h x u v) = ref_siblings t f (unat x) 0 h"
  by (simp_all add: ref_delta_def dmp_from_params_def)

lemma ref_delta_roots:
  assumes "h \<le> 64"
  shows "dmp_old_root (ref_delta t f h x u v) = mnode t (f(unat x := u)) h (unat x div 2 ^ h)"
    "dmp_new_root (ref_delta t f h x u v) = mnode t (f(unat x := v)) h (unat x div 2 ^ h)"
  using root_loop_leaf[OF assms]
  by (simp_all add: ref_delta_def dmp_from_params_def compute_root_merkle_proof_generic_def)

lemma from_params_verifies: "length ss \<le> 64 \<Longrightarrow> dmp_verify t (dmp_from_params t x u v ss)"
  by (simp add: dmp_verify_def verify_delta_merkle_proof_core_def dmp_from_params_def
      compute_root_merkle_proof_generic_def)

lemma shorten_ref_delta:
  "m < h \<Longrightarrow> shorten_height t (ref_delta t f h x u v) m = Some (ref_delta t f m x u v)"
  by (simp add: shorten_height_def take_ref_siblings) (simp add: ref_delta_def)

lemma pred_usize_pos [simp]: "0 < d \<Longrightarrow> pred_usize d = d - 1"
  by (simp add: pred_usize_def)

text \<open>The partial proof with its link, for two leaves of one tree.\<close>

lemma link_from_ref:
  assumes "h < 64" "unat x < 2 ^ h" "unat y < 2 ^ h" "x \<noteq> y" "\<And>k. k \<noteq> unat x \<Longrightarrow> g k = f k"
  obtains d l where "part_at d (unat x) (unat y)" "unat l + d = h"
    "link_from_delta_merkle_proof_pair t (ref_delta t f h x u v) (ref_delta t g h y u' v') =
     Some \<lparr>pl_nca_proof = \<lparr>p_child_a = ref_delta t f (d - 1) x u v, p_child_b = ref_delta t g (d - 1) y u' v',
             p_nca_level = l\<rparr>, link_siblings = ref_siblings t f (unat x) d h\<rparr>"
proof -
  obtain c d where c: "find_nearest_common_ancestor (Node_Key (of_nat h) x) (Node_Key (of_nat h) y) = Some c"
    "unat (of_nat h - nk_level c) = d" "lev c + d = h" "part_at d (unat x) (unat y)"
    using leaf_nca[OF assms(1-4)] by blast
  have d: "0 < d" "d \<le> h" "d - 1 < h" using c(3,4) by (auto simp: part_at_def)
  have s: "ref_siblings t g (unat y) d h = ref_siblings t f (unat x) d h"
    using above_siblings[OF c(4), of f g] assms(5) by simp
  have "link_from_delta_merkle_proof_pair t (ref_delta t f h x u v) (ref_delta t g h y u' v') =
     Some \<lparr>pl_nca_proof = \<lparr>p_child_a = ref_delta t f (d - 1) x u v, p_child_b = ref_delta t g (d - 1) y u' v',
             p_nca_level = nk_level c\<rparr>, link_siblings = ref_siblings t f (unat x) d h\<rparr>"
    using assms(1,4) c(1,2) d
    by (simp add: link_from_delta_merkle_proof_pair_def checked_merkle_height_def tail_from_def
        drop_ref_siblings s shorten_ref_delta)
  thus ?thesis using that[OF c(4,3)] by blast
qed

text \<open>The values of the ancestor before and after.\<close>

lemma nca_values:
  assumes "part_at d i j" "i = unat x" "j = unat y" "d \<le> 64" "\<And>k. k \<noteq> i \<Longrightarrow> g k = f k"
    "r = (j < i)"
  shows "join_roots t r (dmp_old_root (ref_delta t f (d - 1) x (f i) v)) (dmp_old_root (ref_delta t g (d - 1) y (f j) w)) =
      mnode t f d (i div 2 ^ d)"
    "join_roots t r (dmp_new_root (ref_delta t f (d - 1) x (f i) v)) (dmp_new_root (ref_delta t g (d - 1) y (f j) w)) =
      mnode t (f(i := v, j := w)) d (i div 2 ^ d)"
proof -
  have m: "d - 1 \<le> 64" using assms(4) by simp
  have ne: "i div 2 ^ (d - 1) \<noteq> j div 2 ^ (d - 1)" using assms(1) by (simp add: part_at_def)
  have a: "mnode t (f(i := v)) (d - 1) (i div 2 ^ (d - 1)) = mnode t (f(i := v, j := w)) (d - 1) (i div 2 ^ (d - 1))"
    by (rule mnode_other) (use ne in auto)
  have g: "g k = f k \<and> k \<noteq> i" if "k div 2 ^ (d - 1) = j div 2 ^ (d - 1)" for k
    using that ne assms(5) by (cases "k = i") auto
  have b: "mnode t (g(j := f j)) (d - 1) (j div 2 ^ (d - 1)) = mnode t f (d - 1) (j div 2 ^ (d - 1))"
    by (rule mnode_other) (simp add: g)
  have b': "mnode t (g(j := w)) (d - 1) (j div 2 ^ (d - 1)) = mnode t (f(i := v, j := w)) (d - 1) (j div 2 ^ (d - 1))"
    by (rule mnode_other) (simp add: g)
  show "join_roots t r (dmp_old_root (ref_delta t f (d - 1) x (f i) v)) (dmp_old_root (ref_delta t g (d - 1) y (f j) w)) =
      mnode t f d (i div 2 ^ d)"
    unfolding ref_delta_roots[OF m] assms(2,3)[symmetric] b fun_upd_triv by (rule join_subtrees[OF assms(1,6)])
  show "join_roots t r (dmp_new_root (ref_delta t f (d - 1) x (f i) v)) (dmp_new_root (ref_delta t g (d - 1) y (f j) w)) =
      mnode t (f(i := v, j := w)) d (i div 2 ^ d)"
    unfolding ref_delta_roots[OF m] assms(2,3)[symmetric] a b' by (rule join_subtrees[OF assms(1,6)])
qed

lemma link_roots:
  assumes "d \<le> h" "h \<le> 64" "unat x < 2 ^ h" "d < 64"
  shows "root_loop t (shr64 x d) 0 (mnode t f d (unat x div 2 ^ d)) (ref_siblings t f (unat x) d h) = mnode t f h 0"
proof -
  have "root_loop t x (0 + d) (mnode t f d (unat x div 2 ^ d)) (ref_siblings t f (unat x) d h) =
      root_loop t (drop_bit d x) 0 (mnode t f d (unat x div 2 ^ d)) (ref_siblings t f (unat x) d h)"
    by (rule root_loop_shift) (use assms in simp)
  thus ?thesis using root_loop_ref[OF assms(1,2), of t x f] assms(3,4) by simp
qed

lemma level_of_child:
  assumes "unat l + d = h" "0 < d" "h < 64"
  shows "checked_child_level \<lparr>p_child_a = a, p_child_b = b, p_nca_level = l\<rparr> (d - 1) = Some (of_nat h)"
  using assms by (simp add: checked_child_level_def Let_def)

lemma full_from_ref:
  assumes "part_at d (unat x) (unat y)" "unat l + d = h" "h < 64" "\<And>k. k \<noteq> unat x \<Longrightarrow> g k = f k"
  defines "i \<equiv> unat x" and "j \<equiv> unat y"
  shows "to_full_proof t \<lparr>p_child_a = ref_delta t f (d - 1) x (f i) v,
      p_child_b = ref_delta t g (d - 1) y (f j) w, p_nca_level = l\<rparr> =
    Some \<lparr>old_nearest_common_ancestor_value = mnode t f d (i div 2 ^ d),
      new_nearest_common_ancestor_value = mnode t (f(i := v, j := w)) d (i div 2 ^ d),
      child_a = ref_delta t f (d - 1) x (f i) v, child_b = ref_delta t g (d - 1) y (f j) w,
      nearest_common_ancestor_level = l, nearest_common_ancestor_index = shr64 x d,
      level_a = of_nat h, level_b = of_nat h\<rparr>"
proof -
  have d: "0 < d" "d - 1 + 1 = d" "d < 64" using assms(1-3) by (auto simp: part_at_def)
  have p: "part_at d i j" using assms(1) by (simp add: i_def j_def)
  have gi: "\<And>k. k \<noteq> i \<Longrightarrow> g k = f k" using assms(4) by (simp add: i_def)
  note vals = nca_values[where f = f and g = g and t = t and v = v and w = w, OF p _ _ less_imp_le[OF d(3)] gi refl,
      of x y, OF i_def[THEN meta_eq_to_obj_eq] j_def[THEN meta_eq_to_obj_eq]]
  have r: "is_on_the_right_of (Node_Key (of_nat h) x) (Node_Key (of_nat h) y) = Some (j < i)"
    by (simp add: is_on_the_right_of_def i_def j_def word_less_nat_alt)
  show ?thesis
    unfolding to_full_proof_def compute_old_nca_value_def compute_new_nca_value_def p_get_a_node_key_def
      p_get_b_node_key_def get_level_a_def get_level_b_def get_nca_index_def
    by (simp add: level_of_child[OF assms(2) d(1) assms(3), simplified] r d del: shr64_small)
      (use vals in simp)
qed

lemma built_verifies:
  assumes "part_at d (unat x) (unat y)" "unat l + d = h" "h < 64"
    "to_full_proof t \<lparr>p_child_a = ref_delta t f (d - 1) x u v, p_child_b = ref_delta t g (d - 1) y u' v',
      p_nca_level = l\<rparr> = Some p"
  shows "nca_verify t p = Some True"
proof -
  let ?a = "ref_delta t f (d - 1) x u v" and ?b = "ref_delta t g (d - 1) y u' v'"
  have d: "0 < d" "d - 1 + 1 = d" "d < 64" using assms(1-3) by (auto simp: part_at_def)
  have h: "unat (of_nat h :: u8) = unat l + d" using assms(2,3) by (simp add: unat_of_nat)
  have lv: "get_level_a \<lparr>p_child_a = ?a, p_child_b = ?b, p_nca_level = l\<rparr> = Some (of_nat h)"
    "get_level_b \<lparr>p_child_a = ?a, p_child_b = ?b, p_nca_level = l\<rparr> = Some (of_nat h)"
    using level_of_child[OF assms(2) d(1) assms(3)] by (simp_all add: get_level_a_def get_level_b_def)
  have "x \<noteq> y" using part_at_neq[OF assms(1)] by auto
  hence ne: "?a \<noteq> ?b" by (metis ref_delta_fields(1))
  have eq: "unat x div 2 ^ d = unat y div 2 ^ d" using assms(1) by (simp add: part_at_def)
  have sh: "shr64 y d = shr64 x d" using d(3) eq by (simp only: word_unat_eq_iff unat_shr64)
  have v: "dmp_verify t ?a" "dmp_verify t ?b" using d(3) by (simp_all add: ref_delta_def from_params_verifies)
  obtain r where r: "is_on_the_right_of (Node_Key (of_nat h) x) (Node_Key (of_nat h) y) = Some r"
    using on_the_right_total by blast
  have p: "p = \<lparr>old_nearest_common_ancestor_value = join_roots t r (dmp_old_root ?a) (dmp_old_root ?b),
      new_nearest_common_ancestor_value = join_roots t r (dmp_new_root ?a) (dmp_new_root ?b),
      child_a = ?a, child_b = ?b, nearest_common_ancestor_level = l,
      nearest_common_ancestor_index = shr64 x d, level_a = of_nat h, level_b = of_nat h\<rparr>"
    using assms(4) d unfolding to_full_proof_def compute_old_nca_value_def compute_new_nca_value_def
      p_get_a_node_key_def p_get_b_node_key_def lv get_nca_index_def
    by (simp add: r del: shr64_small)
  show ?thesis unfolding nca_verify_iff nca_checks_def
    by (rule exI[of _ r]) (use ne h v d r sh in
        \<open>simp add: p is_solo_filler_def get_a_node_key_def get_b_node_key_def del: shr64_small\<close>)
qed

lemma built_link:
  assumes "h < 64" "unat x < 2 ^ h" "unat y < 2 ^ h" "x \<noteq> y" "\<And>k. k \<noteq> unat x \<Longrightarrow> g k = f k"
  shows "\<exists>q. full_link_from_pair t (ref_delta t f h x (f (unat x)) v) (ref_delta t g h y (f (unat y)) w) = Some q \<and>
    link_verify t q = Some True \<and>
    dmp_old_root (link_proof q) = mnode t f h 0 \<and>
    dmp_new_root (link_proof q) = mnode t (f(unat x := v, unat y := w)) h 0"
proof -
  let ?F = "f(unat x := v, unat y := w)"
  obtain d l where dl: "part_at d (unat x) (unat y)" "unat l + d = h" and
    pair: "link_from_delta_merkle_proof_pair t (ref_delta t f h x (f (unat x)) v) (ref_delta t g h y (f (unat y)) w) =
     Some \<lparr>pl_nca_proof = \<lparr>p_child_a = ref_delta t f (d - 1) x (f (unat x)) v,
        p_child_b = ref_delta t g (d - 1) y (f (unat y)) w, p_nca_level = l\<rparr>,
        link_siblings = ref_siblings t f (unat x) d h\<rparr>"
    using link_from_ref[where f = f and g = g, OF assms] by metis
  note full = full_from_ref[where f = f and g = g and t = t and v = v and w = w, OF dl assms(1,5)]
  note ver = built_verifies[OF dl assms(1) full]
  have d: "d \<le> h" "h \<le> 64" "d < 64" using dl(2) assms(1) by simp_all
  have "ref_siblings t f (unat x) d h = ref_siblings t ?F (unat y) d h"
    by (rule above_siblings[OF dl(1)]) simp
  also have "\<dots> = ref_siblings t ?F (unat x) d h"
    using above_siblings[OF dl(1), of ?F ?F] by simp
  finally have s: "ref_siblings t f (unat x) d h = ref_siblings t ?F (unat x) d h" .
  have "root_loop t (shr64 x d) 0 (mnode t f d (unat x div 2 ^ d)) (ref_siblings t f (unat x) d h) = mnode t f h 0"
    "root_loop t (shr64 x d) 0 (mnode t ?F d (unat x div 2 ^ d)) (ref_siblings t f (unat x) d h) = mnode t ?F h 0"
    unfolding s using link_roots[OF d(1,2) assms(2) d(3)] s by metis+
  thus ?thesis using ver d
    by (simp add: dmp_verify_def verify_delta_merkle_proof_core_def full_link_from_pair_def pair link_to_full_proof_def full[unfolded One_nat_def] link_verify_def
        dmp_from_params_def compute_root_merkle_proof_generic_def del: shr64_small)
qed

section \<open>Positions the verifier does not bind\<close>

text \<open>
  Both children may claim the same slot: the verifier hashes the second one into the right slot
  without comparing the bit of its index just below the ancestor.
\<close>

lemma verify_accepts_one_slot:
  assumes "(u, u') \<noteq> (v, v')"
  shows "nca_verify t \<lparr>old_nearest_common_ancestor_value = t u v, new_nearest_common_ancestor_value = t u' v',
      child_a = single_value 0 u u', child_b = single_value 0 v v',
      nearest_common_ancestor_level = 0, nearest_common_ancestor_index = 0, level_a = 1, level_b = 1\<rparr> = Some True"
proof -
  have "single_value 0 u u' \<noteq> single_value 0 v v'" using assms by (auto simp: single_value_def)
  thus ?thesis unfolding nca_verify_iff nca_checks_def
    by (intro exI[of _ False]) (simp add: is_solo_filler_def get_a_node_key_def get_b_node_key_def
        is_on_the_right_of_def join_roots_def dmp_verify_def verify_delta_merkle_proof_core_def single_value_def)
qed

text \<open>The link may start at any position: its index is not compared with that of the ancestor.\<close>

lemma link_verify_any_index:
  assumes "nca_verify t p = Some True" "length sibs \<le> 64"
  shows "link_verify t \<lparr>l_nca_proof = p, link_proof = dmp_from_params t index
      (old_nearest_common_ancestor_value p) (new_nearest_common_ancestor_value p) sibs\<rparr> = Some True"
  using assms from_params_verifies[OF assms(2)] by (simp add: link_verify_def) (simp add: dmp_from_params_def)

section \<open>Properties\<close>

text \<open>
  C8. Building a linked proof from two delta proofs of one tree succeeds and is right. Take a tree of
  height below 64 over the leaves \<open>f\<close>, a proof that changes leaf \<open>x\<close> to \<open>v\<close>, and a proof that changes
  leaf \<open>y\<close> to \<open>w\<close> made before or after the first change. The construction does not panic, the result is
  accepted, and its link goes from the root of the tree to the root of the tree with both changes.
\<close>

theorem nca_link_updates_both:
  assumes "h < 64" "unat x < 2 ^ h" "unat y < 2 ^ h" "x \<noteq> y" "g = f \<or> g = f(unat x := v)"
  shows "\<exists>q. full_link_from_pair t (ref_delta t f h x (f (unat x)) v) (ref_delta t g h y (f (unat y)) w) = Some q \<and>
    link_verify t q = Some True \<and>
    dmp_old_root (link_proof q) = mnode t f h 0 \<and>
    dmp_new_root (link_proof q) = mnode t (f(unat x := v, unat y := w)) h 0"
  using built_link[where f = f and g = g, OF assms(1-4)] assms(5) by fastforce

theorem nca_link_updates_both_witness:
  "\<exists>q. full_link_from_pair (\<lambda>l r. 2 * l + 3 * r) (ref_delta (\<lambda>l r. 2 * l + 3 * r) (\<lambda>k. k) 3 2 2 20)
      (ref_delta (\<lambda>l r. 2 * l + 3 * r) ((\<lambda>k. k)(2 := 20)) 3 7 7 (70 :: nat)) = Some q \<and>
    link_verify (\<lambda>l r. 2 * l + 3 * r) q = Some True \<and>
    dmp_new_root (link_proof q) = mnode (\<lambda>l r. 2 * l + 3 * r) ((\<lambda>k. k)(2 := 20, 7 := 70)) 3 0"
  using nca_link_updates_both[of 3 2 7 "(\<lambda>k. k)(2 := 20)" "\<lambda>k. k" 20 "\<lambda>l r. 2 * l + 3 * r" 70] by auto

text \<open>
  C14. Soundness of an accepted update: when the children lie in different halves below the ancestor,
  each child's old and new value has a Merkle path to the ancestor's old and new value, whose last
  sibling is the old or new root of the other child.
\<close>

theorem nca_accepted_paths:
  assumes "nca_verify t p = Some True" "opposite_halves p"
  shows "path_to t (old_nearest_common_ancestor_value p) (dmp_old_value (child_a p)) (dmp_index (child_a p))
        (dmp_siblings (child_a p) @ [dmp_old_root (child_b p)]) \<and>
      path_to t (new_nearest_common_ancestor_value p) (dmp_new_value (child_a p)) (dmp_index (child_a p))
        (dmp_siblings (child_a p) @ [dmp_new_root (child_b p)]) \<and>
      path_to t (old_nearest_common_ancestor_value p) (dmp_old_value (child_b p)) (dmp_index (child_b p))
        (dmp_siblings (child_b p) @ [dmp_old_root (child_a p)]) \<and>
      path_to t (new_nearest_common_ancestor_value p) (dmp_new_value (child_b p)) (dmp_index (child_b p))
        (dmp_siblings (child_b p) @ [dmp_new_root (child_a p)])"
  using accepted_paths[OF assms] by blast

theorem nca_accepted_paths_witness:
  "path_to (\<lambda>l r. 2 * l + 3 * r) 23 (5 :: nat) 1 [4]"
proof -
  let ?p = "\<lparr>old_nearest_common_ancestor_value = 23, new_nearest_common_ancestor_value = 26,
      child_a = single_value 1 5 6, child_b = single_value 0 4 4,
      nearest_common_ancestor_level = 0, nearest_common_ancestor_index = 0, level_a = 1, level_b = 1\<rparr> :: nat nca_update"
  have "nca_verify (\<lambda>l r. 2 * l + 3 * r) ?p = Some True"
    by (simp add: nca_verify_def is_solo_filler_def single_value_def Let_def dmp_verify_def
        verify_delta_merkle_proof_core_def get_a_node_key_def get_b_node_key_def is_on_the_right_of_def join_roots_def word_le_nat_alt)
  moreover have "opposite_halves ?p" by (simp add: opposite_halves_def single_value_def)
  ultimately show ?thesis
    using nca_accepted_paths[of "\<lambda>l r. 2 * l + 3 * r" ?p] by (simp add: single_value_def)
qed

text \<open>
  The panicking and the boolean checker of an update proof agree: \<open>validate\<close> returns exactly when
  \<open>verify\<close> is true, and \<open>verify\<close> itself never panics.
\<close>

lemma nca_validate_agrees:
  "(nca_validate t p = Some () \<longleftrightarrow> nca_verify t p = Some True) \<and> nca_verify t p \<noteq> None"
proof
  show "nca_validate t p = Some () \<longleftrightarrow> nca_verify t p = Some True"
    by (simp only: nca_validate_iff nca_verify_iff)
  obtain r where "is_on_the_right_of (get_a_node_key p) (get_b_node_key p) = Some r"
    using on_the_right_total by blast
  thus "nca_verify t p \<noteq> None" unfolding nca_verify_def Let_def by (simp del: not_None_eq)
qed

text \<open>
  C18. Ordering update proofs by dependencies ends with an order exactly when the counts match, every
  dependency is in range and the dependencies are acyclic, and otherwise with the matching error. The
  levels hold every proof once, none is empty, and each dependency of a proof is in an earlier level.
\<close>

theorem index_levels_topological:
  "case get_index_levels u of
     Inr lv \<Rightarrow> length (dependencies u) = length (nd_nca_proofs u) \<and> dependencies_in_range (dependencies u) \<and>
       (\<exists>rk. dependency_rank (dependencies u) rk) \<and> levels_ok (dependencies u) {} [0..<length (nd_nca_proofs u)] lv
   | Inl Count_Mismatch \<Rightarrow> length (dependencies u) \<noteq> length (nd_nca_proofs u)
   | Inl Dependency_Out_Of_Range \<Rightarrow> length (dependencies u) = length (nd_nca_proofs u) \<and>
       \<not> dependencies_in_range (dependencies u)
   | Inl Unsatisfied_Dependency \<Rightarrow> length (dependencies u) = length (nd_nca_proofs u) \<and>
       dependencies_in_range (dependencies u) \<and> (\<nexists>rk. dependency_rank (dependencies u) rk)"
proof (cases "length (dependencies u) = length (nd_nca_proofs u) \<and> dependencies_in_range (dependencies u)")
  case False
  thus ?thesis using in_range_iff[of "dependencies u"]
    by (auto simp: get_index_levels_def Let_def guard_or_def)
next
  case True
  let ?deps = "dependencies u" and ?n = "length (nd_nca_proofs u)"
  have e: "get_index_levels u = levels_loop ?deps ?n 0 (int ` {}) [0..<?n]"
    using True in_range_iff[of ?deps] by (simp add: get_index_levels_def Let_def)
  show ?thesis
  proof (cases "get_index_levels u")
    case (Inr lv)
    hence "levels_ok ?deps {} [0..<?n] lv" using levels_loop_sound[of ?deps ?n 0 "{}"] e by simp
    thus ?thesis using Inr True levels_give_rank[of ?deps lv] by simp
  next
    case (Inl err)
    hence "err = Unsatisfied_Dependency" using levels_loop_error e by metis
    moreover have "\<nexists>rk. dependency_rank ?deps rk"
    proof
      assume "\<exists>rk. dependency_rank ?deps rk"
      then obtain rk where "dependency_rank ?deps rk" ..
      hence "\<exists>lv. levels_loop ?deps ?n 0 (int ` {}) [0..<?n] = Inr lv"
        by (rule levels_loop_complete) (use True in simp_all)
      thus False using e Inl by auto
    qed
    ultimately show ?thesis using Inl True by simp
  qed
qed

end
