(* ===== verification/Nca_Wire.thy ===== *)
theory Nca_Wire
  imports Nca_Proof
begin

text \<open>
  The canonical serialization of the nearest-common-ancestor proofs, the fallback implementations in
  \<open>src/parth_core/src/crypto/hash/nca/nca_proof.rs\<close>. The locale \<open>wire_format\<close> extends a strict codec by a
  writer that may fail and a size function, and is closed under lists.
\<close>

section \<open>Writers and readers\<close>

record 'h nca_top_line =
  tl_nca_proofs :: "'h nca_link list"
  tl_top_line_proof :: "'h delta_merkle_proof"

record 'h partial_nca_top_line =
  ptl_nca_proofs :: "'h partial_nca_update list"
  ptl_top_line_proof :: "'h delta_merkle_proof"

definition nca_serialized_size :: "'h nca_update \<Rightarrow> nat" where
  "nca_serialized_size p =
     32 * 2 + dmp_serialized_size (child_a p) + dmp_serialized_size (child_b p) + 1 + 8 + 1 + 1"

definition nca_write_to_io :: "('h \<Rightarrow> u8 list) \<Rightarrow> 'h nca_update \<Rightarrow> io_error + u8 list" where
  "nca_write_to_io to32 p =
     rbind (dmp_write_to_io to32 (child_a p)) (\<lambda>a.
     rbind (dmp_write_to_io to32 (child_b p)) (\<lambda>b.
       Inr (to32 (old_nearest_common_ancestor_value p) @ to32 (new_nearest_common_ancestor_value p) @ a @ b @
            psy_write_u8 (nearest_common_ancestor_level p) @ psy_write_u64 (nearest_common_ancestor_index p) @
            psy_write_u8 (level_a p) @ psy_write_u8 (level_b p))))"

definition nca_read_from_io :: "(u8 list \<Rightarrow> 'h) \<Rightarrow> (io_error, 'h nca_update) reader" where
  "nca_read_from_io from32 bs =
     rbind (read_hash from32 bs) (\<lambda>(old_value, bs).
     rbind (read_hash from32 bs) (\<lambda>(new_value, bs).
     rbind (dmp_read_from_io from32 bs) (\<lambda>(a, bs).
     rbind (dmp_read_from_io from32 bs) (\<lambda>(b, bs).
     rbind (psy_read_u8 bs) (\<lambda>(nca_level, bs).
     rbind (psy_read_u64 bs) (\<lambda>(nca_index, bs).
     rbind (psy_read_u8 bs) (\<lambda>(la, bs).
     rbind (psy_read_u8 bs) (\<lambda>(lb, bs).
       Inr (\<lparr>old_nearest_common_ancestor_value = old_value, new_nearest_common_ancestor_value = new_value,
              child_a = a, child_b = b, nearest_common_ancestor_level = nca_level,
              nearest_common_ancestor_index = nca_index, level_a = la, level_b = lb\<rparr>, bs)))))))))"

definition partial_nca_serialized_size :: "'h partial_nca_update \<Rightarrow> nat" where
  "partial_nca_serialized_size p = dmp_serialized_size (p_child_a p) + dmp_serialized_size (p_child_b p) + 1"

definition partial_nca_write_to_io :: "('h \<Rightarrow> u8 list) \<Rightarrow> 'h partial_nca_update \<Rightarrow> io_error + u8 list" where
  "partial_nca_write_to_io to32 p =
     rbind (dmp_write_to_io to32 (p_child_a p)) (\<lambda>a.
     rbind (dmp_write_to_io to32 (p_child_b p)) (\<lambda>b. Inr (a @ b @ psy_write_u8 (p_nca_level p))))"

definition partial_nca_read_from_io :: "(u8 list \<Rightarrow> 'h) \<Rightarrow> (io_error, 'h partial_nca_update) reader" where
  "partial_nca_read_from_io from32 bs =
     rbind (dmp_read_from_io from32 bs) (\<lambda>(a, bs).
     rbind (dmp_read_from_io from32 bs) (\<lambda>(b, bs).
     rbind (psy_read_u8 bs) (\<lambda>(nca_level, bs).
       Inr (\<lparr>p_child_a = a, p_child_b = b, p_nca_level = nca_level\<rparr>, bs))))"

definition link_serialized_size :: "'h nca_link \<Rightarrow> nat" where
  "link_serialized_size p = nca_serialized_size (l_nca_proof p) + dmp_serialized_size (link_proof p)"

definition link_write_to_io :: "('h \<Rightarrow> u8 list) \<Rightarrow> 'h nca_link \<Rightarrow> io_error + u8 list" where
  "link_write_to_io to32 p =
     rbind (nca_write_to_io to32 (l_nca_proof p)) (\<lambda>a.
     rbind (dmp_write_to_io to32 (link_proof p)) (\<lambda>b. Inr (a @ b)))"

definition link_read_from_io :: "(u8 list \<Rightarrow> 'h) \<Rightarrow> (io_error, 'h nca_link) reader" where
  "link_read_from_io from32 bs =
     rbind (nca_read_from_io from32 bs) (\<lambda>(a, bs).
     rbind (dmp_read_from_io from32 bs) (\<lambda>(b, bs). Inr (\<lparr>l_nca_proof = a, link_proof = b\<rparr>, bs)))"

text \<open>\<open>for x in xs { x.pio_write_to_io(writer)? }\<close>\<close>

fun write_all :: "('a \<Rightarrow> 'e + u8 list) \<Rightarrow> 'a list \<Rightarrow> 'e + u8 list" where
  "write_all wr [] = Inr []"
| "write_all wr (x # xs) = rbind (wr x) (\<lambda>b. rbind (write_all wr xs) (\<lambda>bs. Inr (b @ bs)))"

definition top_line_serialized_size :: "'h nca_top_line \<Rightarrow> nat" where
  "top_line_serialized_size p =
     4 + sum_list (map link_serialized_size (tl_nca_proofs p)) + dmp_serialized_size (tl_top_line_proof p)"

definition top_line_write_to_io :: "('h \<Rightarrow> u8 list) \<Rightarrow> 'h nca_top_line \<Rightarrow> io_error + u8 list" where
  "top_line_write_to_io to32 p =
     rbind (psy_write_vec_length (length (tl_nca_proofs p))) (\<lambda>n.
     rbind (write_all (link_write_to_io to32) (tl_nca_proofs p)) (\<lambda>ps.
     rbind (dmp_write_to_io to32 (tl_top_line_proof p)) (\<lambda>t. Inr (n @ ps @ t))))"

definition top_line_read_from_io :: "(u8 list \<Rightarrow> 'h) \<Rightarrow> (io_error, 'h nca_top_line) reader" where
  "top_line_read_from_io from32 bs =
     rbind (psy_read_vec_length bs) (\<lambda>(n, bs).
     rbind (read_many n (link_read_from_io from32) bs) (\<lambda>(ps, bs).
     rbind (dmp_read_from_io from32 bs) (\<lambda>(t, bs).
       Inr (\<lparr>tl_nca_proofs = ps, tl_top_line_proof = t\<rparr>, bs))))"

definition partial_top_line_serialized_size :: "'h partial_nca_top_line \<Rightarrow> nat" where
  "partial_top_line_serialized_size p =
     4 + sum_list (map partial_nca_serialized_size (ptl_nca_proofs p)) + dmp_serialized_size (ptl_top_line_proof p)"

definition partial_top_line_write_to_io :: "('h \<Rightarrow> u8 list) \<Rightarrow> 'h partial_nca_top_line \<Rightarrow> io_error + u8 list" where
  "partial_top_line_write_to_io to32 p =
     rbind (psy_write_vec_length (length (ptl_nca_proofs p))) (\<lambda>n.
     rbind (write_all (partial_nca_write_to_io to32) (ptl_nca_proofs p)) (\<lambda>ps.
     rbind (dmp_write_to_io to32 (ptl_top_line_proof p)) (\<lambda>t. Inr (n @ ps @ t))))"

definition partial_top_line_read_from_io :: "(u8 list \<Rightarrow> 'h) \<Rightarrow> (io_error, 'h partial_nca_top_line) reader" where
  "partial_top_line_read_from_io from32 bs =
     rbind (psy_read_vec_length bs) (\<lambda>(n, bs).
     rbind (read_many n (partial_nca_read_from_io from32) bs) (\<lambda>(ps, bs).
     rbind (dmp_read_from_io from32 bs) (\<lambda>(t, bs).
       Inr (\<lparr>ptl_nca_proofs = ps, ptl_top_line_proof = t\<rparr>, bs))))"

section \<open>The contract of a wire format\<close>

text \<open>The reader accepts exactly what the writer produces, and the size is the announced one.\<close>

locale wire_format =
  fixes wr :: "'a \<Rightarrow> 'e + u8 list" and rd :: "('e, 'a) reader" and size :: "'a \<Rightarrow> nat"
  assumes rd_iff: "rd bs = Inr (x, rest) \<longleftrightarrow> (\<exists>out. wr x = Inr out \<and> bs = out @ rest)"
    and wr_size: "wr x = Inr out \<Longrightarrow> length out = size x"
begin

lemma exact:
  "rd bs = Inr (x, rest) \<longleftrightarrow> (\<exists>out. wr x = Inr out \<and> bs = out @ rest \<and> length out = size x)"
  unfolding rd_iff using wr_size by blast

lemma all_iff:
  "read_many n rd bs = Inr (xs, rest) \<longleftrightarrow> length xs = n \<and> (\<exists>out. write_all wr xs = Inr out \<and> bs = out @ rest)"
proof (induction n arbitrary: bs xs)
  case (Suc n)
  show ?case by (cases xs) (auto simp: rbind_Inr rd_iff Suc)
qed auto

lemma all_size: "write_all wr xs = Inr out \<Longrightarrow> length out = sum_list (map size xs)"
  by (induction xs arbitrary: out) (auto simp: rbind_Inr wr_size)

end

lemma u8_iff: "psy_read_u8 bs = Inr (x, rest) \<longleftrightarrow> bs = psy_write_u8 x @ rest"
  unfolding psy_read_u8_def psy_write_u8_def w8.dec_iff le_bytes_1 by simp

lemma vec_length_iff:
  "psy_read_vec_length bs = Inr (n, rest) \<longleftrightarrow> (\<exists>out. psy_write_vec_length n = Inr out \<and> bs = out @ rest)"
  "psy_write_vec_length n = Inr out \<Longrightarrow> length out = 4"
  by (auto simp: vec_len.dec_iff psy_write_vec_length_def psy_write_u32_def len_bytes_def split: if_splits)

context hash32
begin

lemma dmp_canonical:
  assumes "dmp_read_from_io from32 bs = Inr (p, rest)"
  shows "\<exists>out. dmp_write_to_io to32 p = Inr out \<and> bs = out @ rest"
proof -
  obtain old_root old_value new_root new_value index n sibs where *:
    "bs = to32 old_root @ to32 old_value @ to32 new_root @ to32 new_value @ le_bytes 8 index @ len_bytes n @
       concat (map to32 sibs) @ rest"
    "n < 2 ^ 32" "length sibs = n"
    "p = \<lparr>dmp_old_root = old_root, dmp_old_value = old_value, dmp_new_root = new_root,
      dmp_new_value = new_value, dmp_index = index, dmp_siblings = sibs\<rparr>"
    using assms unfolding dmp_read_from_io_def
    by (auto simp: rbind_Inr read_hash_iff read_u64_iff vec_len.dec_iff dest!: hash_codec.many_strict)
  thus ?thesis by (simp add: dmp_write_to_io_def psy_write_vec_length_len psy_write_u64_def)
qed

end

sublocale hash32 \<subseteq> dmp_wire: wire_format "dmp_write_to_io to32" "dmp_read_from_io from32" dmp_serialized_size
  by unfold_locales (use dmp_roundtrip dmp_canonical in blast)+

lemmas nca_wire_defs = nca_write_to_io_def nca_read_from_io_def nca_serialized_size_def
  partial_nca_write_to_io_def partial_nca_read_from_io_def partial_nca_serialized_size_def
  link_write_to_io_def link_read_from_io_def link_serialized_size_def
  top_line_write_to_io_def top_line_read_from_io_def top_line_serialized_size_def
  partial_top_line_write_to_io_def partial_top_line_read_from_io_def partial_top_line_serialized_size_def

lemma bytes_lengths [simp]: "length (psy_write_u8 b) = 1" "length (psy_write_u64 x) = 8"
  by (simp_all add: psy_write_u8_def psy_write_u64_def)

sublocale hash32 \<subseteq> nca_wire: wire_format "nca_write_to_io to32" "nca_read_from_io from32" nca_serialized_size
proof
  fix bs p rest
  show "nca_read_from_io from32 bs = Inr (p, rest) \<longleftrightarrow> (\<exists>out. nca_write_to_io to32 p = Inr out \<and> bs = out @ rest)"
    by (cases p) (auto simp: nca_wire_defs rbind_Inr read_hash_iff dmp_wire.rd_iff u8_iff read_u64_iff psy_write_u64_def)
next
  fix p out
  assume "nca_write_to_io to32 p = Inr out"
  thus "length out = nca_serialized_size p"
    by (auto simp: nca_wire_defs rbind_Inr length_to32 dmp_wire.wr_size)
qed

sublocale hash32 \<subseteq> partial_nca_wire: wire_format "partial_nca_write_to_io to32" "partial_nca_read_from_io from32"
    partial_nca_serialized_size
proof
  fix bs p rest
  show "partial_nca_read_from_io from32 bs = Inr (p, rest) \<longleftrightarrow>
      (\<exists>out. partial_nca_write_to_io to32 p = Inr out \<and> bs = out @ rest)"
    by (cases p) (auto simp: nca_wire_defs rbind_Inr dmp_wire.rd_iff u8_iff)
qed (auto simp: nca_wire_defs rbind_Inr dmp_wire.wr_size)

sublocale hash32 \<subseteq> link_wire: wire_format "link_write_to_io to32" "link_read_from_io from32" link_serialized_size
proof
  fix bs p rest
  show "link_read_from_io from32 bs = Inr (p, rest) \<longleftrightarrow> (\<exists>out. link_write_to_io to32 p = Inr out \<and> bs = out @ rest)"
    by (cases p) (auto simp: link_read_from_io_def link_write_to_io_def rbind_Inr nca_wire.rd_iff dmp_wire.rd_iff)
qed (auto simp: link_write_to_io_def link_serialized_size_def rbind_Inr nca_wire.wr_size dmp_wire.wr_size)

sublocale hash32 \<subseteq> top_line_wire: wire_format "top_line_write_to_io to32" "top_line_read_from_io from32"
    top_line_serialized_size
proof
  fix bs p rest
  show "top_line_read_from_io from32 bs = Inr (p, rest) \<longleftrightarrow>
      (\<exists>out. top_line_write_to_io to32 p = Inr out \<and> bs = out @ rest)"
    by (cases p) (auto simp: top_line_read_from_io_def top_line_write_to_io_def rbind_Inr vec_length_iff(1)
        link_wire.all_iff dmp_wire.rd_iff)
qed (auto simp: top_line_write_to_io_def top_line_serialized_size_def rbind_Inr vec_length_iff(2)
    link_wire.all_size dmp_wire.wr_size)

sublocale hash32 \<subseteq> partial_top_line_wire: wire_format "partial_top_line_write_to_io to32"
    "partial_top_line_read_from_io from32" partial_top_line_serialized_size
proof
  fix bs p rest
  show "partial_top_line_read_from_io from32 bs = Inr (p, rest) \<longleftrightarrow>
      (\<exists>out. partial_top_line_write_to_io to32 p = Inr out \<and> bs = out @ rest)"
    by (cases p) (auto simp: partial_top_line_read_from_io_def partial_top_line_write_to_io_def rbind_Inr
        vec_length_iff(1) partial_nca_wire.all_iff dmp_wire.rd_iff)
qed (auto simp: partial_top_line_write_to_io_def partial_top_line_serialized_size_def rbind_Inr vec_length_iff(2)
    partial_nca_wire.all_size dmp_wire.wr_size)

section \<open>Properties\<close>

text \<open>
  The serialization of nearest-common-ancestor proofs is exact, for the plain and the linked proofs
  and both lists with a top line: the reader accepts exactly what the writer produces, consumes exactly
  those bytes, and their number is the announced size.
\<close>

lemma nca_serialization_exact:
  "(link_read_from_io from_owned_32bytes bs = Inr (p, rest) \<longleftrightarrow>
      (\<exists>out. link_write_to_io into_owned_32bytes p = Inr out \<and> bs = out @ rest \<and> length out = link_serialized_size p)) \<and>
   (top_line_read_from_io from_owned_32bytes bs = Inr (q, rest) \<longleftrightarrow>
      (\<exists>out. top_line_write_to_io into_owned_32bytes q = Inr out \<and> bs = out @ rest \<and>
        length out = top_line_serialized_size q)) \<and>
   (partial_top_line_read_from_io from_owned_32bytes bs = Inr (r, rest) \<longleftrightarrow>
      (\<exists>out. partial_top_line_write_to_io into_owned_32bytes r = Inr out \<and> bs = out @ rest \<and>
        length out = partial_top_line_serialized_size r))"
  by (intro conjI qhash.link_wire.exact qhash.top_line_wire.exact qhash.partial_top_line_wire.exact)

end
