(* ===== verification/Mem_Tree.thy ===== *)
theory Mem_Tree
  imports Dash_Store
begin

text \<open>
  The hash-map store \<open>SimpleMemoryMerkleStoreV3\<close> of \<open>src/parth_common/src/memory_stores/mem_tree_v3.rs\<close>.
  Its methods have the bodies of the trait's provided methods over its own node access, so they are the
  trait's operations at the operations of this store; the whole-tree recomputation reads the map
  directly and is translated on its own.
\<close>

section \<open>Node access\<close>

record 'h v3_store =
  v3_nodes :: "node_key \<Rightarrow> 'h option"
  v3_height :: u8
  v3_zero_value_hashes :: "'h list"

definition v3_new :: "'h hasher \<Rightarrow> u8 \<Rightarrow> 'h v3_store" where
  "v3_new H height = \<lparr>v3_nodes = Map.empty, v3_height = height,
     v3_zero_value_hashes = map (get_zero_hash H) [0..<Suc (unat height)]\<rparr>"

definition v3_into_nodes :: "'h v3_store \<Rightarrow> node_key \<Rightarrow> 'h option" where
  "v3_into_nodes s = v3_nodes s"

definition v3_get_zero_hash_for_level :: "'h v3_store \<Rightarrow> u8 \<Rightarrow> 'h option" where
  "v3_get_zero_hash_for_level s level = vec_get (v3_zero_value_hashes s) (unat (v3_height s - level))"

definition v3_set_node_value :: "'h v3_store \<Rightarrow> node_key \<Rightarrow> 'h \<Rightarrow> 'h v3_store option" where
  "v3_set_node_value s key v =
     do { zero \<leftarrow> v3_get_zero_hash_for_level s (nk_level key);
          Some (if v = zero then s\<lparr>v3_nodes := (v3_nodes s)(key := None)\<rparr>
                else s\<lparr>v3_nodes := (v3_nodes s)(key \<mapsto> v)\<rparr>) }"

definition v3_get_node_value :: "'h v3_store \<Rightarrow> node_key \<Rightarrow> 'h option" where
  "v3_get_node_value s key =
     (case v3_nodes s key of Some v \<Rightarrow> Some v | None \<Rightarrow> v3_get_zero_hash_for_level s (nk_level key))"

definition v3_ops :: "('h v3_store, 'h) store_ops" where
  "v3_ops = \<lparr>op_height = v3_height, op_zero = v3_get_zero_hash_for_level,
     op_set = v3_set_node_value, op_get = v3_get_node_value\<rparr>"

section \<open>Methods\<close>

definition v3_get_max_leaf_index :: "'h v3_store \<Rightarrow> u64" where
  "v3_get_max_leaf_index s = tr_get_max_leaf_index v3_ops s"

definition v3_get_root :: "'h v3_store \<Rightarrow> 'h option" where
  "v3_get_root s = tr_get_root v3_ops s"

definition v3_get_leaf_value :: "'h v3_store \<Rightarrow> u64 \<Rightarrow> 'h option" where
  "v3_get_leaf_value s index = tr_get_leaf_value v3_ops s index"

definition v3_get_leaf :: "'h v3_store \<Rightarrow> u64 \<Rightarrow> 'h merkle_proof option" where
  "v3_get_leaf s index = tr_get_leaf v3_ops s index"

definition v3_find_next_append_index :: "'h v3_store \<Rightarrow> (store_error + u64) option" where
  "v3_find_next_append_index s = tr_find_next_append_index v3_ops s"

definition v3_rehash_from_node_to_level ::
  "('h \<Rightarrow> 'h \<Rightarrow> 'h) \<Rightarrow> 'h v3_store \<Rightarrow> node_key \<Rightarrow> u8 \<Rightarrow> 'h v3_store option" where
  "v3_rehash_from_node_to_level t s node stop_level = tr_rehash_from_node_to_level v3_ops t s node stop_level"

definition v3_rehash_sub_tree :: "('h \<Rightarrow> 'h \<Rightarrow> 'h) \<Rightarrow> 'h v3_store \<Rightarrow> u8 \<Rightarrow> u64 \<Rightarrow> ('h \<times> 'h v3_store) option" where
  "v3_rehash_sub_tree t s n i = tr_rehash_sub_tree v3_ops t s n i"

definition v3_rehash_sub_tree_dmp ::
  "('h \<Rightarrow> 'h \<Rightarrow> 'h) \<Rightarrow> 'h v3_store \<Rightarrow> u8 \<Rightarrow> u64 \<Rightarrow> ('h delta_merkle_proof \<times> 'h v3_store) option" where
  "v3_rehash_sub_tree_dmp t s n i = tr_rehash_sub_tree_dmp v3_ops t s n i"

definition v3_update_sub_tree ::
  "('h \<Rightarrow> 'h \<Rightarrow> 'h) \<Rightarrow> 'h v3_store \<Rightarrow> u8 \<Rightarrow> u64 \<Rightarrow> u64 \<Rightarrow> 'h list \<Rightarrow> ((store_error + 'h) \<times> 'h v3_store) option" where
  "v3_update_sub_tree t s n i offset vs = tr_update_sub_tree v3_ops t s n i offset vs"

definition v3_set_sub_tree_dmp ::
  "('h \<Rightarrow> 'h \<Rightarrow> 'h) \<Rightarrow> 'h v3_store \<Rightarrow> u8 \<Rightarrow> u64 \<Rightarrow> 'h list \<Rightarrow>
   ((store_error + 'h delta_merkle_proof) \<times> 'h v3_store) option" where
  "v3_set_sub_tree_dmp t s n i leaves = tr_set_sub_tree_dmp v3_ops t s n i leaves"

definition v3_append_leaves_spider_man ::
  "('h \<Rightarrow> 'h \<Rightarrow> 'h) \<Rightarrow> 'h v3_store \<Rightarrow> u8 \<Rightarrow> 'h list \<Rightarrow>
   ((store_error + 'h spiderman_update_proof list) \<times> 'h v3_store) option" where
  "v3_append_leaves_spider_man t s n leaves = tr_append_leaves_spider_man v3_ops t s n leaves"

definition v3_set_leaf ::
  "('h \<Rightarrow> 'h \<Rightarrow> 'h) \<Rightarrow> 'h v3_store \<Rightarrow> u64 \<Rightarrow> 'h \<Rightarrow> ('h delta_merkle_proof \<times> 'h v3_store) option" where
  "v3_set_leaf t s index v = tr_set_leaf v3_ops t s index v"

definition v3_set_leaf_no_proof :: "('h \<Rightarrow> 'h \<Rightarrow> 'h) \<Rightarrow> 'h v3_store \<Rightarrow> u64 \<Rightarrow> 'h \<Rightarrow> 'h v3_store option" where
  "v3_set_leaf_no_proof t s index v = tr_set_leaf_no_proof v3_ops t s index v"

definition get_merkle_proofs_for_compact ::
  "'h hasher \<Rightarrow> u64 \<Rightarrow> 'h list \<Rightarrow> 'h list \<Rightarrow> 'h merkle_proof list option" where
  "get_merkle_proofs_for_compact H from_index sibs vs =
     compact_proofs v3_ops (two_to_one H) (v3_new H (of_nat (length sibs))) from_index sibs vs"

section \<open>Recomputing the whole tree\<close>

definition v3_recompute_node :: "('h \<Rightarrow> 'h \<Rightarrow> 'h) \<Rightarrow> 'h \<Rightarrow> 'h v3_store \<Rightarrow> node_key \<Rightarrow> 'h v3_store" where
  "v3_recompute_node t zero_hash s node_key =
     (case (v3_nodes s (left_child node_key), v3_nodes s (right_child node_key)) of
        (None, None) \<Rightarrow> s\<lparr>v3_nodes := (v3_nodes s)(node_key := None)\<rparr>
      | (Some left_hash, None) \<Rightarrow> s\<lparr>v3_nodes := (v3_nodes s)(node_key \<mapsto> t left_hash zero_hash)\<rparr>
      | (None, Some right_hash) \<Rightarrow> s\<lparr>v3_nodes := (v3_nodes s)(node_key \<mapsto> t zero_hash right_hash)\<rparr>
      | (Some left_hash, Some right_hash) \<Rightarrow> s\<lparr>v3_nodes := (v3_nodes s)(node_key \<mapsto> t left_hash right_hash)\<rparr>)"

fun v3_recompute_nodes :: "('h \<Rightarrow> 'h \<Rightarrow> 'h) \<Rightarrow> 'h \<Rightarrow> u8 \<Rightarrow> 'h v3_store \<Rightarrow> u64 \<Rightarrow> nat \<Rightarrow> 'h v3_store" where
  "v3_recompute_nodes t zero_hash level s i 0 = s"
| "v3_recompute_nodes t zero_hash level s i (Suc n) =
     v3_recompute_nodes t zero_hash level (v3_recompute_node t zero_hash s (Node_Key level i)) (i + 1) n"

definition v3_recompute_entire_level :: "('h \<Rightarrow> 'h \<Rightarrow> 'h) \<Rightarrow> u8 \<Rightarrow> 'h v3_store \<Rightarrow> 'h v3_store option" where
  "v3_recompute_entire_level t level s =
     (if level \<ge> v3_height s then Some s
      else do { zero_hash \<leftarrow> v3_get_zero_hash_for_level s (level + 1);
                Some (v3_recompute_nodes t zero_hash level s 0 (unat (shl64 1 (unat level)))) })"

fun v3_recompute_levels :: "('h \<Rightarrow> 'h \<Rightarrow> 'h) \<Rightarrow> nat \<Rightarrow> 'h v3_store \<Rightarrow> 'h v3_store option" where
  "v3_recompute_levels t 0 s = Some s"
| "v3_recompute_levels t (Suc n) s =
     do { s \<leftarrow> v3_recompute_entire_level t (of_nat n) s; v3_recompute_levels t n s }"

definition v3_recompute_entire_tree :: "('h \<Rightarrow> 'h \<Rightarrow> 'h) \<Rightarrow> 'h v3_store \<Rightarrow> 'h v3_store option" where
  "v3_recompute_entire_tree t s = v3_recompute_levels t (unat (v3_height s)) s"

section \<open>The store satisfies the contract\<close>

definition v3_inv :: "'h hasher \<Rightarrow> 'h v3_store \<Rightarrow> bool" where
  "v3_inv H s \<longleftrightarrow> unat (v3_height s) \<le> 63 \<and>
     v3_zero_value_hashes s = map (get_zero_hash H) [0..<Suc (unat (v3_height s))]"

definition v3_vals :: "'h hasher \<Rightarrow> 'h v3_store \<Rightarrow> node_key \<Rightarrow> 'h" where
  "v3_vals H s k =
     (case v3_nodes s k of Some v \<Rightarrow> v | None \<Rightarrow> get_zero_hash H (unat (v3_height s) - lev k))"

lemma v3_zero: "v3_inv H s \<Longrightarrow> unat l \<le> unat (v3_height s) \<Longrightarrow>
  v3_get_zero_hash_for_level s l = Some (get_zero_hash H (unat (v3_height s) - unat l))"
  unfolding v3_get_zero_hash_for_level_def v3_inv_def by (simp add: zero_table del: upt_Suc)

lemma v3_op_height [simp]: "op_height v3_ops s = v3_height s"
  by (simp add: v3_ops_def)

interpretation v3: node_store "mk_hasher t z" z v3_ops "v3_inv (mk_hasher t z)" "v3_vals (mk_hasher t z)"
  for t :: "'h \<Rightarrow> 'h \<Rightarrow> 'h" and z
proof unfold_locales
  fix s :: "'h v3_store" and k v and l :: u8
  let ?H = "mk_hasher t z"
  assume inv: "v3_inv ?H s"
  show "unat (op_height v3_ops s) \<le> 63" using inv by (simp add: v3_inv_def)
  show "op_zero v3_ops s l = Some (get_zero_hash ?H (unat (op_height v3_ops s) - unat l))"
    if "unat l \<le> unat (op_height v3_ops s)"
    using that v3_zero[OF inv] by (simp add: v3_ops_def)
  assume "lev k \<le> unat (op_height v3_ops s)"
  hence zl: "v3_get_zero_hash_for_level s (nk_level k) = Some (get_zero_hash ?H (unat (v3_height s) - lev k))"
    using v3_zero[OF inv] by simp
  show "op_get v3_ops s k = Some (v3_vals ?H s k)"
    using zl by (simp add: v3_ops_def v3_get_node_value_def v3_vals_def split: option.split)
  show "\<exists>s'. op_set v3_ops s k v = Some s' \<and> v3_inv ?H s' \<and> op_height v3_ops s' = op_height v3_ops s \<and>
      v3_vals ?H s' = (v3_vals ?H s)(k := v)"
    using zl inv by (auto simp: v3_ops_def v3_set_node_value_def v3_vals_def v3_inv_def fun_eq_iff split: option.splits)
qed

definition v3_stores :: "('h \<Rightarrow> 'h \<Rightarrow> 'h) \<Rightarrow> 'h \<Rightarrow> 'h v3_store \<Rightarrow> (nat \<Rightarrow> 'h) \<Rightarrow> bool" where
  "v3_stores t z s f \<longleftrightarrow>
     v3_inv (mk_hasher t z) s \<and> tree_rep t (unat (v3_height s)) (v3_vals (mk_hasher t z) s) f"

lemmas v3_simps = v3_stores_def two_to_one_mk v3_op_height

lemma v3_new_holds: "unat h \<le> 63 \<Longrightarrow> v3_stores t z (v3_new (mk_hasher t z) h) (\<lambda>_. z)"
  by (auto simp: v3_stores_def v3_inv_def v3_new_def v3_vals_def intro!: stores_zero)

lemma v3_height_new [simp]: "v3_height (v3_new H h) = h"
  by (simp add: v3_new_def)

lemma v3_height_le: "v3_stores t z s f \<Longrightarrow> unat (v3_height s) \<le> 63"
  by (simp add: v3_stores_def v3_inv_def)

lemma v3_root: "v3_stores t z s f \<Longrightarrow> v3_get_root s = Some (mnode t f (unat (v3_height s)) 0)"
  using v3.get_root_stores[of t z s f] by (simp add: v3_get_root_def v3_simps)

lemma v3_leaf:
  "v3_stores t z s f \<Longrightarrow> unat i < 2 ^ unat (v3_height s) \<Longrightarrow>
   v3_get_leaf s i = Some (ref_proof t (unat (v3_height s)) f i)"
  using v3.get_leaf_stores[of t z s f i] by (simp add: v3_get_leaf_def v3_simps ref_proof_def)

lemma v3_set:
  assumes "v3_stores t z s f" "unat i < 2 ^ unat (v3_height s)"
  shows "\<exists>s'. v3_set_leaf t s i v = Some (\<lparr>dmp_old_root = mnode t f (unat (v3_height s)) 0, dmp_old_value = f (unat i),
      dmp_new_root = mnode t (f(unat i := v)) (unat (v3_height s)) 0, dmp_new_value = v, dmp_index = i,
      dmp_siblings = ref_siblings t f (unat i) 0 (unat (v3_height s))\<rparr>, s') \<and>
    v3_height s' = v3_height s \<and> v3_stores t z s' (f(unat i := v))"
  using v3.set_leaf_stores[of t z s f i v] assms by (auto simp: v3_set_leaf_def v3_simps)

lemma v3_set_no_proof:
  assumes "v3_stores t z s f" "unat i < 2 ^ unat (v3_height s)"
  shows "\<exists>s'. v3_set_leaf_no_proof t s i v = Some s' \<and> v3_height s' = v3_height s \<and> v3_stores t z s' (f(unat i := v))"
  using v3.set_leaf_no_proof_stores[of t z s f i v] assms by (auto simp: v3_set_leaf_no_proof_def v3_simps)

section \<open>Recomputation agrees with the trait's node access\<close>

definition v3_same :: "'h hasher \<Rightarrow> 'h v3_store \<Rightarrow> 'h v3_store \<Rightarrow> bool" where
  "v3_same H s1 s2 \<longleftrightarrow> v3_inv H s1 \<and> v3_inv H s2 \<and> v3_height s1 = v3_height s2 \<and> v3_vals H s1 = v3_vals H s2"

lemma zero_Suc: "get_zero_hash (mk_hasher t z) (Suc n) =
  t (get_zero_hash (mk_hasher t z) n) (get_zero_hash (mk_hasher t z) n)"
  using mk.get_zero_Suc[of t z n] by simp

lemma v3_recompute_node_vals:
  assumes "v3_inv (mk_hasher t z) s" "lev k < unat (v3_height s)"
  defines "zh \<equiv> get_zero_hash (mk_hasher t z) (unat (v3_height s) - Suc (lev k))"
  shows "v3_inv (mk_hasher t z) (v3_recompute_node t zh s k)"
    "v3_height (v3_recompute_node t zh s k) = v3_height s"
    "v3_vals (mk_hasher t z) (v3_recompute_node t zh s k) = (v3_vals (mk_hasher t z) s)
       (k := t (v3_vals (mk_hasher t z) s (left_child k)) (v3_vals (mk_hasher t z) s (right_child k)))"
proof -
  let ?H = "mk_hasher t z"
  have l64: "lev k < 64" using assms(1,2) by (simp add: v3_inv_def)
  have lc: "lev (left_child k) = Suc (lev k)" "lev (right_child k) = Suc (lev k)" using lev_child[OF l64] by simp_all
  have z2: "get_zero_hash ?H (unat (v3_height s) - lev k) = t zh zh"
    using zero_Suc[of t z "unat (v3_height s) - Suc (lev k)"] assms(2) by (simp add: zh_def Suc_diff_Suc)
  show "v3_inv ?H (v3_recompute_node t zh s k)"
    using assms(1) by (auto simp: v3_recompute_node_def v3_inv_def split: option.splits)
  show "v3_height (v3_recompute_node t zh s k) = v3_height s"
    by (auto simp: v3_recompute_node_def split: option.splits)
  show "v3_vals ?H (v3_recompute_node t zh s k) = (v3_vals ?H s)
       (k := t (v3_vals ?H s (left_child k)) (v3_vals ?H s (right_child k)))"
    using z2 lc by (auto simp: v3_recompute_node_def v3_vals_def fun_eq_iff zh_def[symmetric] split: option.splits)
qed

lemma v3_same_nodes:
  assumes "unat l < unat (v3_height s1)" "v3_same (mk_hasher t z) s1 s2"
  shows "\<exists>s2'. recompute_nodes v3_ops t l s2 i n = Some s2' \<and>
    v3_same (mk_hasher t z) (v3_recompute_nodes t (get_zero_hash (mk_hasher t z) (unat (v3_height s1) - Suc (unat l))) l s1 i n) s2' \<and>
    v3_height s2' = v3_height s1"
  using assms
proof (induction n arbitrary: i s1 s2)
  case 0
  thus ?case by (simp add: v3_same_def)
next
  case (Suc n)
  let ?H = "mk_hasher t z" and ?k = "Node_Key l i"
  let ?zh = "get_zero_hash ?H (unat (v3_height s1) - Suc (unat l))"
  let ?s1 = "v3_recompute_node t ?zh s1 ?k"
  have i: "v3_inv ?H s1" "v3_inv ?H s2" "v3_height s2 = v3_height s1" "v3_vals ?H s2 = v3_vals ?H s1"
    using Suc.prems(2) by (simp_all add: v3_same_def)
  have k: "lev ?k < unat (v3_height s1)" using Suc.prems(1) by simp
  have l64: "lev ?k < 64" using i(1) k by (simp add: v3_inv_def)
  note r = v3_recompute_node_vals[OF i(1) k, unfolded node_key.sel]
  have g: "op_get v3_ops s2 (left_child ?k) = Some (v3_vals ?H s1 (left_child ?k))"
    "op_get v3_ops s2 (right_child ?k) = Some (v3_vals ?H s1 (right_child ?k))"
    using v3.get_law[OF i(2)] lev_child[OF l64] k i(3,4) by simp_all
  let ?v = "t (v3_vals ?H s1 (left_child ?k)) (v3_vals ?H s1 (right_child ?k))"
  obtain s2' where s2': "op_set v3_ops s2 ?k ?v = Some s2'" "v3_inv ?H s2'" "v3_height s2' = v3_height s2"
    "v3_vals ?H s2' = (v3_vals ?H s2)(?k := ?v)"
    using v3.set_law[OF i(2), of ?k ?v] k i(3) by auto
  have "v3_same ?H ?s1 s2'" using r s2' i by (simp add: v3_same_def)
  thus ?case using Suc.IH[of ?s1 s2' "i + 1"] Suc.prems(1) r(2) g s2'(1) by simp
qed

lemma v3_same_levels:
  assumes "n \<le> unat (v3_height s1)" "v3_same (mk_hasher t z) s1 s2"
    "recompute_levels v3_ops t n s2 = Some s2'"
  shows "\<exists>s1'. v3_recompute_levels t n s1 = Some s1' \<and> v3_same (mk_hasher t z) s1' s2'"
  using assms
proof (induction n arbitrary: s1 s2)
  case 0
  thus ?case by simp
next
  case (Suc n)
  let ?H = "mk_hasher t z" and ?l = "of_nat n :: u8"
  have h: "unat (v3_height s1) \<le> 63" "v3_inv ?H s1" "v3_height s2 = v3_height s1"
    using Suc.prems(2) by (simp_all add: v3_same_def v3_inv_def)
  have ul: "unat ?l = n" "unat (?l + 1) = Suc n" "unat ?l < unat (v3_height s1)"
    using Suc.prems(1) h(1) by (simp_all add: unat_of_nat unat_word_ariths)
  have nl: "\<not> v3_height s1 \<le> ?l" using ul by (simp add: word_le_nat_alt)
  let ?n = "unat (shl64 1 (unat ?l) :: u64)"
  let ?zh = "get_zero_hash ?H (unat (v3_height s1) - Suc (unat ?l))"
  obtain m where m: "recompute_nodes v3_ops t ?l s2 0 ?n = Some m"
    "v3_same ?H (v3_recompute_nodes t ?zh ?l s1 0 ?n) m" "v3_height m = v3_height s1"
    using v3_same_nodes[OF ul(3) Suc.prems(2)] by blast
  have "v3_get_zero_hash_for_level s1 (?l + 1) = Some ?zh"
    using v3_zero[OF h(2), of "?l + 1"] ul Suc.prems(1) by simp
  hence e: "v3_recompute_entire_level t ?l s1 = Some (v3_recompute_nodes t ?zh ?l s1 0 ?n)"
    using nl by (simp add: v3_recompute_entire_level_def)
  have "recompute_entire_level v3_ops t ?l s2 = Some m"
    using m(1) nl h(3) by (simp add: recompute_entire_level_def)
  hence "recompute_levels v3_ops t n m = Some s2'" using Suc.prems(3) by simp
  moreover have "n \<le> unat (v3_height (v3_recompute_nodes t ?zh ?l s1 0 ?n))"
    using m(2,3) Suc.prems(1) by (simp add: v3_same_def)
  ultimately show ?case using Suc.IH[OF _ m(2)] e by simp
qed

lemma v3_recompute_ok:
  assumes "v3_inv (mk_hasher t z) s"
    "\<And>k. valid_key k \<Longrightarrow> nk_level k = v3_height s \<Longrightarrow> v3_vals (mk_hasher t z) s k = f (unat (nk_index k))"
  shows "\<exists>s'. v3_recompute_entire_tree t s = Some s' \<and> v3_stores t z s' f"
proof -
  obtain s2 where s2: "recompute_entire_tree v3_ops t s = Some s2" "v3_height s2 = v3_height s" "v3_stores t z s2 f"
    using v3.recompute_tree_ok[of t z s f] assms by (auto simp: v3_simps iffD2[OF word_unat_eq_iff])
  have "v3_same (mk_hasher t z) s s" using assms(1) by (simp add: v3_same_def)
  then obtain s' where "v3_recompute_levels t (unat (v3_height s)) s = Some s'" "v3_same (mk_hasher t z) s' s2"
    using v3_same_levels[OF order_refl] s2(1) by (fastforce simp: recompute_entire_tree_def)
  thus ?thesis using s2(3) by (auto simp: v3_recompute_entire_tree_def v3_stores_def v3_same_def)
qed

end
