(* ===== verification/Ordered_Map.thy ===== *)
theory Ordered_Map
  imports Psy_Prelude "HOL-Library.List_Lexorder"
begin

text \<open>
  The ordered maps of the sources, \<open>BTreeMap\<close> and \<open>SkipMap\<close>, as their list of entries in key order, with
  the operations the code uses; and the byte strings the code orders: big-endian bytes of equal length
  compare like the numbers they stand for.
\<close>

section \<open>Ordered maps\<close>

fun btree_insert :: "'k::linorder \<Rightarrow> 'v \<Rightarrow> ('k \<times> 'v) list \<Rightarrow> ('k \<times> 'v) list" where
  "btree_insert k v [] = [(k, v)]"
| "btree_insert k v ((k', v') # xs) =
     (if k < k' then (k, v) # (k', v') # xs
      else if k = k' then (k, v) # xs
      else (k', v') # btree_insert k v xs)"

definition btree_remove :: "'k \<Rightarrow> ('k \<times> 'v) list \<Rightarrow> ('k \<times> 'v) list" where
  "btree_remove k xs = filter (\<lambda>e. fst e \<noteq> k) xs"

text \<open>\<open>range(..target).next_back()\<close>\<close>

definition btree_below :: "'k::linorder \<Rightarrow> ('k \<times> 'v) list \<Rightarrow> ('k \<times> 'v) option" where
  "btree_below target xs =
     (case takeWhile (\<lambda>e. fst e < target) xs of [] \<Rightarrow> None | ys \<Rightarrow> Some (last ys))"

text \<open>\<open>range(lo..=hi)\<close>, \<open>range(lo..hi)\<close> and \<open>range(lo..)\<close>\<close>

definition range_incl :: "'k::linorder \<Rightarrow> 'k \<Rightarrow> ('k \<times> 'v) list \<Rightarrow> ('k \<times> 'v) list" where
  "range_incl lo hi xs = filter (\<lambda>e. lo \<le> fst e \<and> fst e \<le> hi) xs"

definition range_excl :: "'k::linorder \<Rightarrow> 'k \<Rightarrow> ('k \<times> 'v) list \<Rightarrow> ('k \<times> 'v) list" where
  "range_excl lo hi xs = filter (\<lambda>e. lo \<le> fst e \<and> fst e < hi) xs"

definition range_from :: "'k::linorder \<Rightarrow> ('k \<times> 'v) list \<Rightarrow> ('k \<times> 'v) list" where
  "range_from lo xs = filter (\<lambda>e. lo \<le> fst e) xs"

definition next_back :: "'a list \<Rightarrow> 'a option" where
  "next_back xs = (if xs = [] then None else Some (last xs))"

abbreviation keys_sorted :: "('k::linorder \<times> 'v) list \<Rightarrow> bool" where
  "keys_sorted xs \<equiv> sorted_wrt (<) (map fst xs)"

lemma keys_sorted_distinct: "keys_sorted xs \<Longrightarrow> distinct (map fst xs)"
  by (simp add: strict_sorted_iff)

lemma keys_sorted_filter: "keys_sorted xs \<Longrightarrow> keys_sorted (filter P xs)"
  by (induction xs) auto

lemma btree_insert_between:
  "(\<And>e. e \<in> set ys \<Longrightarrow> fst e < k) \<Longrightarrow> (\<And>e. e \<in> set zs \<Longrightarrow> k < fst e) \<Longrightarrow>
   btree_insert k v (ys @ zs) = ys @ (k, v) # zs"
proof (induction ys)
  case Nil
  show ?case
  proof (cases zs)
    case (Cons e es)
    thus ?thesis using Nil.prems(2)[of e] by (cases e) simp
  qed simp
next
  case (Cons e ys)
  have "fst e < k" using Cons.prems(1) by simp
  thus ?case using Cons by (cases e) auto
qed

lemma split_at_key:
  assumes "keys_sorted xs" "k \<notin> fst ` set xs"
  shows "\<And>e. e \<in> set (takeWhile (\<lambda>e. fst e < k) xs) \<Longrightarrow> fst e < k"
    "\<And>e. e \<in> set (dropWhile (\<lambda>e. fst e < k) xs) \<Longrightarrow> k < fst e"
proof -
  show "\<And>e. e \<in> set (takeWhile (\<lambda>e. fst e < k) xs) \<Longrightarrow> fst e < k" by (auto dest: set_takeWhileD)
  show "\<And>e. e \<in> set (dropWhile (\<lambda>e. fst e < k) xs) \<Longrightarrow> k < fst e" using assms
  proof (induction xs)
    case (Cons x xs)
    show ?case
    proof (cases "fst x < k")
      case True
      thus ?thesis using Cons by simp
    next
      case False
      hence "k < fst x" using Cons.prems(3) by (metis image_eqI linorder_neqE list.set_intros(1))
      thus ?thesis using Cons.prems False by (auto dest: order.strict_trans)
    qed
  qed simp
qed

text \<open>An absent key above the least one splits the list behind its predecessor.\<close>

lemma below_split:
  assumes "keys_sorted xs" "k \<notin> fst ` set xs" "k0 \<in> fst ` set xs" "k0 < k"
  obtains ys p i zs where "xs = ys @ (p, i) # zs" "btree_below k xs = Some (p, i)" "p < k"
    "\<forall>e\<in>set zs. k < fst e" "btree_insert k v xs = ys @ (p, i) # (k, v) # zs"
proof -
  let ?ys = "takeWhile (\<lambda>e. fst e < k) xs" and ?zs = "dropWhile (\<lambda>e. fst e < k) xs"
  note sp = split_at_key[OF assms(1,2)]
  have x: "xs = ?ys @ ?zs" by simp
  have "?ys \<noteq> []"
  proof
    assume "?ys = []"
    hence "xs = ?zs" using x by simp
    thus False using assms(3,4) sp(2) by force
  qed
  then obtain ys e where ys: "?ys = ys @ [e]" by (metis append_butlast_last_id)
  obtain p i where e: "e = (p, i)" by (cases e)
  have "xs = ys @ (p, i) # ?zs" using x ys e by (metis append.assoc append_Cons append_Nil)
  moreover have "btree_below k xs = Some (p, i)"
    unfolding btree_below_def ys e by (cases ys) auto
  moreover have "p < k" using sp(1)[of e] ys e by simp
  moreover have "btree_insert k v xs = ys @ (p, i) # (k, v) # ?zs"
    using btree_insert_between[where ys = ?ys and zs = ?zs and v = v, OF sp] ys e x by simp
  ultimately show ?thesis using that sp(2) by blast
qed

lemma btree_insert_sorted:
  assumes "keys_sorted xs"
  shows "set (btree_insert k v xs) = insert (k, v) {e \<in> set xs. fst e \<noteq> k}" "keys_sorted (btree_insert k v xs)"
proof -
  show st: "set (btree_insert k v xs) = insert (k, v) {e \<in> set xs. fst e \<noteq> k}"
    using assms
  proof (induction xs)
    case (Cons e xs)
    have "k < fst x" if "k \<le> fst e" "x \<in> set xs" for x using that Cons.prems by fastforce
    hence "k \<le> fst e \<Longrightarrow> {x \<in> set xs. fst x \<noteq> k} = set xs" by fastforce
    thus ?case using Cons by (cases e) auto
  qed simp
  show "keys_sorted (btree_insert k v xs)" using assms
  proof (induction xs)
    case (Cons e xs)
    have st: "set (btree_insert k v xs) \<subseteq> insert (k, v) (set xs)" by (induction xs) (auto split: if_splits)
    have "\<forall>x\<in>set (btree_insert k v xs). fst e < fst x" if "fst e < k"
      using st Cons.prems that by auto
    thus ?case using Cons by (cases e) (auto simp: not_less le_less)
  qed simp
qed

lemma keys_sorted_eq:
  assumes "keys_sorted xs" "keys_sorted ys" "set xs = set ys"
  shows "xs = ys"
proof -
  have f: "map fst xs = map fst ys" using strict_sorted_equal[OF assms(1,2)] assms(3) by simp
  hence l: "length xs = length ys" by (metis length_map)
  show ?thesis
  proof (rule nth_equalityI[OF l])
    fix i assume i: "i < length xs"
    hence "fst (xs ! i) = fst (ys ! i)" using f l by (metis nth_map)
    moreover have "xs ! i \<in> set ys" "ys ! i \<in> set ys" using i l assms(3) nth_mem by metis+
    ultimately show "xs ! i = ys ! i"
      using eq_key_imp_eq_value[OF keys_sorted_distinct[OF assms(2)], of "fst (xs ! i)" "snd (xs ! i)" "snd (ys ! i)"]
      by (metis prod.collapse)
  qed
qed

lemma map_of_insert: "map_of (btree_insert k v xs) = (map_of xs)(k \<mapsto> v)"
  by (induction k v xs rule: btree_insert.induct) (auto simp: fun_eq_iff)

lemma map_of_remove: "map_of (btree_remove k xs) = (map_of xs)(k := None)"
  unfolding btree_remove_def by (induction xs) (auto simp: fun_eq_iff)

lemma insert_keys: "fst ` set (btree_insert k v xs) = insert k (fst ` set xs)"
  by (induction k v xs rule: btree_insert.induct) auto

lemma remove_keys: "fst ` set (btree_remove k xs) = fst ` set xs - {k}"
  by (auto simp: btree_remove_def)

lemma remove_sorted: "keys_sorted xs \<Longrightarrow> keys_sorted (btree_remove k xs)"
  by (simp add: btree_remove_def keys_sorted_filter)

lemma next_back_None [simp]: "next_back xs = None \<longleftrightarrow> xs = []"
  by (simp add: next_back_def)

text \<open>The last entry of a sorted list has the greatest key.\<close>

lemma next_back_greatest:
  assumes "keys_sorted xs" "next_back xs = Some e"
  shows "e \<in> set xs" "x \<in> set xs \<Longrightarrow> fst x \<le> fst e"
proof -
  have ne: "xs \<noteq> []" and e: "e = last xs" using assms(2) by (auto simp: next_back_def split: if_splits)
  show "e \<in> set xs" using ne e by simp
  have xs: "xs = butlast xs @ [last xs]" using ne by simp
  show "fst x \<le> fst e" if "x \<in> set xs"
  proof -
    have "x \<in> set (butlast xs) \<or> x = last xs" using that xs by (metis Un_iff set_append set_ConsD empty_iff list.set(1))
    moreover have "\<forall>y\<in>set (butlast xs). fst y < fst (last xs)"
      using assms(1) by (subst (asm) xs) (auto simp: sorted_wrt_append)
    ultimately show ?thesis using e by auto
  qed
qed

section \<open>Big-endian bytes\<close>

fun le_val :: "u8 list \<Rightarrow> nat" where
  "le_val [] = 0"
| "le_val (b # bs) = unat b + 256 * le_val bs"

fun be_val :: "u8 list \<Rightarrow> nat" where
  "be_val [] = 0"
| "be_val (b # bs) = unat b * 256 ^ length bs + be_val bs"

lemma be_val_append: "be_val (xs @ ys) = be_val xs * 256 ^ length ys + be_val ys"
  by (induction xs) (simp_all add: power_add algebra_simps)

lemma be_val_rev: "be_val (rev bs) = le_val bs"
  by (induction bs) (simp_all add: be_val_append)

lemma be_val_less: "be_val bs < 256 ^ length bs"
proof (induction bs)
  case (Cons b bs)
  have "unat b < 256" using unsigned_less[of b, where 'a = nat] by simp
  hence "unat b * 256 ^ length bs \<le> 255 * 256 ^ length bs" by (intro mult_right_mono) auto
  thus ?case using Cons unfolding be_val.simps list.size power_add power_one_right One_nat_def[symmetric] by linarith
qed simp

text \<open>Byte strings of equal length are ordered like their values.\<close>

lemma bytes_less_iff: "length xs = length ys \<Longrightarrow> xs < ys \<longleftrightarrow> be_val xs < be_val ys"
proof (induction xs ys rule: list_induct2)
  case (Cons x xs y ys)
  have b: "be_val xs < 256 ^ length xs" "be_val ys < 256 ^ length xs"
    using be_val_less[of xs] be_val_less[of ys] Cons.hyps by simp_all
  have lt: "unat x * 256 ^ length xs + be_val xs < unat y * 256 ^ length xs + be_val ys" if "unat x < unat y"
  proof -
    have "(unat x + 1) * 256 ^ length xs \<le> unat y * 256 ^ length xs" using that by (intro mult_right_mono) auto
    thus ?thesis using b(1) by (simp add: algebra_simps)
  qed
  have gt: "unat y * 256 ^ length xs + be_val ys < unat x * 256 ^ length xs + be_val xs" if "unat y < unat x"
  proof -
    have "(unat y + 1) * 256 ^ length xs \<le> unat x * 256 ^ length xs" using that by (intro mult_right_mono) auto
    thus ?thesis using b(2) by (simp add: algebra_simps)
  qed
  show ?case
  proof (cases "x = y")
    case True
    thus ?thesis using Cons by simp
  next
    case False
    hence "unat x < unat y \<or> unat y < unat x" by (metis linorder_neqE_nat word_unat_eq_iff)
    thus ?thesis using lt gt False Cons.hyps by (auto simp: word_less_nat_alt)
  qed
qed simp

lemma le_val_bytes: "le_val (le_bytes n x) = unat x mod 256 ^ n" for x :: "'a::len word"
proof (induction n arbitrary: x)
  case (Suc n)
  have a: "unat (ucast x :: u8) = unat x mod 256"
    by (simp add: unsigned_ucast_eq take_bit_eq_mod)
  have b: "unat (drop_bit 8 x) = unat x div 256"
    unfolding unat_drop_bit_eq by (simp add: drop_bit_eq_div[where 'a = nat])
  show ?case by (simp add: le_bytes_Suc Suc a b mod_mult2_eq)
qed simp

definition be_bytes :: "nat \<Rightarrow> 'a::len word \<Rightarrow> u8 list" where
  "be_bytes n x = rev (le_bytes n x)"

definition from_be_bytes :: "u8 list \<Rightarrow> 'a::len word" where
  "from_be_bytes bs = from_le_bytes (rev bs)"

lemma length_be_bytes [simp]: "length (be_bytes n x) = n"
  by (simp add: be_bytes_def)

lemma from_be_bytes_be_bytes [simp]: "LENGTH('a) \<le> 8 * n \<Longrightarrow> from_be_bytes (be_bytes n x) = (x :: 'a::len word)"
  by (simp add: from_be_bytes_def be_bytes_def)

lemma be_bytes_from_be_bytes [simp]:
  "length bs = n \<Longrightarrow> 8 * n \<le> LENGTH('a) \<Longrightarrow> be_bytes n (from_be_bytes bs :: 'a::len word) = bs"
  by (simp add: from_be_bytes_def be_bytes_def)

lemma be_val_bytes:
  fixes x :: "'a::len word"
  assumes "8 * n = LENGTH('a)"
  shows "be_val (be_bytes n x) = unat x"
proof -
  have "(256 :: nat) ^ n = 2 ^ LENGTH('a)" using assms power_mult[of "2 :: nat" 8 n] by simp
  thus ?thesis using unsigned_less[of x, where 'a = nat] by (simp add: be_bytes_def be_val_rev le_val_bytes)
qed

lemma be_bytes_less_iff: "8 * n = LENGTH('a) \<Longrightarrow> be_bytes n x < be_bytes n y \<longleftrightarrow> x < y" for x y :: "'a::len word"
  by (simp add: bytes_less_iff be_val_bytes word_less_nat_alt)

lemma be_bytes_inj: "8 * n = LENGTH('a) \<Longrightarrow> be_bytes n x = be_bytes n y \<longleftrightarrow> x = y" for x y :: "'a::len word"
  by (metis be_val_bytes word_unat_eq_iff)

lemma be_bytes_le_iff: "8 * n = LENGTH('a) \<Longrightarrow> be_bytes n x \<le> be_bytes n y \<longleftrightarrow> x \<le> y" for x y :: "'a::len word"
  by (simp add: le_less be_bytes_less_iff be_bytes_inj)

end
