(* ===== verification/Indexed_Tree.thy ===== *)
theory Indexed_Tree
  imports Mem_Tree Ordered_Map
begin

text \<open>
  The indexed Merkle tree of \<open>src/parth_common/src/memory_stores/indexed_merkle_tree.rs\<close>: an append-only
  tree of key-value leaves with a sorted linked list through them, over the hash-map store of
  \<open>Mem_Tree\<close>. Hashes are four 64-bit field elements; the field hash \<open>q\<close> of a leaf preimage and the
  compression function of the tree are parameters. A panic is \<open>None\<close>.
\<close>

section \<open>Keys and leaves\<close>

text \<open>\<open>impl Ord for OrdHash\<close>: the limbs are compared from \<open>felts[3]\<close> down.\<close>

fun ord_hash_less :: "q_hash_out \<Rightarrow> q_hash_out \<Rightarrow> bool" where
  "ord_hash_less (QHashOut a b c d) (QHashOut a' b' c' d') \<longleftrightarrow>
     d < d' \<or> d = d' \<and> (c < c' \<or> c = c' \<and> (b < b' \<or> b = b' \<and> a < a'))"

instantiation q_hash_out :: linorder
begin

definition less_q_hash_out :: "q_hash_out \<Rightarrow> q_hash_out \<Rightarrow> bool" where
  "less_q_hash_out = ord_hash_less"

definition less_eq_q_hash_out :: "q_hash_out \<Rightarrow> q_hash_out \<Rightarrow> bool" where
  "less_eq_q_hash_out x y \<longleftrightarrow> x < y \<or> x = y"

lemma less_q_hash_out [simp]:
  "QHashOut a b c d < QHashOut a' b' c' d' \<longleftrightarrow>
     d < d' \<or> d = d' \<and> (c < c' \<or> c = c' \<and> (b < b' \<or> b = b' \<and> a < a'))"
  by (simp add: less_q_hash_out_def)

instance
proof
  fix x y z :: q_hash_out
  show "(x < y) = (x \<le> y \<and> \<not> y \<le> x)" by (cases x; cases y) (auto simp: less_eq_q_hash_out_def)
  show "x \<le> x" by (simp add: less_eq_q_hash_out_def)
  show "x \<le> y \<Longrightarrow> y \<le> z \<Longrightarrow> x \<le> z" by (cases x; cases y; cases z) (auto simp: less_eq_q_hash_out_def)
  show "x \<le> y \<Longrightarrow> y \<le> x \<Longrightarrow> x = y" by (cases x; cases y) (auto simp: less_eq_q_hash_out_def)
  show "x \<le> y \<or> y \<le> x" by (cases x; cases y) (auto simp: less_eq_q_hash_out_def)
qed

end

fun to_4_felts :: "q_hash_out \<Rightarrow> u64 list" where
  "to_4_felts (QHashOut a b c d) = [a, b, c, d]"

definition hash_default :: q_hash_out where
  "hash_default = QHashOut 0 0 0 0"

record imt_leaf =
  il_key :: q_hash_out
  il_value :: q_hash_out
  il_next_key :: q_hash_out
  il_next_index :: u64

definition imt_leaf_default :: imt_leaf where
  "imt_leaf_default = \<lparr>il_key = hash_default, il_value = hash_default, il_next_key = hash_default, il_next_index = 0\<rparr>"

type_synonym field_hash = "u64 list \<Rightarrow> q_hash_out"

definition compute_hash :: "field_hash \<Rightarrow> imt_leaf \<Rightarrow> q_hash_out" where
  "compute_hash q l = q (to_4_felts (il_key l) @ to_4_felts (il_value l) @ to_4_felts (il_next_key l) @ [il_next_index l])"

definition is_sentinel :: "imt_leaf \<Rightarrow> bool" where
  "is_sentinel l \<longleftrightarrow> il_key l = hash_default \<and> il_value l = hash_default \<and>
     il_next_key l = hash_default \<and> il_next_index l = 0"

section \<open>The tree\<close>

record imt =
  imt_tree :: "q_hash_out v3_store"
  imt_leaves :: "u64 \<Rightarrow> imt_leaf option"
  imt_key_index :: "(q_hash_out \<times> u64) list"
  imt_next_append_index :: u64

datatype imt_error =
    No_Predecessor | Predecessor_Leaf_Missing u64 | Key_Exists | Imt_Full | Key_Not_Found | Leaf_Preimage_Missing u64

record imt_insert_result =
  predecessor_proof :: "q_hash_out delta_merkle_proof"
  new_leaf_proof :: "q_hash_out delta_merkle_proof"
  new_leaf :: imt_leaf
  updated_predecessor :: imt_leaf
  predecessor_index :: u64
  new_leaf_index :: u64
  ins_modified_nodes :: "(node_key \<times> q_hash_out) list"

record imt_update_result =
  leaf_proof :: "q_hash_out delta_merkle_proof"
  updated_leaf :: imt_leaf
  leaf_index :: u64
  upd_modified_nodes :: "(node_key \<times> q_hash_out) list"

datatype imt_upsert_result = Inserted imt_insert_result | Updated imt_update_result

definition imt_new :: "q_hash_out hasher \<Rightarrow> field_hash \<Rightarrow> u8 \<Rightarrow> imt option" where
  "imt_new H q height =
     do { tree \<leftarrow> v3_set_leaf_no_proof (two_to_one H) (v3_new H height) 0 (compute_hash q imt_leaf_default);
          Some \<lparr>imt_tree = tree, imt_leaves = [0 \<mapsto> imt_leaf_default],
                imt_key_index = btree_insert hash_default 0 [], imt_next_append_index = 1\<rparr> }"

definition imt_get_root :: "imt \<Rightarrow> q_hash_out option" where
  "imt_get_root s = v3_get_root (imt_tree s)"

definition imt_get_height :: "imt \<Rightarrow> u8" where
  "imt_get_height s = v3_height (imt_tree s)"

definition get_leaf_preimage :: "imt \<Rightarrow> u64 \<Rightarrow> imt_leaf option" where
  "get_leaf_preimage s index = imt_leaves s index"

definition get_leaf_index_for_key :: "imt \<Rightarrow> q_hash_out \<Rightarrow> u64 option" where
  "get_leaf_index_for_key s key = map_of (imt_key_index s) key"

definition find_predecessor :: "imt \<Rightarrow> q_hash_out \<Rightarrow> imt_error + (u64 \<times> imt_leaf)" where
  "find_predecessor s target_key =
     (case btree_below target_key (imt_key_index s) of
        None \<Rightarrow> Inl No_Predecessor
      | Some (_, pred_index) \<Rightarrow>
          (case imt_leaves s pred_index of
             None \<Rightarrow> Inl (Predecessor_Leaf_Missing pred_index)
           | Some pred_leaf \<Rightarrow> Inr (pred_index, pred_leaf)))"

definition get_membership_proof :: "imt \<Rightarrow> q_hash_out \<Rightarrow> (imt_leaf \<times> q_hash_out merkle_proof) option option" where
  "get_membership_proof s key =
     (case map_of (imt_key_index s) key of
        None \<Rightarrow> Some None
      | Some i \<Rightarrow>
          (case imt_leaves s i of
             None \<Rightarrow> Some None
           | Some preimage \<Rightarrow> map_option (\<lambda>proof. Some (preimage, proof)) (v3_get_leaf (imt_tree s) i)))"

definition get_non_membership_proof ::
  "imt \<Rightarrow> q_hash_out \<Rightarrow> (imt_error + (imt_leaf \<times> q_hash_out merkle_proof)) option" where
  "get_non_membership_proof s key =
     (if map_of (imt_key_index s) key \<noteq> None then Some (Inl Key_Exists)
      else case find_predecessor s key of
        Inl e \<Rightarrow> Some (Inl e)
      | Inr (pred_index, pred_leaf) \<Rightarrow>
          map_option (\<lambda>proof. Inr (pred_leaf, proof)) (v3_get_leaf (imt_tree s) pred_index))"

function collect_above :: "q_hash_out v3_store \<Rightarrow> node_key \<Rightarrow> (node_key \<times> q_hash_out) list option" where
  "collect_above tree current =
     (if nk_level current > 0
      then do { v \<leftarrow> v3_get_node_value tree (parent current);
                nodes \<leftarrow> collect_above tree (parent current);
                Some ((parent current, v) # nodes) }
      else Some [])"
  by pat_completeness auto
termination
  by (relation "measure (\<lambda>(_, k). lev k)") (auto simp: lev_parent word_less_nat_alt)

declare collect_above.simps [simp del]

definition collect_path_nodes :: "q_hash_out v3_store \<Rightarrow> u64 \<Rightarrow> (node_key \<times> q_hash_out) list option" where
  "collect_path_nodes tree i =
     (let current = Node_Key (v3_height tree) i in
      do { v \<leftarrow> v3_get_node_value tree current;
           nodes \<leftarrow> collect_above tree current;
           Some ((current, v) # nodes) })"

definition imt_insert ::
  "q_hash_out hasher \<Rightarrow> field_hash \<Rightarrow> imt \<Rightarrow> q_hash_out \<Rightarrow> q_hash_out \<Rightarrow>
   ((imt_error + imt_insert_result) \<times> imt) option" where
  "imt_insert H q s key v =
     (if map_of (imt_key_index s) key \<noteq> None then Some (Inl Key_Exists, s)
      else
        let new_index = imt_next_append_index s in
        if new_index > v3_get_max_leaf_index (imt_tree s) then Some (Inl Imt_Full, s)
        else case find_predecessor s key of
          Inl e \<Rightarrow> Some (Inl e, s)
        | Inr (pred_index, pred_leaf) \<Rightarrow>
            let leaf = \<lparr>il_key = key, il_value = v, il_next_key = il_next_key pred_leaf,
                        il_next_index = il_next_index pred_leaf\<rparr>;
                pred' = \<lparr>il_key = il_key pred_leaf, il_value = il_value pred_leaf, il_next_key = key,
                         il_next_index = new_index\<rparr>
            in do {
              (pred_proof, tree) \<leftarrow> v3_set_leaf (two_to_one H) (imt_tree s) pred_index (compute_hash q pred');
              (leaf_proof, tree) \<leftarrow> v3_set_leaf (two_to_one H) tree new_index (compute_hash q leaf);
              nodes_a \<leftarrow> collect_path_nodes tree pred_index;
              nodes_b \<leftarrow> collect_path_nodes tree new_index;
              Some (Inr \<lparr>predecessor_proof = pred_proof, new_leaf_proof = leaf_proof, new_leaf = leaf,
                         updated_predecessor = pred', predecessor_index = pred_index,
                         new_leaf_index = new_index, ins_modified_nodes = nodes_a @ nodes_b\<rparr>,
                    s\<lparr>imt_tree := tree,
                      imt_leaves := (imt_leaves s)(pred_index \<mapsto> pred', new_index \<mapsto> leaf),
                      imt_key_index := btree_insert key new_index (imt_key_index s),
                      imt_next_append_index := new_index + 1\<rparr>) })"

definition imt_update ::
  "q_hash_out hasher \<Rightarrow> field_hash \<Rightarrow> imt \<Rightarrow> q_hash_out \<Rightarrow> q_hash_out \<Rightarrow>
   ((imt_error + imt_update_result) \<times> imt) option" where
  "imt_update H q s key new_value =
     (case map_of (imt_key_index s) key of
        None \<Rightarrow> Some (Inl Key_Not_Found, s)
      | Some i \<Rightarrow>
          (case imt_leaves s i of
             None \<Rightarrow> Some (Inl (Leaf_Preimage_Missing i), s)
           | Some old_leaf \<Rightarrow>
               let leaf = \<lparr>il_key = il_key old_leaf, il_value = new_value, il_next_key = il_next_key old_leaf,
                           il_next_index = il_next_index old_leaf\<rparr>
               in do {
                 (proof, tree) \<leftarrow> v3_set_leaf (two_to_one H) (imt_tree s) i (compute_hash q leaf);
                 nodes \<leftarrow> collect_path_nodes tree i;
                 Some (Inr \<lparr>leaf_proof = proof, updated_leaf = leaf, leaf_index = i, upd_modified_nodes = nodes\<rparr>,
                       s\<lparr>imt_tree := tree, imt_leaves := (imt_leaves s)(i \<mapsto> leaf)\<rparr>) }))"

definition imt_upsert ::
  "q_hash_out hasher \<Rightarrow> field_hash \<Rightarrow> imt \<Rightarrow> q_hash_out \<Rightarrow> q_hash_out \<Rightarrow>
   ((imt_error + imt_upsert_result) \<times> imt) option" where
  "imt_upsert H q s key v =
     (if map_of (imt_key_index s) key \<noteq> None
      then do { (r, s) \<leftarrow> imt_update H q s key v; Some (map_sum id Updated r, s) }
      else do { (r, s) \<leftarrow> imt_insert H q s key v; Some (map_sum id Inserted r, s) })"

definition restore_leaf :: "q_hash_out hasher \<Rightarrow> field_hash \<Rightarrow> imt \<Rightarrow> u64 \<Rightarrow> imt_leaf \<Rightarrow> imt option" where
  "restore_leaf H q s i preimage =
     do { tree \<leftarrow> v3_set_leaf_no_proof (two_to_one H) (imt_tree s) i (compute_hash q preimage);
          Some (s\<lparr>imt_tree := tree,
                  imt_key_index := btree_insert (il_key preimage) i (imt_key_index s),
                  imt_leaves := (imt_leaves s)(i \<mapsto> preimage),
                  imt_next_append_index :=
                    (if i \<ge> imt_next_append_index s then i + 1 else imt_next_append_index s)\<rparr>) }"

section \<open>The linked list\<close>

text \<open>The entries \<open>xs\<close> of the index are linked through the leaves, the last one to \<open>nx\<close>.\<close>

definition first_or :: "'a \<Rightarrow> 'a list \<Rightarrow> 'a" where
  "first_or d xs = (case xs of [] \<Rightarrow> d | x # _ \<Rightarrow> x)"

lemma first_or_simps [simp]: "first_or d [] = d" "first_or d (x # xs) = x"
  by (simp_all add: first_or_def)

definition leaf_of :: "(q_hash_out \<Rightarrow> q_hash_out option) \<Rightarrow> q_hash_out \<Rightarrow> q_hash_out \<times> u64 \<Rightarrow> imt_leaf" where
  "leaf_of m k nx = \<lparr>il_key = k, il_value = the (m k), il_next_key = fst nx, il_next_index = snd nx\<rparr>"

fun linked :: "(u64 \<Rightarrow> imt_leaf option) \<Rightarrow> (q_hash_out \<Rightarrow> q_hash_out option) \<Rightarrow>
    (q_hash_out \<times> u64) list \<Rightarrow> q_hash_out \<times> u64 \<Rightarrow> bool" where
  "linked L m [] nx \<longleftrightarrow> True"
| "linked L m ((k, i) # xs) nx \<longleftrightarrow> L i = Some (leaf_of m k (first_or nx xs)) \<and> linked L m xs nx"

lemma linked_append: "linked L m (ys @ zs) nx \<longleftrightarrow> linked L m ys (first_or nx zs) \<and> linked L m zs nx"
proof (induction ys)
  case (Cons e ys)
  have "first_or nx (ys @ zs) = first_or (first_or nx zs) ys" by (cases ys) simp_all
  thus ?case using Cons by (cases e) simp
qed simp

lemma linked_cong:
  "(\<And>k i. (k, i) \<in> set xs \<Longrightarrow> L i = L' i \<and> m k = m' k) \<Longrightarrow> linked L m xs nx = linked L' m' xs nx"
proof (induction xs)
  case (Cons e xs)
  obtain k i where e: "e = (k, i)" by (cases e)
  have "L i = L' i \<and> m k = m' k" using Cons.prems[of k i] e by simp
  moreover have "linked L m xs nx = linked L' m' xs nx" by (rule Cons.IH, rule Cons.prems) simp
  ultimately show ?case by (simp add: e leaf_of_def)
qed simp

lemma linked_leaf:
  assumes "linked L m xs nx" "(k, i) \<in> set xs"
  obtains ys zs where "xs = ys @ (k, i) # zs" "L i = Some (leaf_of m k (first_or nx zs))"
proof -
  obtain ys zs where xs: "xs = ys @ (k, i) # zs" using assms(2) by (metis split_list)
  thus ?thesis using that assms(1) by (simp add: linked_append)
qed

text \<open>Leaves and keys outside the list do not matter.\<close>

lemma linked_other [simp]:
  "i \<notin> snd ` set xs \<Longrightarrow> linked (L(i := x)) m xs nx = linked L m xs nx"
  "k \<notin> fst ` set xs \<Longrightarrow> linked L (m(k := y)) xs nx = linked L m xs nx"
  by (rule linked_cong; force)+

text \<open>Linking in a new leaf behind its predecessor.\<close>

lemma linked_insert:
  assumes "linked L m (ys @ (p, i) # zs) nx" "distinct (map snd (ys @ (p, i) # zs))"
    "k \<notin> fst ` set (ys @ (p, i) # zs)" "n \<notin> snd ` set (ys @ (p, i) # zs)"
  shows "linked (L(i \<mapsto> leaf_of m p (k, n), n \<mapsto> leaf_of (m(k \<mapsto> v)) k (first_or nx zs))) (m(k \<mapsto> v))
    (ys @ (p, i) # (k, n) # zs) nx"
proof -
  have l: "linked L m ys (p, i)" "linked L m zs nx" using assms(1) by (simp_all add: linked_append)
  have o: "k \<notin> fst ` set ys" "k \<notin> fst ` set zs" "n \<notin> snd ` set ys" "n \<notin> snd ` set zs"
    "i \<notin> snd ` set ys" "i \<notin> snd ` set zs" "p \<noteq> k" "i \<noteq> n"
    using assms(2-4) by auto
  show ?thesis using l o by (simp add: linked_append) (simp add: leaf_of_def)
qed

lemma linked_update:
  assumes "linked L m xs nx" "(k, i) \<in> set xs" "distinct (map fst xs)" "distinct (map snd xs)"
    "L i = Some l"
  shows "linked (L(i \<mapsto> l\<lparr>il_value := v\<rparr>)) (m(k \<mapsto> v)) xs nx"
proof -
  obtain ys zs where xs: "xs = ys @ (k, i) # zs" using assms(2) by (metis split_list)
  have l: "linked L m ys (k, i)" "linked L m zs nx" "l = leaf_of m k (first_or nx zs)"
    using assms(1,5) by (simp_all add: linked_append xs)
  have o: "k \<notin> fst ` set ys" "k \<notin> fst ` set zs" "i \<notin> snd ` set ys" "i \<notin> snd ` set zs"
    using assms(3,4) by (auto simp: xs)
  show ?thesis using l o by (simp add: linked_append xs) (simp add: leaf_of_def)
qed

end
