(* ===== verification/Indexed_Laws.thy ===== *)
theory Indexed_Laws
  imports Indexed_Tree
begin

text \<open>
  The indexed Merkle tree refines a finite map: the invariant ties the sorted index, the linked leaves
  and the Merkle tree to the map \<open>m\<close> of the stored keys and values, every operation preserves it, and
  the proofs it hands out are complete and sound.
\<close>

section \<open>The invariant\<close>

text \<open>The leaf hashes of the tree; free positions are empty.\<close>

definition imt_hashes :: "field_hash \<Rightarrow> q_hash_out \<Rightarrow> imt \<Rightarrow> nat \<Rightarrow> q_hash_out" where
  "imt_hashes q z s j =
     (if j < unat (imt_next_append_index s) then compute_hash q (the (imt_leaves s (of_nat j))) else z)"

abbreviation list_end :: "q_hash_out \<times> u64" where
  "list_end \<equiv> (hash_default, 0)"

abbreviation imt_ht :: "imt \<Rightarrow> nat" where
  "imt_ht s \<equiv> unat (v3_height (imt_tree s))"

definition imt_inv ::
  "(q_hash_out \<Rightarrow> q_hash_out \<Rightarrow> q_hash_out) \<Rightarrow> q_hash_out \<Rightarrow> field_hash \<Rightarrow> imt \<Rightarrow>
   (q_hash_out \<Rightarrow> q_hash_out option) \<Rightarrow> bool" where
  "imt_inv t z q s m \<longleftrightarrow>
     keys_sorted (imt_key_index s) \<and> (hash_default, 0) \<in> set (imt_key_index s) \<and> dom m = fst ` set (imt_key_index s) \<and>
     distinct (map snd (imt_key_index s)) \<and>
     (\<lambda>e. unat (snd e)) ` set (imt_key_index s) = {0..<unat (imt_next_append_index s)} \<and>
     linked (imt_leaves s) m (imt_key_index s) list_end \<and>
     unat (imt_next_append_index s) \<le> 2 ^ imt_ht s \<and>
     v3_stores t z (imt_tree s) (imt_hashes q z s)"

lemma imt_invD:
  assumes "imt_inv t z q s m"
  shows "keys_sorted (imt_key_index s)" "hash_default \<in> dom m" "dom m = fst ` set (imt_key_index s)"
    "distinct (map snd (imt_key_index s))" "distinct (map fst (imt_key_index s))"
    "(\<lambda>e. unat (snd e)) ` set (imt_key_index s) = {0..<unat (imt_next_append_index s)}"
    "linked (imt_leaves s) m (imt_key_index s) list_end"
    "unat (imt_next_append_index s) \<le> 2 ^ imt_ht s" "v3_stores t z (imt_tree s) (imt_hashes q z s)"
    "imt_ht s \<le> 63" "(hash_default, 0) \<in> set (imt_key_index s)"
  using assms keys_sorted_distinct[of "imt_key_index s"] v3_height_le[of t z "imt_tree s" "imt_hashes q z s"]
  unfolding imt_inv_def by force+

lemma default_less: "k \<noteq> hash_default \<Longrightarrow> hash_default < k"
  by (cases k) (auto simp: hash_default_def word_gt_0)

lemma of_nat_eq_u64: "j < 2 ^ 64 \<Longrightarrow> (of_nat j = i) = (j = unat i)" for i :: u64
  using of_nat_u64_inj[of j "unat i"] unsigned_less[of i, where 'a = nat] by simp

lemma imt_keys_iff:
  assumes "imt_inv t z q s m"
  shows "map_of (imt_key_index s) k = None \<longleftrightarrow> m k = None"
    "map_of (imt_key_index s) k = Some i \<longleftrightarrow> (k, i) \<in> set (imt_key_index s)"
  using imt_invD(3,5)[OF assms] by (auto simp: map_of_eq_None_iff domIff)

lemma imt_index_bound:
  assumes "imt_inv t z q s m" "(k, i) \<in> set (imt_key_index s)"
  shows "unat i < unat (imt_next_append_index s)" "unat i < 2 ^ imt_ht s"
proof -
  have "unat i \<in> (\<lambda>e. unat (snd e)) ` set (imt_key_index s)" using assms(2) by force
  thus "unat i < unat (imt_next_append_index s)" using imt_invD(6)[OF assms(1)] by simp
  thus "unat i < 2 ^ imt_ht s" using imt_invD(8)[OF assms(1)] by simp
qed

lemma imt_index_unique:
  assumes "imt_inv t z q s m" "(k, i) \<in> set (imt_key_index s)" "(k', i) \<in> set (imt_key_index s)"
  shows "k = k'"
proof -
  have "inj_on snd (set (imt_key_index s))" using imt_invD(4)[OF assms(1)] by (simp add: distinct_map)
  from inj_onD[OF this _ assms(2,3)] show ?thesis by simp
qed

lemma imt_pow: "h \<le> 63 \<Longrightarrow> n \<le> (2 ^ h :: nat) \<Longrightarrow> n < 2 ^ 64"
  using pow63[of h] by simp

text \<open>Room for one more leaf.\<close>

lemma imt_full_iff:
  assumes "imt_inv t z q s m"
  shows "imt_next_append_index s > v3_get_max_leaf_index (imt_tree s) \<longleftrightarrow>
    unat (imt_next_append_index s) = 2 ^ imt_ht s"
proof -
  have h: "imt_ht s < 64" using imt_invD(10)[OF assms] by simp
  have p: "unat (2 ^ imt_ht s :: u64) = 2 ^ imt_ht s" using unat_pow2_u64[OF h] .
  hence "(2 ^ imt_ht s :: u64) \<noteq> 0" by (metis power_not_zero unsigned_0 zero_neq_numeral)
  hence "unat (v3_get_max_leaf_index (imt_tree s)) = 2 ^ imt_ht s - 1"
    using h p by (simp add: v3_get_max_leaf_index_def tr_get_max_leaf_index_def push_bit_eq_mult unat_minus_one)
  thus ?thesis using imt_invD(8)[OF assms] by (auto simp: word_less_nat_alt)
qed

section \<open>Walking the tree\<close>

lemma collect_above_ups:
  assumes "v3_inv (mk_hasher t z) tree" "lev k \<le> unat (v3_height tree)"
  shows "collect_above tree k =
    Some (map (\<lambda>k. (k, v3_vals (mk_hasher t z) tree k)) (ups (lev k) (parent k)))"
  using assms(2)
proof (induction "lev k" arbitrary: k)
  case 0
  hence "nk_level k = 0" by (simp add: unat_eq_zero)
  thus ?case by (simp add: collect_above.simps[of tree k])
next
  case (Suc n)
  have nz: "nk_level k > 0" using Suc.hyps(2) by (simp add: word_less_nat_alt)
  have p: "lev (parent k) = n" using Suc.hyps(2) by (simp add: lev_parent)
  have "v3_get_node_value tree (parent k) = Some (v3_vals (mk_hasher t z) tree (parent k))"
    using v3.get_law[OF assms(1), of "parent k"] Suc.prems Suc.hyps(2) p by (simp add: v3_ops_def)
  thus ?case using Suc.hyps(1)[of "parent k"] p nz Suc.prems
    unfolding Suc.hyps(2)[symmetric] by (subst collect_above.simps) (simp add: Suc.hyps(2)[symmetric])
qed

lemma collect_path:
  assumes "v3_stores t z tree f"
  shows "collect_path_nodes tree i = Some (map (\<lambda>k. (k, v3_vals (mk_hasher t z) tree k))
    (ups (Suc (unat (v3_height tree))) (Node_Key (v3_height tree) i)))"
proof -
  have inv: "v3_inv (mk_hasher t z) tree" using assms by (simp add: v3_stores_def)
  have "v3_get_node_value tree (Node_Key (v3_height tree) i) =
      Some (v3_vals (mk_hasher t z) tree (Node_Key (v3_height tree) i))"
    using v3.get_law[OF inv, of "Node_Key (v3_height tree) i"] by (simp add: v3_ops_def)
  thus ?thesis using collect_above_ups[OF inv, of "Node_Key (v3_height tree) i"]
    by (simp add: collect_path_nodes_def Let_def)
qed

section \<open>Operations\<close>

lemma imt_new_inv:
  assumes "unat h \<le> 63"
  shows "\<exists>s. imt_new (mk_hasher t z) q h = Some s \<and> v3_height (imt_tree s) = h \<and>
    imt_inv t z q s [hash_default \<mapsto> hash_default]"
proof -
  obtain tree where tr: "v3_set_leaf_no_proof t (v3_new (mk_hasher t z) h) 0 (compute_hash q imt_leaf_default) = Some tree"
    "v3_height tree = h" "v3_stores t z tree ((\<lambda>_. z)(0 := compute_hash q imt_leaf_default))"
    using v3_set_no_proof[OF v3_new_holds[OF assms, of t z], of 0 "compute_hash q imt_leaf_default"] by auto
  let ?s = "\<lparr>imt_tree = tree, imt_leaves = [0 \<mapsto> imt_leaf_default],
    imt_key_index = [(hash_default, 0)], imt_next_append_index = 1\<rparr>"
  have "imt_hashes q z ?s = (\<lambda>_. z)(0 := compute_hash q imt_leaf_default)"
    by (auto simp: imt_hashes_def)
  hence "imt_inv t z q ?s [hash_default \<mapsto> hash_default]"
    using tr(2,3) by (simp add: imt_inv_def leaf_of_def imt_leaf_default_def)
  thus ?thesis using tr(1,2) by (simp add: imt_new_def)
qed

lemma imt_split:
  assumes "imt_inv t z q s m" "m k = None"
  obtains ys p i zs where "imt_key_index s = ys @ (p, i) # zs" "p < k" "\<forall>e\<in>set zs. k < fst e"
    "find_predecessor s k = Inr (i, leaf_of m p (first_or list_end zs))"
    "\<And>n. btree_insert k n (imt_key_index s) = ys @ (p, i) # (k, n) # zs"
proof -
  note I = imt_invD[OF assms(1)]
  have k: "k \<notin> fst ` set (imt_key_index s)" using assms(2) I(3) by (metis domIff)
  have d: "hash_default \<in> fst ` set (imt_key_index s)" using I(2,3) by blast
  hence "hash_default < k" using k by (intro default_less) blast
  note d = d this
  obtain ys p i zs where sp: "imt_key_index s = ys @ (p, i) # zs" "btree_below k (imt_key_index s) = Some (p, i)"
    "p < k" "\<forall>e\<in>set zs. k < fst e" using below_split[OF I(1) k d] by metis
  have "imt_leaves s i = Some (leaf_of m p (first_or list_end zs))"
    using I(7) by (simp add: sp(1) linked_append)
  hence f: "find_predecessor s k = Inr (i, leaf_of m p (first_or list_end zs))"
    by (simp add: find_predecessor_def sp(2))
  have ins: "btree_insert k n (imt_key_index s) = ys @ (p, i) # (k, n) # zs" for n
  proof -
    have "fst e < k" if "e \<in> set (ys @ [(p, i)])" for e
      using that I(1) sp(3) by (auto simp: sp(1) sorted_wrt_append intro: order.strict_trans)
    moreover have "k < fst e" if "e \<in> set zs" for e using that sp(4) by blast
    ultimately show ?thesis using btree_insert_between[of "ys @ [(p, i)]" k zs n] by (simp add: sp(1))
  qed
  show ?thesis by (rule that[OF sp(1,3,4) f ins])
qed

text \<open>What a successful insertion reports: two chained updates, the second one of a free position.\<close>

definition insert_report ::
  "(q_hash_out \<Rightarrow> q_hash_out \<Rightarrow> q_hash_out) \<Rightarrow> q_hash_out \<Rightarrow> field_hash \<Rightarrow> imt \<Rightarrow> imt \<Rightarrow> imt_insert_result \<Rightarrow> bool" where
  "insert_report t z q s s' r \<longleftrightarrow>
     dmp_verify t (predecessor_proof r) \<and> dmp_verify t (new_leaf_proof r) \<and>
     Some (dmp_old_root (predecessor_proof r)) = imt_get_root s \<and>
     dmp_new_root (predecessor_proof r) = dmp_old_root (new_leaf_proof r) \<and>
     Some (dmp_new_root (new_leaf_proof r)) = imt_get_root s' \<and>
     dmp_new_value (predecessor_proof r) = compute_hash q (updated_predecessor r) \<and>
     dmp_old_value (new_leaf_proof r) = z \<and> dmp_new_value (new_leaf_proof r) = compute_hash q (new_leaf r)"

lemma set_leaf_proof_verifies:
  assumes "v3_stores t z s f" "unat i < 2 ^ unat (v3_height s)" "v3_set_leaf t s i v = Some (p, s')"
  shows "dmp_verify t p"
proof -
  obtain s'' where "p = \<lparr>dmp_old_root = mnode t f (unat (v3_height s)) 0, dmp_old_value = f (unat i),
      dmp_new_root = mnode t (f(unat i := v)) (unat (v3_height s)) 0, dmp_new_value = v, dmp_index = i,
      dmp_siblings = ref_siblings t f (unat i) 0 (unat (v3_height s))\<rparr>"
    using v3_set[OF assms(1,2), of v] assms(3) by auto
  moreover have "unat (v3_height s) \<le> 64" using v3_height_le[OF assms(1)] by simp
  ultimately show ?thesis
    using dmp_verify_update[of "unat (v3_height s)" i f "f(unat i := v)" t] assms(2) by simp
qed

lemma imt_hashes_insert:
  assumes "unat i < unat n" "unat n + 1 < 2 ^ 64" "imt_next_append_index s = n"
  shows "imt_hashes q z (s\<lparr>imt_tree := tree, imt_leaves := (imt_leaves s)(i \<mapsto> a, n \<mapsto> b),
      imt_key_index := ks, imt_next_append_index := n + 1\<rparr>) =
    (imt_hashes q z s)(unat i := compute_hash q a, unat n := compute_hash q b)"
proof
  fix j
  have n1: "unat (n + 1) = unat n + 1" using assms(2) unat_add_small[of n 1] by simp
  show "imt_hashes q z (s\<lparr>imt_tree := tree, imt_leaves := (imt_leaves s)(i \<mapsto> a, n \<mapsto> b),
      imt_key_index := ks, imt_next_append_index := n + 1\<rparr>) j =
    ((imt_hashes q z s)(unat i := compute_hash q a, unat n := compute_hash q b)) j"
  proof (cases "j < unat n + 1")
    case True
    hence "(of_nat j = i) = (j = unat i)" "(of_nat j = n) = (j = unat n)"
      using assms(2) of_nat_eq_u64 by simp_all
    thus ?thesis using True assms(1,3) n1 by (auto simp: imt_hashes_def)
  next
    case False
    thus ?thesis using assms(1,3) n1 by (simp add: imt_hashes_def)
  qed
qed

lemma imt_insert_ok:
  assumes "imt_inv t z q s m" "m k = None" "unat (imt_next_append_index s) < 2 ^ imt_ht s"
  shows "\<exists>r s'. imt_insert (mk_hasher t z) q s k v = Some (Inr r, s') \<and> imt_inv t z q s' (m(k \<mapsto> v)) \<and>
    v3_height (imt_tree s') = v3_height (imt_tree s) \<and>
    imt_next_append_index s' = imt_next_append_index s + 1 \<and> insert_report t z q s s' r"
proof -
  note I = imt_invD[OF assms(1)]
  define n where "n = imt_next_append_index s"
  obtain ys p i zs where sp: "imt_key_index s = ys @ (p, i) # zs" "p < k" "\<forall>e\<in>set zs. k < fst e"
    "find_predecessor s k = Inr (i, leaf_of m p (first_or list_end zs))"
    "\<And>n. btree_insert k n (imt_key_index s) = ys @ (p, i) # (k, n) # zs"
    using imt_split[OF assms(1,2)] by metis
  have ib: "unat i < unat n" "unat i < 2 ^ imt_ht s"
    using imt_index_bound[OF assms(1), of p i] by (simp_all add: sp(1) n_def)
  have nb: "unat n < 2 ^ imt_ht s" using assms(3) by (simp add: n_def)
  have n64: "unat n + 1 < 2 ^ 64" using nb pow63[OF I(10)] by simp
  have n1: "unat (n + 1) = unat n + 1" using n64 unat_add_small[of n 1] by simp
  define a where "a = leaf_of m p (k, n)"
  define b where "b = leaf_of (m(k \<mapsto> v)) k (first_or list_end zs)"
  let ?f = "imt_hashes q z s"
  obtain p1 t1 where t1: "v3_set_leaf t (imt_tree s) i (compute_hash q a) = Some (p1, t1)"
      "v3_height t1 = v3_height (imt_tree s)" "v3_stores t z t1 (?f(unat i := compute_hash q a))"
    and p1: "dmp_old_root p1 = mnode t ?f (imt_ht s) 0" "dmp_new_value p1 = compute_hash q a"
      "dmp_new_root p1 = mnode t (?f(unat i := compute_hash q a)) (imt_ht s) 0"
    using v3_set[OF I(9) ib(2), of "compute_hash q a"] by fastforce
  let ?f1 = "?f(unat i := compute_hash q a)"
  have nb1: "unat n < 2 ^ unat (v3_height t1)" using nb t1(2) by simp
  obtain p2 t2 where t2: "v3_set_leaf t t1 n (compute_hash q b) = Some (p2, t2)"
      "v3_height t2 = v3_height t1" "v3_stores t z t2 (?f1(unat n := compute_hash q b))"
    and p2: "dmp_old_root p2 = mnode t ?f1 (imt_ht s) 0" "dmp_old_value p2 = ?f1 (unat n)"
      "dmp_new_value p2 = compute_hash q b" "dmp_new_root p2 = mnode t (?f1(unat n := compute_hash q b)) (imt_ht s) 0"
    using v3_set[OF t1(3) nb1, of "compute_hash q b"] t1(2) by fastforce
  let ?s' = "s\<lparr>imt_tree := t2, imt_leaves := (imt_leaves s)(i \<mapsto> a, n \<mapsto> b),
    imt_key_index := ys @ (p, i) # (k, n) # zs, imt_next_append_index := n + 1\<rparr>"
  have hs: "imt_hashes q z ?s' = ?f1(unat n := compute_hash q b)"
    by (rule imt_hashes_insert[OF ib(1) n64 n_def[symmetric]])
  have kf: "k \<notin> fst ` set (ys @ (p, i) # zs)" using assms(2) I(3) by (metis domIff sp(1))
  have nf: "n \<notin> snd ` set (ys @ (p, i) # zs)"
    using imt_index_bound(1)[OF assms(1)] unfolding sp(1) n_def by fastforce
  have inv: "imt_inv t z q ?s' (m(k \<mapsto> v))"
    unfolding imt_inv_def
  proof (intro conjI)
    show "keys_sorted (imt_key_index ?s')"
      using I(1) sp(2,3) by (auto simp: sp(1) sorted_wrt_append intro: order.strict_trans)
    show "(hash_default, 0) \<in> set (imt_key_index ?s')" using I(11) by (auto simp: sp(1))
    show "dom (m(k \<mapsto> v)) = fst ` set (imt_key_index ?s')" using I(3) by (auto simp: sp(1))
    show "distinct (map snd (imt_key_index ?s'))" using I(4) nf by (auto simp: sp(1))
    have "(\<lambda>e. unat (snd e)) ` set (imt_key_index ?s') = insert (unat n) ((\<lambda>e. unat (snd e)) ` set (imt_key_index s))"
      by (auto simp: sp(1))
    thus "(\<lambda>e. unat (snd e)) ` set (imt_key_index ?s') = {0..<unat (imt_next_append_index ?s')}"
      using I(6) n1 by (auto simp: n_def)
    show "linked (imt_leaves ?s') (m(k \<mapsto> v)) (imt_key_index ?s') list_end"
      using linked_insert[OF I(7)[unfolded sp(1)] I(4)[unfolded sp(1)] kf nf, of v] by (simp add: a_def b_def)
    show "unat (imt_next_append_index ?s') \<le> 2 ^ imt_ht ?s'" using nb n1 t1(2) t2(2) by simp
    show "v3_stores t z (imt_tree ?s') (imt_hashes q z ?s')" using t2(3) hs by simp
  qed
  have fn: "?f1 (unat n) = z" using ib(1) by (simp add: imt_hashes_def n_def)
  have rep: "insert_report t z q s ?s' \<lparr>predecessor_proof = p1, new_leaf_proof = p2, new_leaf = b,
      updated_predecessor = a, predecessor_index = i, new_leaf_index = n, ins_modified_nodes = ns\<rparr>" for ns
    using set_leaf_proof_verifies[OF I(9) ib(2) t1(1)] set_leaf_proof_verifies[OF t1(3) nb1 t2(1)] p1 p2 fn
      v3_root[OF I(9)] v3_root[OF t2(3)] t1(2) t2(2)
    by (simp add: insert_report_def imt_get_root_def)
  have "\<not> imt_next_append_index s > v3_get_max_leaf_index (imt_tree s)"
    using imt_full_iff[OF assms(1)] assms(3) by simp
  hence "\<exists>ns. imt_insert (mk_hasher t z) q s k v = Some (Inr \<lparr>predecessor_proof = p1, new_leaf_proof = p2, new_leaf = b,
      updated_predecessor = a, predecessor_index = i, new_leaf_index = n, ins_modified_nodes = ns\<rparr>, ?s')"
    using imt_keys_iff(1)[OF assms(1), of k] assms(2) sp(4,5) t1(1) t2(1) collect_path[OF t2(3)]
    by (simp add: imt_insert_def n_def[symmetric] Let_def a_def b_def leaf_of_def)
  thus ?thesis using inv rep t1(2) t2(2) by (fastforce simp: n_def)
qed

lemma imt_leaf_of_key:
  assumes "imt_inv t z q s m" "m k = Some v"
  obtains i ys zs where "map_of (imt_key_index s) k = Some i" "imt_key_index s = ys @ (k, i) # zs"
    "imt_leaves s i = Some (leaf_of m k (first_or list_end zs))" "unat i < 2 ^ imt_ht s"
    "imt_hashes q z s (unat i) = compute_hash q (leaf_of m k (first_or list_end zs))"
proof -
  note I = imt_invD[OF assms(1)]
  obtain i where i: "(k, i) \<in> set (imt_key_index s)" using assms(2) I(3) by force
  obtain ys zs where sp: "imt_key_index s = ys @ (k, i) # zs"
      "imt_leaves s i = Some (leaf_of m k (first_or list_end zs))"
    using linked_leaf[OF I(7) i] by blast
  have "imt_hashes q z s (unat i) = compute_hash q (leaf_of m k (first_or list_end zs))"
    using imt_index_bound(1)[OF assms(1) i] sp(2) by (simp add: imt_hashes_def)
  thus ?thesis using that sp imt_keys_iff(2)[OF assms(1)] i imt_index_bound(2)[OF assms(1) i] by blast
qed

definition update_report ::
  "(q_hash_out \<Rightarrow> q_hash_out \<Rightarrow> q_hash_out) \<Rightarrow> field_hash \<Rightarrow> imt \<Rightarrow> imt \<Rightarrow> imt_update_result \<Rightarrow> bool" where
  "update_report t q s s' r \<longleftrightarrow>
     dmp_verify t (leaf_proof r) \<and> Some (dmp_old_root (leaf_proof r)) = imt_get_root s \<and>
     Some (dmp_new_root (leaf_proof r)) = imt_get_root s' \<and>
     dmp_new_value (leaf_proof r) = compute_hash q (updated_leaf r)"

lemma imt_hashes_update:
  "unat i < unat (imt_next_append_index s) \<Longrightarrow>
   imt_hashes q z (s\<lparr>imt_tree := tree, imt_leaves := (imt_leaves s)(i \<mapsto> a)\<rparr>) =
   (imt_hashes q z s)(unat i := compute_hash q a)"
proof
  fix j
  assume i: "unat i < unat (imt_next_append_index s)"
  show "imt_hashes q z (s\<lparr>imt_tree := tree, imt_leaves := (imt_leaves s)(i \<mapsto> a)\<rparr>) j =
      ((imt_hashes q z s)(unat i := compute_hash q a)) j"
  proof (cases "j < unat (imt_next_append_index s)")
    case True
    hence "(of_nat j = i) = (j = unat i)"
      using unsigned_less[of "imt_next_append_index s", where 'a = nat] of_nat_eq_u64[of j i] by simp
    thus ?thesis using True by (simp add: imt_hashes_def)
  next
    case False
    thus ?thesis using i by (simp add: imt_hashes_def)
  qed
qed

lemma imt_update_ok:
  assumes "imt_inv t z q s m" "m k = Some v0"
  shows "\<exists>r s'. imt_update (mk_hasher t z) q s k v = Some (Inr r, s') \<and> imt_inv t z q s' (m(k \<mapsto> v)) \<and>
    v3_height (imt_tree s') = v3_height (imt_tree s) \<and>
    imt_next_append_index s' = imt_next_append_index s \<and> update_report t q s s' r"
proof -
  note I = imt_invD[OF assms(1)]
  obtain i ys zs where i: "map_of (imt_key_index s) k = Some i" "imt_key_index s = ys @ (k, i) # zs"
      "imt_leaves s i = Some (leaf_of m k (first_or list_end zs))" "unat i < 2 ^ imt_ht s"
    using imt_leaf_of_key[OF assms] by metis
  have mem: "(k, i) \<in> set (imt_key_index s)" using i(2) by simp
  define l where "l = leaf_of m k (first_or list_end zs)"
  define a where "a = l\<lparr>il_value := v\<rparr>"
  let ?f = "imt_hashes q z s"
  obtain p1 t1 where t1: "v3_set_leaf t (imt_tree s) i (compute_hash q a) = Some (p1, t1)"
      "v3_height t1 = v3_height (imt_tree s)" "v3_stores t z t1 (?f(unat i := compute_hash q a))"
    and p1: "dmp_old_root p1 = mnode t ?f (imt_ht s) 0" "dmp_new_value p1 = compute_hash q a"
      "dmp_new_root p1 = mnode t (?f(unat i := compute_hash q a)) (imt_ht s) 0"
    using v3_set[OF I(9) i(4), of "compute_hash q a"] by fastforce
  let ?s' = "s\<lparr>imt_tree := t1, imt_leaves := (imt_leaves s)(i \<mapsto> a)\<rparr>"
  have hs: "imt_hashes q z ?s' = ?f(unat i := compute_hash q a)"
    by (rule imt_hashes_update[OF imt_index_bound(1)[OF assms(1) mem]])
  have dm: "dom (m(k \<mapsto> v)) = dom m" using assms(2) by auto
  have lk: "linked (imt_leaves ?s') (m(k \<mapsto> v)) (imt_key_index ?s') list_end"
    using linked_update[OF I(7) mem I(5,4), of l v] i(3) by (simp add: a_def l_def)
  have inv: "imt_inv t z q ?s' (m(k \<mapsto> v))"
    unfolding imt_inv_def dm hs using I lk t1(2,3) by simp
  have rep: "update_report t q s ?s' \<lparr>leaf_proof = p1, updated_leaf = a, leaf_index = i, upd_modified_nodes = ns\<rparr>" for ns
    using set_leaf_proof_verifies[OF I(9) i(4) t1(1)] p1 v3_root[OF I(9)] v3_root[OF t1(3)] t1(2)
    by (simp add: update_report_def imt_get_root_def)
  have "\<exists>ns. imt_update (mk_hasher t z) q s k v =
      Some (Inr \<lparr>leaf_proof = p1, updated_leaf = a, leaf_index = i, upd_modified_nodes = ns\<rparr>, ?s')"
    using i(1,3) t1(1) collect_path[OF t1(3)]
    by (simp add: imt_update_def Let_def a_def l_def leaf_of_def)
  thus ?thesis using inv rep t1(2) by fastforce
qed

lemma imt_insert_errors:
  assumes "imt_inv t z q s m"
  shows "m k \<noteq> None \<Longrightarrow> imt_insert H q s k v = Some (Inl Key_Exists, s)"
    "m k = None \<Longrightarrow> unat (imt_next_append_index s) = 2 ^ imt_ht s \<Longrightarrow>
     imt_insert H q s k v = Some (Inl Imt_Full, s)"
    "m k = None \<Longrightarrow> imt_update H q s k v = Some (Inl Key_Not_Found, s)"
  using imt_keys_iff(1)[OF assms, of k] imt_full_iff[OF assms]
  by (simp_all add: imt_insert_def imt_update_def)

section \<open>Proofs of membership and non-membership\<close>

text \<open>A leaf whose link jumps over a key.\<close>

definition excludes :: "imt_leaf \<Rightarrow> q_hash_out \<Rightarrow> bool" where
  "excludes l k \<longleftrightarrow> il_key l < k \<and> (il_next_key l = hash_default \<or> k < il_next_key l)"

text \<open>A proof that a leaf is in the tree of \<open>s\<close>.\<close>

definition proves_leaf ::
  "(q_hash_out \<Rightarrow> q_hash_out \<Rightarrow> q_hash_out) \<Rightarrow> field_hash \<Rightarrow> imt \<Rightarrow> imt_leaf \<Rightarrow> q_hash_out merkle_proof \<Rightarrow> bool" where
  "proves_leaf t q s l p \<longleftrightarrow> mp_verify t p \<and> Some (mp_root p) = imt_get_root s \<and>
     length (mp_siblings p) = imt_ht s \<and> unat (mp_index p) < 2 ^ imt_ht s \<and> mp_value p = compute_hash q l"

lemma honest_proof:
  assumes "imt_inv t z q s m" "unat i < 2 ^ imt_ht s" "imt_hashes q z s (unat i) = compute_hash q l"
  shows "v3_get_leaf (imt_tree s) i = Some (ref_proof t (imt_ht s) (imt_hashes q z s) i)"
    "proves_leaf t q s l (ref_proof t (imt_ht s) (imt_hashes q z s) i)"
proof -
  note I = imt_invD[OF assms(1)]
  show "v3_get_leaf (imt_tree s) i = Some (ref_proof t (imt_ht s) (imt_hashes q z s) i)"
    by (rule v3_leaf[OF I(9) assms(2)])
  show "proves_leaf t q s l (ref_proof t (imt_ht s) (imt_hashes q z s) i)"
    using ref_proof_verifies[of "imt_ht s" i t "imt_hashes q z s"] I(10) assms(2,3) v3_root[OF I(9)]
    by (simp add: proves_leaf_def imt_get_root_def ref_proof_def ref_siblings_def)
qed

lemma first_key_above:
  assumes "keys_sorted (ys @ (k, i) # zs)"
  shows "zs = [] \<or> k < fst (first_or list_end zs)" "e \<in> set zs \<Longrightarrow> fst (first_or list_end zs) \<le> fst e"
proof -
  show "zs = [] \<or> k < fst (first_or list_end zs)" using assms by (cases zs) (auto simp: sorted_wrt_append)
  show "fst (first_or list_end zs) \<le> fst e" if "e \<in> set zs"
    using that assms by (cases zs) (auto simp: sorted_wrt_append)
qed

text \<open>A leaf of the list excludes no stored key.\<close>

lemma linked_excludes:
  assumes "imt_inv t z q s m" "imt_key_index s = ys @ (k0, i) # zs"
    "excludes (leaf_of m k0 (first_or list_end zs)) k"
  shows "m k = None"
proof (rule ccontr)
  assume "m k \<noteq> None"
  note I = imt_invD[OF assms(1)]
  have srt: "keys_sorted (ys @ (k0, i) # zs)" using I(1) assms(2) by simp
  have k: "k0 < k" "fst (first_or list_end zs) = hash_default \<or> k < fst (first_or list_end zs)"
    using assms(3) by (simp_all add: excludes_def leaf_of_def)
  have "k \<in> fst ` set (ys @ (k0, i) # zs)" using \<open>m k \<noteq> None\<close> I(3) assms(2) by (metis domIff)
  moreover have "k \<notin> fst ` set ys" using srt k(1) by (auto simp: sorted_wrt_append)
  ultimately obtain e where e: "e \<in> set zs" "fst e = k" using k(1) by auto
  have "zs \<noteq> []" using e(1) by auto
  hence "k0 < fst (first_or list_end zs)" using first_key_above(1)[OF srt] by blast
  moreover have "hash_default \<le> k0" using default_less[of k0] by (cases "k0 = hash_default") auto
  ultimately have "fst (first_or list_end zs) \<noteq> hash_default" by auto
  hence "k < fst (first_or list_end zs)" using k(2) by blast
  thus False using first_key_above(2)[OF srt e(1)] e(2) by simp
qed

lemma membership_ok:
  assumes "imt_inv t z q s m"
  shows "m k = None \<Longrightarrow> get_membership_proof s k = Some None"
    "m k = Some v \<Longrightarrow> \<exists>l p. get_membership_proof s k = Some (Some (l, p)) \<and>
      il_key l = k \<and> il_value l = v \<and> proves_leaf t q s l p"
proof -
  show "get_membership_proof s k = Some None" if "m k = None"
    using imt_keys_iff(1)[OF assms, of k] that by (simp add: get_membership_proof_def)
  assume v: "m k = Some v"
  obtain i ys zs where i: "map_of (imt_key_index s) k = Some i"
    "imt_leaves s i = Some (leaf_of m k (first_or list_end zs))" "unat i < 2 ^ imt_ht s"
    "imt_hashes q z s (unat i) = compute_hash q (leaf_of m k (first_or list_end zs))"
    using imt_leaf_of_key[OF assms v] by metis
  show "\<exists>l p. get_membership_proof s k = Some (Some (l, p)) \<and>
      il_key l = k \<and> il_value l = v \<and> proves_leaf t q s l p"
    using honest_proof[OF assms i(3,4)] i(1,2) v by (simp add: get_membership_proof_def leaf_of_def)
qed

lemma non_membership_ok:
  assumes "imt_inv t z q s m"
  shows "m k \<noteq> None \<Longrightarrow> get_non_membership_proof s k = Some (Inl Key_Exists)"
    "m k = None \<Longrightarrow> \<exists>l p. get_non_membership_proof s k = Some (Inr (l, p)) \<and>
      excludes l k \<and> proves_leaf t q s l p"
proof -
  show "get_non_membership_proof s k = Some (Inl Key_Exists)" if "m k \<noteq> None"
    using imt_keys_iff(1)[OF assms, of k] that by (simp add: get_non_membership_proof_def)
  assume k: "m k = None"
  obtain ys p i zs where sp: "imt_key_index s = ys @ (p, i) # zs" "p < k" "\<forall>e\<in>set zs. k < fst e"
    "find_predecessor s k = Inr (i, leaf_of m p (first_or list_end zs))"
    using imt_split[OF assms k] by metis
  have mem: "(p, i) \<in> set (imt_key_index s)" by (simp add: sp(1))
  have "imt_leaves s i = Some (leaf_of m p (first_or list_end zs))"
    using imt_invD(7)[OF assms] by (simp add: sp(1) linked_append)
  hence h: "imt_hashes q z s (unat i) = compute_hash q (leaf_of m p (first_or list_end zs))"
    using imt_index_bound(1)[OF assms mem] by (simp add: imt_hashes_def)
  have "excludes (leaf_of m p (first_or list_end zs)) k"
    using sp(2,3) by (cases zs) (simp_all add: excludes_def leaf_of_def)
  thus "\<exists>l p. get_non_membership_proof s k = Some (Inr (l, p)) \<and> excludes l k \<and> proves_leaf t q s l p"
    using honest_proof[OF assms imt_index_bound(2)[OF assms mem] h] sp(4) k imt_keys_iff(1)[OF assms, of k]
    by (simp add: get_non_membership_proof_def)
qed

text \<open>
  What a proof for a leaf that is not stored exhibits: two preimages of one node, found by comparing
  the proof with the tree's own one; a second preimage of the stored leaf's hash; or a preimage of
  the empty leaf.
\<close>

definition breaks_hash ::
  "(q_hash_out \<Rightarrow> q_hash_out \<Rightarrow> q_hash_out) \<Rightarrow> q_hash_out \<Rightarrow> field_hash \<Rightarrow> imt \<Rightarrow> imt_leaf \<Rightarrow>
   q_hash_out merkle_proof \<Rightarrow> q_hash_out merkle_proof \<Rightarrow> bool" where
  "breaks_hash t z q s l p p' \<longleftrightarrow>
     (case extract_collision t (mp_index p) 0 (mp_value p) (mp_siblings p) (mp_value p') (mp_siblings p') of
        Some (x, y) \<Rightarrow> x \<noteq> y \<and> case_prod t x = case_prod t y
      | None \<Rightarrow>
          if mp_index p < imt_next_append_index s
          then (case get_leaf_preimage s (mp_index p) of
                  Some l' \<Rightarrow> l' \<noteq> l \<and> compute_hash q l' = compute_hash q l
                | None \<Rightarrow> False)
          else compute_hash q l = z)"

lemma used_index:
  assumes "imt_inv t z q s m" "i < imt_next_append_index s"
  obtains k ys zs where "imt_key_index s = ys @ (k, i) # zs" "m k \<noteq> None"
    "imt_leaves s i = Some (leaf_of m k (first_or list_end zs))"
proof -
  note I = imt_invD[OF assms(1)]
  have "unat i \<in> {0..<unat (imt_next_append_index s)}" using assms(2) by (simp add: word_less_nat_alt)
  then obtain e where e: "e \<in> set (imt_key_index s)" "unat i = unat (snd e)" unfolding I(6)[symmetric] by blast
  hence mem: "(fst e, i) \<in> set (imt_key_index s)" by (metis prod.collapse word_unat_eq_iff)
  obtain ys zs where "imt_key_index s = ys @ (fst e, i) # zs"
      "imt_leaves s i = Some (leaf_of m (fst e) (first_or list_end zs))"
    using linked_leaf[OF I(7) mem] by metis
  moreover have "fst e \<in> dom m" using e(1) I(3) by simp
  ultimately show ?thesis using that[of ys "fst e" zs] by (simp add: domIff)
qed

lemma extract_collision_sound:
  "extract_collision t index i v ss w rs = Some (x, y) \<Longrightarrow> x \<noteq> y \<and> case_prod t x = case_prod t y"
  by (induction t index i v ss w rs rule: extract_collision.induct) (auto simp: Let_def split: if_splits)

lemma proves_leaf_sound:
  assumes "imt_inv t z q s m" "proves_leaf t q s l p"
    "\<not> (mp_index p < imt_next_append_index s \<and> imt_leaves s (mp_index p) = Some l)"
  shows "\<exists>p'. v3_get_leaf (imt_tree s) (mp_index p) = Some p' \<and> breaks_hash t z q s l p p'"
proof -
  note I = imt_invD[OF assms(1)]
  let ?i = "mp_index p" and ?f = "imt_hashes q z s"
  let ?p' = "ref_proof t (imt_ht s) ?f ?i"
  let ?x = "extract_collision t ?i 0 (mp_value p) (mp_siblings p) (mp_value ?p') (mp_siblings ?p')"
  have pl: "mp_verify t p" "Some (mp_root p) = imt_get_root s" "length (mp_siblings p) = imt_ht s"
    "unat ?i < 2 ^ imt_ht s" "mp_value p = compute_hash q l" using assms(2) by (simp_all add: proves_leaf_def)
  have g: "v3_get_leaf (imt_tree s) ?i = Some ?p'" by (rule v3_leaf[OF I(9) pl(4)])
  have h64: "imt_ht s \<le> 64" using I(10) by simp
  have "mp_verify t ?p'" by (rule ref_proof_verifies[OF h64 pl(4)])
  moreover have "mp_root ?p' = mp_root p" "mp_index ?p' = ?i" "length (mp_siblings ?p') = imt_ht s"
    using pl(2) v3_root[OF I(9)] by (simp_all add: ref_proof_def ref_siblings_def imt_get_root_def)
  ultimately have rl: "root_loop t ?i 0 (mp_value p) (mp_siblings p) = root_loop t ?i 0 (mp_value ?p') (mp_siblings ?p')"
    and ln: "length (mp_siblings p) = length (mp_siblings ?p')"
    using pl(1,3) by (simp_all add: mp_verify_def verify_merkle_proof_core_def compute_root_merkle_proof_generic_def)
  have "breaks_hash t z q s l p ?p'"
  proof (cases ?x)
    case None
    hence v: "mp_value p = mp_value ?p'" using extract_collision_correct[OF rl ln] by fastforce
    have hv: "compute_hash q l = ?f (unat ?i)" using v pl(5) by (simp add: ref_proof_def)
    show ?thesis
    proof (cases "?i < imt_next_append_index s")
      case True
      then obtain l' where l': "imt_leaves s ?i = Some l'" using used_index[OF assms(1) True] by blast
      have "compute_hash q l' = compute_hash q l"
        using hv l' True by (simp add: imt_hashes_def word_less_nat_alt)
      thus ?thesis using None True l' assms(3) by (simp add: breaks_hash_def get_leaf_preimage_def)
    next
      case False
      thus ?thesis using None hv by (simp add: breaks_hash_def imt_hashes_def word_less_nat_alt)
    qed
  next
    case (Some xy)
    thus ?thesis using extract_collision_sound[of t ?i 0] by (cases xy) (auto simp: breaks_hash_def)
  qed
  thus ?thesis using g by blast
qed

section \<open>Sequences of upserts\<close>

fun imt_run :: "q_hash_out hasher \<Rightarrow> field_hash \<Rightarrow> imt \<Rightarrow> (q_hash_out \<times> q_hash_out) list \<Rightarrow> imt option" where
  "imt_run H q s [] = Some s"
| "imt_run H q s ((k, v) # kvs) =
     (case imt_upsert H q s k v of Some (Inr _, s') \<Rightarrow> imt_run H q s' kvs | _ \<Rightarrow> None)"

lemma imt_upsert_ok:
  assumes "imt_inv t z q s m" "unat (imt_next_append_index s) < 2 ^ imt_ht s"
  shows "\<exists>r s'. imt_upsert (mk_hasher t z) q s k v = Some (Inr r, s') \<and> imt_inv t z q s' (m(k \<mapsto> v)) \<and>
    v3_height (imt_tree s') = v3_height (imt_tree s) \<and>
    unat (imt_next_append_index s') \<le> Suc (unat (imt_next_append_index s))"
proof (cases "m k")
  case None
  have "unat (imt_next_append_index s + 1) \<le> Suc (unat (imt_next_append_index s))"
    unfolding unat_word_ariths by (rule order.trans[OF mod_less_eq_dividend]) simp
  thus ?thesis using imt_insert_ok[OF assms(1) None assms(2), of v] imt_keys_iff(1)[OF assms(1), of k] None
    by (fastforce simp: imt_upsert_def)
next
  case (Some v0)
  thus ?thesis using imt_update_ok[OF assms(1) Some, of v] imt_keys_iff(1)[OF assms(1), of k]
    by (fastforce simp: imt_upsert_def)
qed

lemma imt_run_ok:
  assumes "imt_inv t z q s m" "unat (imt_next_append_index s) + length kvs \<le> 2 ^ imt_ht s"
  shows "\<exists>s'. imt_run (mk_hasher t z) q s kvs = Some s' \<and> imt_inv t z q s' (m ++ map_of (rev kvs)) \<and>
    v3_height (imt_tree s') = v3_height (imt_tree s)"
  using assms
proof (induction kvs arbitrary: s m)
  case (Cons e kvs)
  obtain k v where e: "e = (k, v)" by (cases e)
  have room: "unat (imt_next_append_index s) < 2 ^ imt_ht s" using Cons.prems(2) by simp
  obtain r s1 where s1: "imt_upsert (mk_hasher t z) q s k v = Some (Inr r, s1)" "imt_inv t z q s1 (m(k \<mapsto> v))"
    "v3_height (imt_tree s1) = v3_height (imt_tree s)"
    "unat (imt_next_append_index s1) \<le> Suc (unat (imt_next_append_index s))"
    using imt_upsert_ok[OF Cons.prems(1) room] by blast
  have "unat (imt_next_append_index s1) + length kvs \<le> 2 ^ imt_ht s1" using s1(3,4) Cons.prems(2) by simp
  then obtain s' where s': "imt_run (mk_hasher t z) q s1 kvs = Some s'"
      "imt_inv t z q s' (m(k \<mapsto> v) ++ map_of (rev kvs))" "v3_height (imt_tree s') = v3_height (imt_tree s1)"
    using Cons.IH[OF s1(2)] by blast
  have "m ++ map_of (rev (e # kvs)) = m(k \<mapsto> v) ++ map_of (rev kvs)" by (simp add: e)
  hence "imt_inv t z q s' (m ++ map_of (rev (e # kvs)))" using s'(2) by (rule ssubst[where P = "imt_inv t z q s'"])
  moreover have "imt_run (mk_hasher t z) q s (e # kvs) = Some s'" using s1(1) s'(1) by (simp add: e)
  ultimately show ?case using s'(3) s1(3) by metis
qed simp

section \<open>Recovery from the stored leaves\<close>

fun imt_restore :: "q_hash_out hasher \<Rightarrow> field_hash \<Rightarrow> imt \<Rightarrow> (u64 \<times> imt_leaf) list \<Rightarrow> imt option" where
  "imt_restore H q s [] = Some s"
| "imt_restore H q s ((i, l) # ls) = do { s \<leftarrow> restore_leaf H q s i l; imt_restore H q s ls }"

definition stored_hashes :: "field_hash \<Rightarrow> q_hash_out \<Rightarrow> imt \<Rightarrow> nat \<Rightarrow> q_hash_out" where
  "stored_hashes q z r j =
     (if j < 2 ^ 64 then (case imt_leaves r (of_nat j) of None \<Rightarrow> z | Some l \<Rightarrow> compute_hash q l) else z)"

text \<open>The state \<open>r\<close> holds the leaves \<open>T\<close> of \<open>s\<close>, and some leaf at position 0.\<close>

definition restored ::
  "(q_hash_out \<Rightarrow> q_hash_out \<Rightarrow> q_hash_out) \<Rightarrow> q_hash_out \<Rightarrow> field_hash \<Rightarrow> imt \<Rightarrow> u64 set \<Rightarrow> imt \<Rightarrow> bool" where
  "restored t z q s T r \<longleftrightarrow>
     keys_sorted (imt_key_index r) \<and> set (imt_key_index r) = {e \<in> set (imt_key_index s). snd e \<in> insert 0 T} \<and>
     v3_height (imt_tree r) = v3_height (imt_tree s) \<and> dom (imt_leaves r) = insert 0 T \<and>
     (\<forall>i\<in>T. imt_leaves r i = imt_leaves s i) \<and> v3_stores t z (imt_tree r) (stored_hashes q z r) \<and>
     (\<forall>i\<in>insert 0 T. i < imt_next_append_index r) \<and> (\<exists>i\<in>insert 0 T. imt_next_append_index r = i + 1)"

lemma restoredD:
  assumes "restored t z q s T r"
  shows "keys_sorted (imt_key_index r)" "set (imt_key_index r) = {e \<in> set (imt_key_index s). snd e \<in> insert 0 T}"
    "v3_height (imt_tree r) = v3_height (imt_tree s)" "dom (imt_leaves r) = insert 0 T"
    "\<forall>i\<in>T. imt_leaves r i = imt_leaves s i" "v3_stores t z (imt_tree r) (stored_hashes q z r)"
    "\<forall>i\<in>insert 0 T. i < imt_next_append_index r" "\<exists>i\<in>insert 0 T. imt_next_append_index r = i + 1"
  using assms unfolding restored_def by blast+

lemma stored_hashes_upd:
  "stored_hashes q z (r\<lparr>imt_tree := tree, imt_key_index := ks, imt_leaves := (imt_leaves r)(i \<mapsto> l),
     imt_next_append_index := n\<rparr>) = (stored_hashes q z r)(unat i := compute_hash q l)"
proof
  fix j
  show "stored_hashes q z (r\<lparr>imt_tree := tree, imt_key_index := ks, imt_leaves := (imt_leaves r)(i \<mapsto> l),
     imt_next_append_index := n\<rparr>) j = ((stored_hashes q z r)(unat i := compute_hash q l)) j"
    using of_nat_eq_u64[of j i] unsigned_less[of i, where 'a = nat]
    by (cases "j = unat i") (auto simp: stored_hashes_def)
qed

lemma restore_step:
  assumes "imt_inv t z q s m" "restored t z q s T r" "i < imt_next_append_index s" "imt_leaves s i = Some l"
  shows "\<exists>r'. restore_leaf (mk_hasher t z) q r i l = Some r' \<and> restored t z q s (insert i T) r'"
proof -
  note I = imt_invD[OF assms(1)]
  note R = assms(2)[unfolded restored_def]
  obtain k ys zs where k: "imt_key_index s = ys @ (k, i) # zs" "imt_leaves s i = Some (leaf_of m k (first_or list_end zs))"
    using used_index[OF assms(1,3)] by metis
  have mem: "(k, i) \<in> set (imt_key_index s)" using k(1) by simp
  have lk: "il_key l = k" using k(2) assms(4) by (simp add: leaf_of_def)
  have ib: "unat i < 2 ^ unat (v3_height (imt_tree r))" using imt_index_bound(2)[OF assms(1) mem] R by simp
  obtain tree where tr: "v3_set_leaf_no_proof t (imt_tree r) i (compute_hash q l) = Some tree"
      "v3_height tree = v3_height (imt_tree r)" "v3_stores t z tree ((stored_hashes q z r)(unat i := compute_hash q l))"
    using v3_set_no_proof[of t z "imt_tree r" "stored_hashes q z r" i "compute_hash q l"] R ib by blast
  let ?n = "if i \<ge> imt_next_append_index r then i + 1 else imt_next_append_index r"
  let ?r = "r\<lparr>imt_tree := tree, imt_key_index := btree_insert k i (imt_key_index r),
    imt_leaves := (imt_leaves r)(i \<mapsto> l), imt_next_append_index := ?n\<rparr>"
  have step: "restore_leaf (mk_hasher t z) q r i l = Some ?r"
    using tr(1) by (simp add: restore_leaf_def lk)
  have same: "fst e = k \<longleftrightarrow> e = (k, i)" if "e \<in> set (imt_key_index s)" for e
    using that mem eq_key_imp_eq_value[OF I(5)] by (metis prod.collapse fst_conv)
  have snd_same: "snd e = i \<longleftrightarrow> e = (k, i)" if "e \<in> set (imt_key_index s)" for e
    using that mem I(4) by (metis distinct_map inj_onD snd_conv)
  have ks: "set (btree_insert k i (imt_key_index r)) = {e \<in> set (imt_key_index s). snd e \<in> insert 0 (insert i T)}"
  proof (rule set_eqI)
    fix e
    have "e \<in> set (btree_insert k i (imt_key_index r)) \<longleftrightarrow>
        e = (k, i) \<or> e \<in> set (imt_key_index s) \<and> snd e \<in> insert 0 T \<and> fst e \<noteq> k"
      using btree_insert_sorted(1)[of "imt_key_index r" k i] R by simp
    thus "e \<in> set (btree_insert k i (imt_key_index r)) \<longleftrightarrow>
        e \<in> {e \<in> set (imt_key_index s). snd e \<in> insert 0 (insert i T)}"
      using same[of e] snd_same[of e] mem by (cases "e = (k, i)") (simp, simp, blast)
  qed
  have "unat i + 1 < 2 ^ 64" using imt_index_bound(2)[OF assms(1) mem] pow63[OF I(10)] by simp
  hence i1: "i < i + 1" using unat_add_small[of i 1] by (simp add: word_less_nat_alt)
  have nx: "\<forall>j\<in>insert 0 (insert i T). j < ?n" "\<exists>j\<in>insert 0 (insert i T). ?n = j + 1"
    using R i1 by (auto simp: not_le intro: order.strict_trans order.strict_trans1)
  have "restored t z q s (insert i T) ?r"
    unfolding restored_def stored_hashes_upd
    using R ks nx tr(2,3) btree_insert_sorted(2)[of "imt_key_index r" k i] assms(4) by auto
  thus ?thesis using step by blast
qed

definition leaf_list :: "imt \<Rightarrow> u64 list \<Rightarrow> (u64 \<times> imt_leaf) list" where
  "leaf_list s js = map (\<lambda>i. (i, the (get_leaf_preimage s i))) js"

lemma restore_steps:
  assumes "imt_inv t z q s m" "restored t z q s T r" "\<forall>i\<in>set js. i < imt_next_append_index s"
  shows "\<exists>r'. imt_restore (mk_hasher t z) q r (leaf_list s js) = Some r' \<and> restored t z q s (T \<union> set js) r'"
  using assms(2,3)
proof (induction js arbitrary: T r)
  case (Cons i js)
  obtain l where l: "imt_leaves s i = Some l" using used_index[OF assms(1), of i] Cons.prems(2) by auto
  obtain r1 where r1: "restore_leaf (mk_hasher t z) q r i l = Some r1" "restored t z q s (insert i T) r1"
    using restore_step[OF assms(1) Cons.prems(1) _ l] Cons.prems(2) by auto
  thus ?case using Cons.IH[OF r1(2)] Cons.prems(2) l by (simp add: leaf_list_def get_leaf_preimage_def)
qed (simp add: leaf_list_def)

lemma restored_new:
  assumes "imt_inv t z q s m"
  shows "\<exists>r. imt_new (mk_hasher t z) q (imt_get_height s) = Some r \<and> restored t z q s {} r"
proof -
  note I = imt_invD[OF assms]
  obtain tree where tr: "v3_set_leaf_no_proof t (v3_new (mk_hasher t z) (imt_get_height s)) 0 (compute_hash q imt_leaf_default) = Some tree"
    "v3_height tree = imt_get_height s" "v3_stores t z tree ((\<lambda>_. z)(0 := compute_hash q imt_leaf_default))"
    using v3_set_no_proof[OF v3_new_holds[of "imt_get_height s" t z], of 0 "compute_hash q imt_leaf_default"] I(10)
    by (auto simp: imt_get_height_def)
  let ?r = "\<lparr>imt_tree = tree, imt_leaves = [0 \<mapsto> imt_leaf_default],
    imt_key_index = [(hash_default, 0)], imt_next_append_index = 1\<rparr>"
  have "stored_hashes q z ?r = (\<lambda>_. z)(0 := compute_hash q imt_leaf_default)"
  proof
    fix j
    show "stored_hashes q z ?r j = ((\<lambda>_. z)(0 := compute_hash q imt_leaf_default)) j"
      using of_nat_eq_u64[of j 0] by (cases "j = 0") (simp_all add: stored_hashes_def)
  qed
  moreover have "{e \<in> set (imt_key_index s). snd e = 0} = {(hash_default, 0)}"
    using I(11) imt_index_unique[OF assms, of _ 0 hash_default] by auto
  ultimately have "restored t z q s {} ?r" using tr(2,3) by (simp add: restored_def imt_get_height_def)
  thus ?thesis using tr(1) by (simp add: imt_new_def)
qed

lemma of_nat_below: "j < unat n \<Longrightarrow> of_nat j < n" for n :: u64
  using unsigned_less[of n, where 'a = nat] unat_of_nat_u64[of j] by (simp add: word_less_nat_alt)

lemma restored_all:
  assumes "imt_inv t z q s m" "restored t z q s T r" "T = {i. i < imt_next_append_index s}"
  shows "imt_inv t z q r m" "imt_key_index r = imt_key_index s"
    "imt_next_append_index r = imt_next_append_index s" "imt_get_root r = imt_get_root s"
    "v3_height (imt_tree r) = v3_height (imt_tree s)"
proof -
  note I = imt_invD[OF assms(1)]
  note R = restoredD[OF assms(2)]
  have used: "snd e \<in> T" if "e \<in> set (imt_key_index s)" for e
    using imt_index_bound(1)[OF assms(1), of "fst e" "snd e"] that by (simp add: assms(3) word_less_nat_alt)
  have T0: "insert 0 T = T" using used[OF I(11)] by auto
  have "set (imt_key_index r) = set (imt_key_index s)" unfolding R(2) using used by auto
  thus ks: "imt_key_index r = imt_key_index s" by (rule keys_sorted_eq[OF R(1) I(1)])
  obtain i where i: "i < imt_next_append_index s" "imt_next_append_index r = i + 1"
    using R(8) unfolding T0 unfolding assms(3) by blast
  have "imt_next_append_index s \<noteq> 0" using i(1) by auto
  hence pr: "unat (imt_next_append_index s - 1) = unat (imt_next_append_index s) - 1" by (rule unat_minus_one)
  have b: "unat (imt_next_append_index s) < 2 ^ 64" using unsigned_less[of "imt_next_append_index s", where 'a = nat] by simp
  have ni: "unat (imt_next_append_index r) = unat i + 1"
    using i unat_add_small[of i 1] b by (simp add: word_less_nat_alt)
  have "imt_next_append_index s - 1 \<in> T"
    using i(1) pr assms(3) by (simp add: word_less_nat_alt)
  hence "imt_next_append_index s - 1 < imt_next_append_index r" using R(7) T0 by blast
  hence "unat (imt_next_append_index r) = unat (imt_next_append_index s)"
    using ni i(1) pr by (simp add: word_less_nat_alt)
  thus nx: "imt_next_append_index r = imt_next_append_index s" by (simp add: word_unat_eq_iff)
  have lv: "imt_leaves r i = imt_leaves s i" if "i < imt_next_append_index s" for i using R(5) that assms(3) by blast
  have lvj: "imt_leaves r (of_nat j) = imt_leaves s (of_nat j)" if "j < unat (imt_next_append_index s)" for j
    using lv[of "of_nat j"] of_nat_below[OF that] by simp
  have hs: "imt_hashes q z r = imt_hashes q z s" by (rule ext) (simp add: imt_hashes_def nx lvj)
  have st: "stored_hashes q z r = imt_hashes q z s"
  proof
    fix j
    have d: "imt_leaves r i \<noteq> None \<longleftrightarrow> i < imt_next_append_index s" for i
      using R(4) unfolding T0 unfolding assms(3) by blast
    show "stored_hashes q z r j = imt_hashes q z s j"
    proof (cases "j < unat (imt_next_append_index s)")
      case True
      hence "imt_leaves r (of_nat j) \<noteq> None" using d of_nat_below[OF True] by blast
      thus ?thesis using True b lvj[OF True] by (auto simp: stored_hashes_def imt_hashes_def)
    next
      case False
      hence "j < 2 ^ 64 \<Longrightarrow> imt_leaves r (of_nat j) = None"
        using d[of "of_nat j"] unat_of_nat_u64[of j] by (simp add: word_less_nat_alt)
      thus ?thesis using False by (simp add: stored_hashes_def imt_hashes_def)
    qed
  qed
  have "imt_leaves s i = imt_leaves r i" if "(k, i) \<in> set (imt_key_index s)" for k i
    using lv[of i] used[OF that] assms(3) by simp
  hence lk: "linked (imt_leaves r) m (imt_key_index s) list_end"
    using I(7) linked_cong[of "imt_key_index s" "imt_leaves s" "imt_leaves r" m m list_end] by blast
  show h: "v3_height (imt_tree r) = v3_height (imt_tree s)" by (rule R(3))
  have st': "v3_stores t z (imt_tree r) (imt_hashes q z s)" using R(6) st by simp
  show "imt_inv t z q r m" unfolding imt_inv_def using I lk st' hs ks nx h by simp
  show "imt_get_root r = imt_get_root s" using v3_root[OF st'] v3_root[OF I(9)] h by (simp add: imt_get_root_def)
qed

section \<open>Properties\<close>

text \<open>
  C10. An insertion refines adding an entry to a finite map. A present key and a full tree are refused
  without a change; otherwise the new state represents the map with the entry, and the report holds
  two verifying delta proofs that lead from the old root to the new one, first replacing the
  predecessor leaf, then filling an empty position with the new leaf.
\<close>

theorem imt_insert_refines:
  assumes "imt_inv t z q s m"
  shows "if m k \<noteq> None then imt_insert (mk_hasher t z) q s k v = Some (Inl Key_Exists, s)
    else if unat (imt_next_append_index s) = 2 ^ imt_ht s
    then imt_insert (mk_hasher t z) q s k v = Some (Inl Imt_Full, s)
    else \<exists>r s'. imt_insert (mk_hasher t z) q s k v = Some (Inr r, s') \<and> imt_inv t z q s' (m(k \<mapsto> v)) \<and>
      insert_report t z q s s' r"
  using imt_insert_errors[OF assms] imt_insert_ok[OF assms, of k v] imt_invD(8)[OF assms] by (auto simp: le_less)

theorem imt_insert_refines_witness:
  "\<exists>s r s'. imt_new (mk_hasher (\<lambda>a b. b) hash_default) (\<lambda>xs. QHashOut (hd xs) 1 2 3) 4 = Some s \<and>
     imt_insert (mk_hasher (\<lambda>a b. b) hash_default) (\<lambda>xs. QHashOut (hd xs) 1 2 3) s (QHashOut 5 0 0 0) (QHashOut 6 0 0 0) =
       Some (Inr r, s') \<and>
     insert_report (\<lambda>a b. b) hash_default (\<lambda>xs. QHashOut (hd xs) 1 2 3) s s' r"
proof -
  let ?t = "\<lambda>a b. b" and ?q = "\<lambda>xs. QHashOut (hd xs) 1 2 3"
  obtain s where s: "imt_new (mk_hasher ?t hash_default) ?q 4 = Some s"
    "imt_inv ?t hash_default ?q s [hash_default \<mapsto> hash_default]" "v3_height (imt_tree s) = 4"
    using imt_new_inv[of 4 ?t hash_default ?q] by auto
  have "imt_next_append_index s = 1" using s(1) by (auto simp: imt_new_def split: Option.bind_splits)
  thus ?thesis using imt_insert_refines[OF s(2), of "QHashOut 5 0 0 0" "QHashOut 6 0 0 0"] s(1,3)
    by (auto simp: hash_default_def)
qed

text \<open>
  C12. Any sequence of upserts that fits into a new tree succeeds, and the tree then represents the
  map that holds the last value written for every key, beside the sentinel.
\<close>

theorem imt_upserts_contents:
  assumes "unat h \<le> 63" "length kvs < 2 ^ unat h"
  shows "\<exists>s0 s. imt_new (mk_hasher t z) q h = Some s0 \<and> imt_run (mk_hasher t z) q s0 kvs = Some s \<and>
    imt_inv t z q s ([hash_default \<mapsto> hash_default] ++ map_of (rev kvs)) \<and> imt_get_height s = h"
proof -
  obtain s0 where s0: "imt_new (mk_hasher t z) q h = Some s0" "v3_height (imt_tree s0) = h"
    "imt_inv t z q s0 [hash_default \<mapsto> hash_default]" using imt_new_inv[OF assms(1)] by blast
  have "imt_next_append_index s0 = 1" using s0(1) by (auto simp: imt_new_def split: Option.bind_splits)
  hence "unat (imt_next_append_index s0) + length kvs \<le> 2 ^ imt_ht s0" using assms(2) s0(2) by simp
  from imt_run_ok[OF s0(3) this] show ?thesis using s0(1,2) unfolding imt_get_height_def by blast
qed

theorem imt_upserts_contents_witness:
  "\<exists>s0 s. imt_new (mk_hasher (\<lambda>a b. b) hash_default) (\<lambda>xs. hash_default) 2 = Some s0 \<and>
     imt_run (mk_hasher (\<lambda>a b. b) hash_default) (\<lambda>xs. hash_default) s0
       [(QHashOut 9 0 0 0, hash_default), (QHashOut 5 0 0 0, hash_default), (QHashOut 9 0 0 0, QHashOut 1 1 1 1)] = Some s \<and>
     imt_get_height s = 2"
  using imt_upserts_contents[of 2 "[(QHashOut 9 0 0 0, hash_default), (QHashOut 5 0 0 0, hash_default), (QHashOut 9 0 0 0, QHashOut 1 1 1 1)]"
      "\<lambda>a b. b" hash_default "\<lambda>xs. hash_default"] by auto

text \<open>
  C13. For a stored key the tree gives a verifying proof of the leaf with that key and its value, for an
  absent one a verifying proof of a leaf whose link jumps over the key, and each request for the other
  kind of proof is refused.
\<close>

theorem imt_proofs_complete:
  assumes "imt_inv t z q s m"
  shows "case m k of
      Some v \<Rightarrow> get_non_membership_proof s k = Some (Inl Key_Exists) \<and>
        (\<exists>l p. get_membership_proof s k = Some (Some (l, p)) \<and> il_key l = k \<and> il_value l = v \<and> proves_leaf t q s l p)
    | None \<Rightarrow> get_membership_proof s k = Some None \<and>
        (\<exists>l p. get_non_membership_proof s k = Some (Inr (l, p)) \<and> excludes l k \<and> proves_leaf t q s l p)"
  using membership_ok[OF assms, of k] non_membership_ok[OF assms, of k] by (cases "m k") simp_all

theorem imt_proofs_complete_witness:
  "\<exists>s l p. imt_new (mk_hasher (\<lambda>a b. b) hash_default) (\<lambda>xs. QHashOut (hd xs) 1 2 3) 4 = Some s \<and>
     get_non_membership_proof s (QHashOut 5 0 0 0) = Some (Inr (l, p)) \<and> excludes l (QHashOut 5 0 0 0)"
proof -
  let ?t = "\<lambda>a b. b" and ?q = "\<lambda>xs. QHashOut (hd xs) 1 2 3"
  obtain s where s: "imt_new (mk_hasher ?t hash_default) ?q 4 = Some s"
    "imt_inv ?t hash_default ?q s [hash_default \<mapsto> hash_default]"
    using imt_new_inv[of 4 ?t hash_default ?q] by auto
  thus ?thesis using imt_proofs_complete[OF s(2), of "QHashOut 5 0 0 0"] by (auto simp: hash_default_def)
qed

text \<open>
  C11. A verifying proof of a leaf against the root of the tree shows the truth about the map: the leaf's
  key has the leaf's value, and no key the leaf jumps over is stored. A proof that says anything else
  exhibits a broken hash, found by comparing it with the tree's own proof for the position: a collision
  of the compression function, a second preimage of a stored leaf, or a preimage of the empty leaf.
\<close>

theorem imt_proofs_sound:
  assumes "imt_inv t z q s m" "proves_leaf t q s l p"
    "m (il_key l) \<noteq> Some (il_value l) \<or> excludes l k \<and> m k \<noteq> None"
  shows "\<exists>p'. v3_get_leaf (imt_tree s) (mp_index p) = Some p' \<and> breaks_hash t z q s l p p'"
proof (rule proves_leaf_sound[OF assms(1,2)])
  show "\<not> (mp_index p < imt_next_append_index s \<and> imt_leaves s (mp_index p) = Some l)"
  proof
    assume used: "mp_index p < imt_next_append_index s \<and> imt_leaves s (mp_index p) = Some l"
    obtain k0 ys zs where k0: "imt_key_index s = ys @ (k0, mp_index p) # zs" "m k0 \<noteq> None"
      "l = leaf_of m k0 (first_or list_end zs)"
      using used_index[OF assms(1) conjunct1[OF used]] used by (metis option.inject)
    hence "m (il_key l) = Some (il_value l)" by (simp add: leaf_of_def)
    thus False using assms(3) linked_excludes[OF assms(1) k0(1), of k] k0(3) by simp
  qed
qed

theorem imt_proofs_sound_witness:
  "\<exists>s p p'. imt_new (mk_hasher (\<lambda>a b. b) hash_default) (\<lambda>xs. hash_default) 4 = Some s \<and>
     v3_get_leaf (imt_tree s) (mp_index p) = Some p' \<and>
     breaks_hash (\<lambda>a b. b) hash_default (\<lambda>xs. hash_default) s (imt_leaf_default\<lparr>il_key := QHashOut 7 0 0 0\<rparr>) p p'"
proof -
  let ?t = "\<lambda>a b. b" and ?q = "\<lambda>xs. hash_default" and ?l = "imt_leaf_default\<lparr>il_key := QHashOut 7 0 0 0\<rparr>"
  obtain s where s: "imt_new (mk_hasher ?t hash_default) ?q 4 = Some s"
    "imt_inv ?t hash_default ?q s [hash_default \<mapsto> hash_default]"
    using imt_new_inv[of 4 ?t hash_default ?q] by auto
  have h: "imt_hashes ?q hash_default s (unat (0 :: u64)) = compute_hash ?q ?l"
    by (simp add: imt_hashes_def compute_hash_def)
  have "[hash_default \<mapsto> hash_default] (il_key ?l) \<noteq> Some (il_value ?l)" by (simp add: hash_default_def)
  with imt_proofs_sound[OF s(2) honest_proof(2)[OF s(2) _ h]] show ?thesis using s(1) by fastforce
qed

text \<open>
  C28. Recovery: restoring the stored leaves on a new tree, in any order and even repeatedly, gives a
  tree with the same root, index and append position that represents the same map.
\<close>

theorem imt_restore_roundtrip:
  assumes "imt_inv t z q s m" "set js = {i. i < imt_next_append_index s}"
  shows "\<exists>r0 r. imt_new (mk_hasher t z) q (imt_get_height s) = Some r0 \<and>
    imt_restore (mk_hasher t z) q r0 (leaf_list s js) = Some r \<and> imt_inv t z q r m \<and>
    imt_get_root r = imt_get_root s \<and> imt_key_index r = imt_key_index s \<and>
    imt_next_append_index r = imt_next_append_index s"
proof -
  obtain r0 where r0: "imt_new (mk_hasher t z) q (imt_get_height s) = Some r0" "restored t z q s {} r0"
    using restored_new[OF assms(1)] by blast
  obtain r where r: "imt_restore (mk_hasher t z) q r0 (leaf_list s js) = Some r" "restored t z q s (set js) r"
    using restore_steps[OF assms(1) r0(2), of js] assms(2) by auto
  show ?thesis using r0(1) r(1) restored_all[OF assms(1) r(2) assms(2)] by blast
qed

theorem imt_restore_roundtrip_witness:
  "\<exists>s r0 r. imt_new (mk_hasher (\<lambda>a b. b) hash_default) (\<lambda>xs. QHashOut (hd xs) 1 2 3) 4 = Some s \<and>
     imt_new (mk_hasher (\<lambda>a b. b) hash_default) (\<lambda>xs. QHashOut (hd xs) 1 2 3) (imt_get_height s) = Some r0 \<and>
     imt_restore (mk_hasher (\<lambda>a b. b) hash_default) (\<lambda>xs. QHashOut (hd xs) 1 2 3) r0 (leaf_list s [0, 0]) = Some r \<and>
     imt_get_root r = imt_get_root s"
proof -
  let ?t = "\<lambda>a b. b" and ?q = "\<lambda>xs. QHashOut (hd xs) 1 2 3"
  obtain s where s: "imt_new (mk_hasher ?t hash_default) ?q 4 = Some s"
    "imt_inv ?t hash_default ?q s [hash_default \<mapsto> hash_default]"
    using imt_new_inv[of 4 ?t hash_default ?q] by auto
  have "imt_next_append_index s = 1" using s(1) by (auto simp: imt_new_def split: Option.bind_splits)
  moreover have "(i < 1) = (i = 0)" for i :: u64 by (auto simp: word_less_nat_alt unat_eq_zero)
  ultimately have "set [0, 0] = {i. i < imt_next_append_index s}" by simp
  from imt_restore_roundtrip[OF s(2) this] show ?thesis using s(1) by blast
qed

end
