(* ===== verification/Job_Laws.thy ===== *)
theory Job_Laws
  imports Job_Id
begin

text \<open>
  Properties of the job ids: the byte forms are exact, ids of one family aggregate in trees of any
  shape, and the ids of a tree of tasks meet at its root.
\<close>

section \<open>Byte codes\<close>









lemma mode_try_from_iff: "mode_try_from v = Inr m \<longleftrightarrow> v = mode_to_u32 m"
  by (cases m) (auto simp: mode_try_from_def)

section \<open>Byte forms\<close>

lemma length_fixed [simp]: "length (to_fixed_bytes j) = 24"
  by (simp add: to_fixed_bytes_def)




lemma between_skip:
  "bytes_between (Suc a) (Suc b) (x # bs) = bytes_between a b bs"
  "length xs \<le> a \<Longrightarrow> bytes_between a b (xs @ bs) = bytes_between (a - length xs) (b - length xs) bs"
  "length xs = n \<Longrightarrow> bytes_between 0 n (xs @ bs) = xs"
  by (simp_all add: bytes_between_def)










text \<open>The buffer with a prefix copies four bytes into a slice of three.\<close>

lemma with_ps_prefix_panics: "length prefix = 4 \<Longrightarrow> with_ps_prefix j prefix = None"
  by (simp add: with_ps_prefix_def copy_into_def)

text \<open>A job's witness and its output share one id.\<close>

lemma witness_id_is_output_id: "get_input_witness_id j = get_output_id j"
  by (simp add: get_input_witness_id_def get_output_id_def)

section \<open>Aggregation\<close>

datatype job_family = User_Family | Agg_Family proving_job_circuit_type

definition family :: "qjob \<Rightarrow> job_family option" where
  "family j =
     (if is_guta_proof_circuit_type j \<or> is_end_cap_proof_circuit_type j then Some User_Family
      else case get_agg_leaf_circuit_type_or_err (j_circuit_type j) of Inr l \<Rightarrow> Some (Agg_Family l) | Inl _ \<Rightarrow> None)"

lemma leaf_not_user: "get_agg_leaf_circuit_type_or_err c = Inr l \<Longrightarrow> \<not> guta_circuit c \<and> c \<noteq> UserEndCap \<and> c \<noteq> Circuit_Invalid"
  by (cases c) (simp_all add: get_agg_leaf_circuit_type_or_err_def guta_circuit_def)

lemma leaf_agg:
  "get_agg_leaf_circuit_type_or_err c = Inr l \<Longrightarrow>
   \<exists>a. get_agg_circuit_type_or_err l = Inr a \<and> get_agg_leaf_circuit_type_or_err a = Inr l"
  by (cases c) (auto simp: get_agg_leaf_circuit_type_or_err_def get_agg_circuit_type_or_err_def)

lemma guta_no_leaf: "guta_circuit c \<or> c = UserEndCap \<Longrightarrow> \<exists>e. get_agg_leaf_circuit_type_or_err c = Inl e"
  using leaf_not_user[of c] by (cases "get_agg_leaf_circuit_type_or_err c") auto

lemma family_User: "family j = Some User_Family \<longleftrightarrow> is_guta_proof_circuit_type j \<or> is_end_cap_proof_circuit_type j"
  by (simp add: family_def split: sum.splits)

lemma family_Agg: "family j = Some (Agg_Family l) \<longleftrightarrow> get_agg_leaf_circuit_type_or_err (j_circuit_type j) = Inr l"
  using leaf_not_user[of "j_circuit_type j"]
  by (auto simp: family_def is_guta_proof_circuit_type_def is_end_cap_proof_circuit_type_def split: sum.splits)

lemma family_cases:
  obtains "family j = None" | "family j = Some User_Family" | l where "family j = Some (Agg_Family l)"
  by (cases "family j") (auto intro: job_family.exhaust)

lemma merged_family:
  "family (new_job topic g gr sg ti c dt di) = (if guta_circuit c \<or> c = UserEndCap then Some User_Family
     else case get_agg_leaf_circuit_type_or_err c of Inr l \<Rightarrow> Some (Agg_Family l) | Inl _ \<Rightarrow> None)"
  by (simp add: family_def is_guta_proof_circuit_type_def is_end_cap_proof_circuit_type_def new_job_def)

text \<open>Two valid ids aggregate exactly when they have the same family, and the result stays in it.\<close>

lemma two_to_one_same:
  assumes "family a = Some f" "family b = Some f"
  shows "\<exists>c. two_to_one_circuit t a b = Some (Inr c) \<and> c \<noteq> Circuit_Invalid \<and>
    family (new_job topic g gr sg ti c dt di) = Some f"
proof (cases f)
  case User_Family
  hence u: "is_guta_proof_circuit_type a \<or> is_end_cap_proof_circuit_type a"
    "is_guta_proof_circuit_type b \<or> is_end_cap_proof_circuit_type b" using assms by (simp_all add: family_User)
  show ?thesis using u User_Family
    by (simp add: two_to_one_circuit_def Let_def merged_family guta_circuit_def)
next
  case (Agg_Family l)
  hence lf: "get_agg_leaf_circuit_type_or_err (j_circuit_type a) = Inr l"
    "get_agg_leaf_circuit_type_or_err (j_circuit_type b) = Inr l" using assms by (simp_all add: family_Agg)
  obtain c where c: "get_agg_circuit_type_or_err l = Inr c" "get_agg_leaf_circuit_type_or_err c = Inr l"
    using leaf_agg[OF lf(1)] by blast
  have "two_to_one_circuit t a b = Some (Inr c)"
    using lf c leaf_not_user[OF lf(1)]
    by (simp add: two_to_one_circuit_def Let_def is_guta_proof_circuit_type_def is_end_cap_proof_circuit_type_def)
  thus ?thesis using c leaf_not_user[OF c(2)] Agg_Family by (simp add: merged_family)
qed

lemma two_to_one_other:
  assumes "family a = None \<or> family a \<noteq> family b"
  shows "two_to_one_circuit t a b = None"
proof -
  have "\<not> ((is_guta_proof_circuit_type a \<or> is_end_cap_proof_circuit_type a) \<and>
      (is_guta_proof_circuit_type b \<or> is_end_cap_proof_circuit_type b))"
    using assms by (auto simp: family_User[symmetric])
  moreover have "\<not> (\<exists>l. get_agg_leaf_circuit_type_or_err (j_circuit_type a) = Inr l \<and>
      get_agg_leaf_circuit_type_or_err (j_circuit_type b) = Inr l)"
    using assms by (auto simp: family_Agg[symmetric])
  ultimately show ?thesis by (auto simp: two_to_one_circuit_def Let_def split: sum.splits)
qed

subsection \<open>Aggregation trees\<close>

datatype agg_tree = Agg_Leaf qjob | Agg_Node u64 u8 u8 agg_tree agg_tree

fun agg_leaves :: "agg_tree \<Rightarrow> qjob list" where
  "agg_leaves (Agg_Leaf j) = [j]"
| "agg_leaves (Agg_Node _ _ _ l r) = agg_leaves l @ agg_leaves r"

fun aggregate_tree :: "u64 \<Rightarrow> agg_tree \<Rightarrow> (job_error + qjob) option" where
  "aggregate_tree t (Agg_Leaf j) = Some (Inr j)"
| "aggregate_tree t (Agg_Node i lv rl l r) =
     do { a \<leftarrow> aggregate_tree t l;
          b \<leftarrow> aggregate_tree t r;
          case (a, b) of
            (Inr a, Inr b) \<Rightarrow> new_two_to_one_proof_id t a b i lv rl
          | (Inl e, _) \<Rightarrow> Some (Inl e)
          | (_, Inl e) \<Rightarrow> Some (Inl e) }"

lemma agg_leaves_nonempty: "agg_leaves tree \<noteq> []"
  by (induction tree) auto

lemma two_to_one_valid:
  assumes "job_is_valid a" "job_is_valid b" "family a = Some f" "family b = Some f"
  shows "\<exists>j. new_two_to_one_proof_id t a b i lv rl = Some (Inr j) \<and> job_is_valid j \<and> family j = Some f \<and>
    j_topic j = Topic_GenerateStandardProof \<and> j_goal_id j = t \<and> j_group_id j = j_group_id a \<and>
    j_task_index j = ucast i \<and> j_sub_group_id j = ucast rl"
proof -
  obtain c where "two_to_one_circuit t a b = Some (Inr c)" "c \<noteq> Circuit_Invalid"
    "family (new_job Topic_GenerateStandardProof t (j_group_id a) (ucast rl) (ucast i) c StandardProof 0) = Some f"
    using two_to_one_same[OF assms(3,4)] by blast
  thus ?thesis using assms(1,2) by (simp add: new_two_to_one_proof_id_def job_is_valid_def new_job_def)
qed

lemma aggregate_same:
  assumes "\<forall>j\<in>set (agg_leaves tree). job_is_valid j \<and> family j = Some f"
  shows "\<exists>j. aggregate_tree t tree = Some (Inr j) \<and> job_is_valid j \<and> family j = Some f \<and>
    j_group_id j = j_group_id (hd (agg_leaves tree))"
  using assms
proof (induction tree)
  case (Agg_Node i lv rl l r)
  obtain a where a: "aggregate_tree t l = Some (Inr a)" "job_is_valid a" "family a = Some f"
    "j_group_id a = j_group_id (hd (agg_leaves l))" using Agg_Node by auto
  obtain b where b: "aggregate_tree t r = Some (Inr b)" "job_is_valid b" "family b = Some f" using Agg_Node by auto
  show ?case using two_to_one_valid[OF a(2) b(2) a(3) b(3), of t i lv rl] a b agg_leaves_nonempty[of l] by auto
qed simp

lemma aggregate_defined:
  assumes "\<forall>j\<in>set (agg_leaves tree). job_is_valid j" "aggregate_tree t tree = Some r"
  shows "\<exists>j. r = Inr j \<and> job_is_valid j \<and> (\<forall>x\<in>set (agg_leaves tree). family x = family j) \<and>
    (family j = None \<longrightarrow> tree = Agg_Leaf j)"
  using assms
proof (induction tree arbitrary: r)
  case (Agg_Node i lv rl l r')
  obtain ra rb where ab: "aggregate_tree t l = Some ra" "aggregate_tree t r' = Some rb"
    using Agg_Node.prems(2) by (auto split: Option.bind_splits)
  obtain a where a: "ra = Inr a" "job_is_valid a" "\<forall>x\<in>set (agg_leaves l). family x = family a"
    using Agg_Node.IH(1)[OF _ ab(1)] Agg_Node.prems(1) by auto
  obtain b where b: "rb = Inr b" "job_is_valid b" "\<forall>x\<in>set (agg_leaves r'). family x = family b"
    using Agg_Node.IH(2)[OF _ ab(2)] Agg_Node.prems(1) by auto
  have n: "new_two_to_one_proof_id t a b i lv rl = Some r" using Agg_Node.prems(2) ab a(1) b(1) by simp
  have d: "two_to_one_circuit t a b \<noteq> None" using n a(2) b(2) by (auto simp: new_two_to_one_proof_id_def)
  have "family a \<noteq> None \<and> family a = family b"
    using d two_to_one_other[of a b t] by argo
  then obtain f where f: "family a = Some f" "family b = Some f" by (metis not_None_eq)
  show ?case using two_to_one_valid[OF a(2) b(2) f, of t i lv rl] n a(3) b(3) f by auto
qed auto

text \<open>A linear GUTA proof is accepted as a realm's submission, but has no family.\<close>

lemma linear_guta_no_aggregation:
  assumes "try_get_realm_submit_id realm level pending GUTATwoGUTALinear = Inr j"
  shows "new_two_to_one_proof_id_or_invalid t j j i lv rl = None"
proof -
  have "j_circuit_type j = GUTATwoGUTALinear" "j_topic j = Topic_GenerateStandardProof"
    using assms by (auto simp: try_get_realm_submit_id_def submittable_guta_def new_job_def split: if_splits)
  thus ?thesis
    by (simp add: new_two_to_one_proof_id_or_invalid_def new_two_to_one_proof_id_def two_to_one_circuit_def job_is_valid_def
        is_guta_proof_circuit_type_def guta_circuit_def is_end_cap_proof_circuit_type_def get_agg_leaf_circuit_type_or_err_def)
qed

section \<open>Trees of tasks\<close>

lemma parent_type_agg: "get_agg_circuit_type_or_err c = Inr a \<Longrightarrow> tree_parent_type c = a"
  by (cases c) (simp_all add: get_agg_circuit_type_or_err_def tree_parent_type_def)

lemma parent_type_idem: "tree_parent_type (tree_parent_type c) = tree_parent_type c"
  by (cases c) (simp_all add: tree_parent_type_def)

text \<open>Every dummy circuit but one leads to the aggregate of its family.\<close>

lemma dummy_parent:
  "get_agg_circuit_type_or_err c = Inr a \<Longrightarrow> get_agg_dummy_circuit_type_or_err c = Inr d \<Longrightarrow>
   d \<noteq> DummyBatchDeployContractsAggregate \<Longrightarrow> tree_parent_type d = a"
  by (cases c) (auto simp: get_agg_circuit_type_or_err_def get_agg_dummy_circuit_type_or_err_def tree_parent_type_def)

lemma deploy_dummy_parent: "tree_parent_type DummyBatchDeployContractsAggregate = DummyBatchDeployContractsAggregate"
  by (simp add: tree_parent_type_def)

lemma tree_parents:
  "0 < n \<Longrightarrow> (get_tree_parent_proof_input_id ^^ n) j =
     j\<lparr>j_data_type := StandardProof, j_data_index := 0, j_circuit_type := tree_parent_type (j_circuit_type j),
       j_sub_group_id := j_sub_group_id j + of_nat n, j_task_index := drop_bit n (j_task_index j)\<rparr>"
proof (induction n)
  case (Suc n)
  show ?case
  proof (cases "n = 0")
    case True
    thus ?thesis by (simp add: get_tree_parent_proof_input_id_def)
  next
    case False
    thus ?thesis using Suc by (simp add: get_tree_parent_proof_input_id_def parent_type_idem drop_bit_drop_bit ac_simps)
  qed
qed simp

section \<open>Properties\<close>


text \<open>
  C37. Aggregation of valid ids along a binary tree of any shape: when all leaves are of one family (user
  proofs, or one kind of leaf and its aggregates), the tree gives a valid id of the same family for the
  target checkpoint and the group of the first leaf; otherwise some aggregation panics.
\<close>

theorem aggregation_outcome:
  assumes "\<forall>j\<in>set (agg_leaves tree). job_is_valid j" "tree = Agg_Node i lv rl l r"
  shows "if \<exists>f. \<forall>j\<in>set (agg_leaves tree). family j = Some f
    then \<exists>j f. aggregate_tree t tree = Some (Inr j) \<and> job_is_valid j \<and> family j = Some f \<and>
      family (hd (agg_leaves tree)) = Some f \<and> j_goal_id j = t \<and> j_group_id j = j_group_id (hd (agg_leaves tree))
    else aggregate_tree t tree = None"
proof (cases "\<exists>f. \<forall>j\<in>set (agg_leaves tree). family j = Some f")
  case True
  then obtain f where f: "\<forall>j\<in>set (agg_leaves tree). job_is_valid j \<and> family j = Some f" using assms(1) by blast
  obtain j where j: "aggregate_tree t tree = Some (Inr j)" "job_is_valid j" "family j = Some f"
    "j_group_id j = j_group_id (hd (agg_leaves tree))" using aggregate_same[OF f] by blast
  have "hd (agg_leaves tree) \<in> set (agg_leaves tree)" using agg_leaves_nonempty by simp
  moreover have "j_goal_id j = t"
    using j(1) assms(2) by (auto simp: new_two_to_one_proof_id_def rbind_Inr new_job_def
        split: Option.bind_splits sum.splits if_splits)
  ultimately show ?thesis using True j f by auto
next
  case False
  have "aggregate_tree t tree = None"
  proof (rule ccontr)
    assume "aggregate_tree t tree \<noteq> None"
    then obtain r where "aggregate_tree t tree = Some r" by blast
    from aggregate_defined[OF assms(1) this] show False using False assms(2) by (metis agg_tree.distinct(1) option.exhaust)
  qed
  thus ?thesis using False by simp
qed

theorem aggregation_outcome_witness:
  "\<exists>j. aggregate_tree 9 (Agg_Node 0 1 1 (Agg_Leaf (new_standard_user_end_cap_proof_id 9 2 20))
      (Agg_Node 1 2 0 (Agg_Leaf (new_standard_user_end_cap_proof_id 9 3 20))
        (Agg_Leaf (new_standard_user_end_cap_proof_id 9 4 20)))) = Some (Inr j) \<and> job_is_valid j"
proof -
  let ?tr = "Agg_Node 0 1 1 (Agg_Leaf (new_standard_user_end_cap_proof_id 9 2 20))
      (Agg_Node 1 2 0 (Agg_Leaf (new_standard_user_end_cap_proof_id 9 3 20))
        (Agg_Leaf (new_standard_user_end_cap_proof_id 9 4 20)))"
  have v: "\<forall>j\<in>set (agg_leaves ?tr). job_is_valid j"
    by (simp add: job_is_valid_def new_standard_user_end_cap_proof_id_def new_job_def)
  have "\<forall>j\<in>set (agg_leaves ?tr). family j = Some User_Family"
    by (simp add: family_User is_end_cap_proof_circuit_type_def new_standard_user_end_cap_proof_id_def new_job_def)
  thus ?thesis using aggregation_outcome[OF v refl, of 9] by (metis (no_types, lifting))
qed

text \<open>
  The ids of the tasks of one level meet like the leaves of a binary tree: after \<open>n\<close> steps to the
  parent, two tasks have the same id exactly when their indices agree above bit \<open>n\<close>; the parents are of
  the aggregate circuit of the family, \<open>n\<close> sub-groups further.
\<close>

lemma task_ids_meet:
  "((get_tree_parent_proof_input_id ^^ n) (with_task_index j a) =
    (get_tree_parent_proof_input_id ^^ n) (with_task_index j b)) = (drop_bit n a = drop_bit n b) \<and>
   j_sub_group_id ((get_tree_parent_proof_input_id ^^ n) j) = j_sub_group_id j + of_nat n \<and>
   j_circuit_type ((get_tree_parent_proof_input_id ^^ Suc n) j) = tree_parent_type (j_circuit_type j)"
proof (cases "n = 0")
  case True
  thus ?thesis by (auto simp: with_task_index_def get_tree_parent_proof_input_id_def elim: qjob.cases dest: arg_cong[of _ _ j_task_index])
next
  case False
  thus ?thesis using tree_parents[of n] tree_parents[of "Suc n" j]
    by (auto simp: with_task_index_def dest: arg_cong[of _ _ j_task_index] simp del: funpow.simps)
qed

end
