(* ===== verification/Node_Bytes.thy ===== *)
theory Node_Bytes
  imports Merkle_Proof
begin

text \<open>
  The fixed-size byte forms of tree nodes that processors and stores exchange
  (\<open>src/parth_core/src/data/hash/fast_node_serializer\<close>): a node of one tree (41 bytes), of a tree with
  an id (49 bytes) and of a tree with two ids (57 bytes). A hash is turned into 32 bytes by \<open>to32\<close> and
  read back by \<open>from32\<close>. A hash map is the list of its entries in the order of the iteration. Signed
  integers are their two's complement bit patterns, so the exact casts of \<open>signed_helpers.rs\<close> are the
  identity. A failed assertion is \<open>None\<close>.
\<close>

section \<open>Chunks\<close>

text \<open>\<open>chunks_exact(n)\<close>; a remainder is dropped.\<close>

function chunks_exact :: "nat \<Rightarrow> 'a list \<Rightarrow> 'a list list" where
  "chunks_exact n xs = (if n = 0 \<or> length xs < n then [] else take n xs # chunks_exact n (drop n xs))"
  by auto
termination
  by (relation "measure (\<lambda>(n, xs). length xs)") auto

declare chunks_exact.simps [simp del]

lemma chunks_exact_concat:
  "0 < n \<Longrightarrow> \<forall>x\<in>set xss. length x = n \<Longrightarrow> chunks_exact n (concat xss) = xss"
proof (induction xss)
  case (Cons x xss)
  thus ?case by (subst chunks_exact.simps) simp
qed (simp add: chunks_exact.simps)

section \<open>Nodes of one tree\<close>

record 'h simple_merkle_node =
  node_at :: node_key
  node_hash :: 'h

definition zero_id_node_bytes :: "('h \<Rightarrow> u8 list) \<Rightarrow> node_key \<Rightarrow> 'h \<Rightarrow> u8 list" where
  "zero_id_node_bytes to32 k v = nk_level k # le_bytes 8 (nk_index k) @ to32 v"

definition serialize_zero_id_node_to_fixed :: "('h \<Rightarrow> u8 list) \<Rightarrow> 'h simple_merkle_node \<Rightarrow> u8 list" where
  "serialize_zero_id_node_to_fixed to32 n = zero_id_node_bytes to32 (node_at n) (node_hash n)"

definition write_zero_id_node_to_slice :: "('h \<Rightarrow> u8 list) \<Rightarrow> 'h simple_merkle_node \<Rightarrow> u8 list \<Rightarrow> u8 list option" where
  "write_zero_id_node_to_slice to32 n buf =
     (if length buf < 41 then None else Some (serialize_zero_id_node_to_fixed to32 n @ drop 41 buf))"

definition deserialize_zero_id_node_from_slice :: "(u8 list \<Rightarrow> 'h) \<Rightarrow> u8 list \<Rightarrow> 'h simple_merkle_node option" where
  "deserialize_zero_id_node_from_slice from32 buf =
     (if length buf < 41 then None
      else Some \<lparr>node_at = Node_Key (buf ! 0) (from_le_bytes (take 8 (drop 1 buf))),
                 node_hash = from32 (take 32 (drop 9 buf))\<rparr>)"

definition zero_id_signed_insert_tuple :: "u8 list \<Rightarrow> u64 \<Rightarrow> (u8 \<times> u64 \<times> u64 \<times> u8 list) option" where
  "zero_id_signed_insert_tuple buf checkpoint_id =
     (if length buf < 41 then None
      else Some (buf ! 0, from_le_bytes (take 8 (drop 1 buf)), checkpoint_id, take 32 (drop 9 buf)))"

definition serialize_zero_id_hash_map_to_vec :: "('h \<Rightarrow> u8 list) \<Rightarrow> (node_key \<times> 'h) list \<Rightarrow> u8 list" where
  "serialize_zero_id_hash_map_to_vec to32 entries = concat (map (\<lambda>(k, v). zero_id_node_bytes to32 k v) entries)"

definition serialize_zero_id_hash_map_to_slice ::
  "('h \<Rightarrow> u8 list) \<Rightarrow> (node_key \<times> 'h) list \<Rightarrow> u8 list \<Rightarrow> u8 list" where
  "serialize_zero_id_hash_map_to_slice to32 entries bytes = bytes @ serialize_zero_id_hash_map_to_vec to32 entries"

text \<open>The loop of \<open>deserialize_zero_id_nodes_from_slice\<close>; its assertion is checked on entry.\<close>

function zero_id_nodes_loop :: "(u8 list \<Rightarrow> 'h) \<Rightarrow> u8 list \<Rightarrow> nat \<Rightarrow> 'h simple_merkle_node list option" where
  "zero_id_nodes_loop from32 buf offset =
     (if offset < length buf
      then if length buf < offset + 41 then None
           else do { node \<leftarrow> deserialize_zero_id_node_from_slice from32 (take 41 (drop offset buf));
                     nodes \<leftarrow> zero_id_nodes_loop from32 buf (offset + 41);
                     Some (node # nodes) }
      else Some [])"
  by auto
termination
  by (relation "measure (\<lambda>(_, buf, offset). length buf - offset)") auto

declare zero_id_nodes_loop.simps [simp del]

definition deserialize_zero_id_nodes_from_slice :: "(u8 list \<Rightarrow> 'h) \<Rightarrow> u8 list \<Rightarrow> 'h simple_merkle_node list option" where
  "deserialize_zero_id_nodes_from_slice from32 buf =
     (if length buf mod 41 \<noteq> 0 then None else zero_id_nodes_loop from32 buf 0)"

section \<open>Nodes of a tree with one id\<close>

record 'h single_id_node =
  s_tree_id :: u64
  s_level :: u8
  s_index :: u64
  s_value :: 'h

definition serialize_single_id_node_to_fixed :: "('h \<Rightarrow> u8 list) \<Rightarrow> 'h single_id_node \<Rightarrow> u8 list" where
  "serialize_single_id_node_to_fixed to32 n =
     le_bytes 8 (s_tree_id n) @ s_level n # le_bytes 8 (s_index n) @ to32 (s_value n)"

definition serialize_single_id_many_nodes :: "('h \<Rightarrow> u8 list) \<Rightarrow> 'h single_id_node list \<Rightarrow> u8 list" where
  "serialize_single_id_many_nodes to32 ns = concat (map (serialize_single_id_node_to_fixed to32) ns)"

definition write_single_id_node_to_slice :: "('h \<Rightarrow> u8 list) \<Rightarrow> 'h single_id_node \<Rightarrow> u8 list \<Rightarrow> u8 list option" where
  "write_single_id_node_to_slice to32 n buf =
     (if length buf < 49 then None else Some (serialize_single_id_node_to_fixed to32 n @ drop 49 buf))"

definition deserialize_single_id_node_from_slice :: "(u8 list \<Rightarrow> 'h) \<Rightarrow> u8 list \<Rightarrow> 'h single_id_node option" where
  "deserialize_single_id_node_from_slice from32 buf =
     (if length buf < 49 then None
      else Some \<lparr>s_tree_id = from_le_bytes (take 8 buf), s_level = buf ! 8,
                 s_index = from_le_bytes (take 8 (drop 9 buf)), s_value = from32 (take 32 (drop 17 buf))\<rparr>)"

definition single_id_signed_insert_tuple :: "u8 list \<Rightarrow> u64 \<Rightarrow> (u64 \<times> u8 \<times> u64 \<times> u64 \<times> u8 list) option" where
  "single_id_signed_insert_tuple buf checkpoint_id =
     (if length buf < 49 then None
      else Some (from_le_bytes (take 8 buf), buf ! 8, from_le_bytes (take 8 (drop 9 buf)), checkpoint_id,
                 take 32 (drop 17 buf)))"

definition serialize_single_id_hash_map_to_vec ::
  "('h \<Rightarrow> u8 list) \<Rightarrow> u64 \<Rightarrow> (node_key \<times> 'h) list \<Rightarrow> u8 list" where
  "serialize_single_id_hash_map_to_vec to32 tree_id entries =
     concat (map (\<lambda>(k, v). le_bytes 8 tree_id @ nk_level k # le_bytes 8 (nk_index k) @ to32 v) entries)"

definition serialize_single_id_hash_map_to_slice ::
  "('h \<Rightarrow> u8 list) \<Rightarrow> u64 \<Rightarrow> (node_key \<times> 'h) list \<Rightarrow> u8 list \<Rightarrow> u8 list" where
  "serialize_single_id_hash_map_to_slice to32 tree_id entries bytes =
     bytes @ serialize_single_id_hash_map_to_vec to32 tree_id entries"

section \<open>Nodes of a tree with two ids\<close>

record 'h double_id_node =
  d_tree_id :: u64
  d_tree_sub_id :: u64
  d_level :: u8
  d_index :: u64
  d_value :: 'h

definition serialize_double_id_node_to_fixed :: "('h \<Rightarrow> u8 list) \<Rightarrow> 'h double_id_node \<Rightarrow> u8 list" where
  "serialize_double_id_node_to_fixed to32 n =
     le_bytes 8 (d_tree_id n) @ le_bytes 8 (d_tree_sub_id n) @ d_level n # le_bytes 8 (d_index n) @ to32 (d_value n)"

definition serialize_double_id_many_nodes :: "('h \<Rightarrow> u8 list) \<Rightarrow> 'h double_id_node list \<Rightarrow> u8 list" where
  "serialize_double_id_many_nodes to32 ns = concat (map (serialize_double_id_node_to_fixed to32) ns)"

definition write_double_id_node_to_slice :: "('h \<Rightarrow> u8 list) \<Rightarrow> 'h double_id_node \<Rightarrow> u8 list \<Rightarrow> u8 list option" where
  "write_double_id_node_to_slice to32 n buf =
     (if length buf < 57 then None else Some (serialize_double_id_node_to_fixed to32 n @ drop 57 buf))"

definition deserialize_double_id_node_from_slice :: "(u8 list \<Rightarrow> 'h) \<Rightarrow> u8 list \<Rightarrow> 'h double_id_node option" where
  "deserialize_double_id_node_from_slice from32 buf =
     (if length buf < 57 then None
      else Some \<lparr>d_tree_id = from_le_bytes (take 8 buf), d_tree_sub_id = from_le_bytes (take 8 (drop 8 buf)),
                 d_level = buf ! 16, d_index = from_le_bytes (take 8 (drop 17 buf)),
                 d_value = from32 (take 32 (drop 25 buf))\<rparr>)"

definition double_id_signed_insert_tuple :: "u8 list \<Rightarrow> u64 \<Rightarrow> (u64 \<times> u64 \<times> u8 \<times> u64 \<times> u64 \<times> u8 list) option" where
  "double_id_signed_insert_tuple buf checkpoint_id =
     (if length buf < 57 then None
      else Some (from_le_bytes (take 8 buf), from_le_bytes (take 8 (drop 8 buf)), buf ! 16,
                 from_le_bytes (take 8 (drop 17 buf)), checkpoint_id, take 32 (drop 25 buf)))"

definition serialize_double_id_hash_map_to_vec ::
  "('h \<Rightarrow> u8 list) \<Rightarrow> u64 \<Rightarrow> u64 \<Rightarrow> (node_key \<times> 'h) list \<Rightarrow> u8 list" where
  "serialize_double_id_hash_map_to_vec to32 tree_id tree_sub_id entries =
     concat (map (\<lambda>(k, v). le_bytes 8 tree_id @ le_bytes 8 tree_sub_id @ nk_level k # le_bytes 8 (nk_index k) @ to32 v)
       entries)"

definition serialize_double_id_hash_map_to_slice ::
  "('h \<Rightarrow> u8 list) \<Rightarrow> u64 \<Rightarrow> u64 \<Rightarrow> (node_key \<times> 'h) list \<Rightarrow> u8 list \<Rightarrow> u8 list" where
  "serialize_double_id_hash_map_to_slice to32 tree_id tree_sub_id entries bytes =
     bytes @ serialize_double_id_hash_map_to_vec to32 tree_id tree_sub_id entries"

section \<open>Round trips\<close>

context hash32
begin

lemma zero_bytes_length: "length (zero_id_node_bytes to32 k v) = 41"
  by (simp add: zero_id_node_bytes_def length_to32)

lemma zero_node_rt:
  "deserialize_zero_id_node_from_slice from32 (zero_id_node_bytes to32 k v @ rest) = Some \<lparr>node_at = k, node_hash = v\<rparr>"
  by (cases k) (simp add: deserialize_zero_id_node_from_slice_def zero_id_node_bytes_def length_to32 from_to)

lemma zero_tuple_rt:
  "zero_id_signed_insert_tuple (zero_id_node_bytes to32 k v @ rest) c = Some (nk_level k, nk_index k, c, to32 v)"
  by (simp add: zero_id_signed_insert_tuple_def zero_id_node_bytes_def length_to32)

lemma single_node_rt:
  "deserialize_single_id_node_from_slice from32 (serialize_single_id_node_to_fixed to32 n @ rest) = Some n"
  by (cases n) (simp add: deserialize_single_id_node_from_slice_def serialize_single_id_node_to_fixed_def length_to32 from_to nth_append)

lemma single_tuple_rt:
  "single_id_signed_insert_tuple (serialize_single_id_node_to_fixed to32 n @ rest) c =
   Some (s_tree_id n, s_level n, s_index n, c, to32 (s_value n))"
  by (simp add: single_id_signed_insert_tuple_def serialize_single_id_node_to_fixed_def length_to32 nth_append)

lemma double_node_rt:
  "deserialize_double_id_node_from_slice from32 (serialize_double_id_node_to_fixed to32 n @ rest) = Some n"
  by (cases n) (simp add: deserialize_double_id_node_from_slice_def serialize_double_id_node_to_fixed_def length_to32 from_to nth_append)

lemma double_tuple_rt:
  "double_id_signed_insert_tuple (serialize_double_id_node_to_fixed to32 n @ rest) c =
   Some (d_tree_id n, d_tree_sub_id n, d_level n, d_index n, c, to32 (d_value n))"
  by (simp add: double_id_signed_insert_tuple_def serialize_double_id_node_to_fixed_def length_to32 nth_append)

lemma zero_loop_rt:
  "zero_id_nodes_loop from32 (pre @ serialize_zero_id_hash_map_to_vec to32 es) (length pre) =
   Some (map (\<lambda>(k, v). \<lparr>node_at = k, node_hash = v\<rparr>) es)"
proof (induction es arbitrary: pre)
  case (Cons e es)
  obtain k v where e: "e = (k, v)" by (cases e)
  let ?b = "zero_id_node_bytes to32 k v"
  have s: "serialize_zero_id_hash_map_to_vec to32 (e # es) = ?b @ serialize_zero_id_hash_map_to_vec to32 es"
    by (simp add: serialize_zero_id_hash_map_to_vec_def e)
  have "zero_id_nodes_loop from32 ((pre @ ?b) @ serialize_zero_id_hash_map_to_vec to32 es) (length (pre @ ?b)) =
      Some (map (\<lambda>(k, v). \<lparr>node_at = k, node_hash = v\<rparr>) es)" by (rule Cons.IH)
  thus ?case unfolding s using zero_node_rt[of k v "[]"]
    by (subst zero_id_nodes_loop.simps) (simp add: zero_bytes_length e)
qed (simp add: zero_id_nodes_loop.simps serialize_zero_id_hash_map_to_vec_def)

lemma zero_nodes_rt:
  "deserialize_zero_id_nodes_from_slice from32 (serialize_zero_id_hash_map_to_vec to32 es) =
   Some (map (\<lambda>(k, v). \<lparr>node_at = k, node_hash = v\<rparr>) es)"
proof -
  have "length (serialize_zero_id_hash_map_to_vec to32 es) = 41 * length es"
    unfolding serialize_zero_id_hash_map_to_vec_def by (induction es) (auto simp: zero_bytes_length)
  thus ?thesis using zero_loop_rt[of "[]" es] by (simp add: deserialize_zero_id_nodes_from_slice_def)
qed

lemma zero_chunks:
  "chunks_exact 41 (serialize_zero_id_hash_map_to_vec to32 es) = map (\<lambda>(k, v). zero_id_node_bytes to32 k v) es"
  unfolding serialize_zero_id_hash_map_to_vec_def by (rule chunks_exact_concat) (auto simp: zero_bytes_length)

end

end
