(* ===== verification/Memory_Db.thy ===== *)
theory Memory_Db
  imports Ordered_Map Node_Bytes Codec
begin

text \<open>
  The in-memory database of \<open>src/psy_node_store_memory/src/v2/cbs_store.rs\<close>: the tables that keep one value per
  object and checkpoint, and the tables of Merkle nodes with their checkpoints. A table is a skip map from
  byte keys to byte values, in key order; a key ends with the big-endian checkpoint, so that a range scan
  visits the versions of an object in order. A table that was not created yet is an empty one: every
  operation creates the table or skips a missing one. The bodies of the asynchronous operations never wait,
  so a joined batch runs its parts in order and stops at the first error. The chunks of serialized bytes are
  inserted in order, as in the build without \<open>parallel_rayon\<close>.

  The (de)serializers of generic values are parameters; a hash is written by \<open>to32\<close> and read by \<open>from32\<close>.
  An \<open>anyhow\<close> error is its message. Readers that slice a key or check an assertion return \<open>None\<close> for a panic.
\<close>

section \<open>State\<close>

type_synonym mem_table = "(u8 list \<times> u8 list) list"

record mem_store =
  mem_tables :: "string \<Rightarrow> mem_table"

record table_identifier =
  ti_full_name :: string
  ti_tree_height :: u8

definition mem_store_new :: mem_store where
  "mem_store_new = \<lparr>mem_tables = (\<lambda>_. [])\<rparr>"

definition get_or_create_table :: "mem_store \<Rightarrow> table_identifier \<Rightarrow> mem_table" where
  "get_or_create_table s table = mem_tables s (ti_full_name table)"

definition with_table :: "mem_store \<Rightarrow> table_identifier \<Rightarrow> (mem_table \<Rightarrow> mem_table) \<Rightarrow> mem_store" where
  "with_table s table f = s\<lparr>mem_tables := (mem_tables s)(ti_full_name table := f (get_or_create_table s table))\<rparr>"

section \<open>Joined operations\<close>

text \<open>\<open>try_join_all\<close> over readers.\<close>

fun try_join_all :: "('a \<Rightarrow> 'e + 'b) \<Rightarrow> 'a list \<Rightarrow> 'e + 'b list" where
  "try_join_all f [] = Inr []"
| "try_join_all f (x # xs) = rbind (f x) (\<lambda>y. rbind (try_join_all f xs) (\<lambda>ys. Inr (y # ys)))"

text \<open>\<open>try_join_all\<close> over writers.\<close>

fun try_join_writes :: "('a \<Rightarrow> 's \<Rightarrow> 's \<times> ('e + unit)) \<Rightarrow> 'a list \<Rightarrow> 's \<Rightarrow> 's \<times> ('e + unit)" where
  "try_join_writes f [] s = (s, Inr ())"
| "try_join_writes f (x # xs) s =
     (case f x s of (s, Inl e) \<Rightarrow> (s, Inl e) | (s, Inr _) \<Rightarrow> try_join_writes f xs s)"

text \<open>A loop whose body may fail or panic, \<open>collect()\<close> and \<open>try_join_all\<close> of such bodies included.\<close>

fun collect_results :: "('a \<Rightarrow> ('e + 'b) option) \<Rightarrow> 'a list \<Rightarrow> ('e + 'b list) option" where
  "collect_results f [] = Some (Inr [])"
| "collect_results f (x # xs) =
     (case f x of
        None \<Rightarrow> None
      | Some (Inl e) \<Rightarrow> Some (Inl e)
      | Some (Inr y) \<Rightarrow> map_option (\<lambda>r. rbind r (\<lambda>ys. Inr (y # ys))) (collect_results f xs))"

fun try_for_each :: "('a \<Rightarrow> 's \<Rightarrow> 's option) \<Rightarrow> 'a list \<Rightarrow> 's \<Rightarrow> 's option" where
  "try_for_each f [] s = Some s"
| "try_for_each f (x # xs) s = Option.bind (f x s) (try_for_each f xs)"

text \<open>\<open>u64::from_be_bytes(key[a..a + 8].try_into()?)\<close>\<close>

definition key_u64 :: "nat \<Rightarrow> u8 list \<Rightarrow> u64 option" where
  "key_u64 a key = (if a + 8 \<le> length key then Some (from_be_bytes (take 8 (drop a key))) else None)"

text \<open>\<open>u64::from_le_bytes(chunk[a..a + 8].try_into().unwrap())\<close>\<close>

definition chunk_u64 :: "nat \<Rightarrow> u8 list \<Rightarrow> u64 option" where
  "chunk_u64 a chunk = (if a + 8 \<le> length chunk then Some (from_le_bytes (take 8 (drop a chunk))) else None)"

definition hash_from_bytes :: "(u8 list \<Rightarrow> 'h) \<Rightarrow> u8 list \<Rightarrow> string + 'h" where
  "hash_from_bytes from32 bytes =
     (if length bytes = 32 then Inr (from32 bytes) else Inl ''Invalid byte length for HashOut'')"

section \<open>Keys\<close>

definition key_single_id_checkpointed :: "u64 \<Rightarrow> u64 \<Rightarrow> u8 list" where
  "key_single_id_checkpointed obj_id checkpoint_id = be_bytes 8 obj_id @ be_bytes 8 checkpoint_id"

definition key_double_id_checkpointed :: "u64 \<Rightarrow> u64 \<Rightarrow> u64 \<Rightarrow> u8 list" where
  "key_double_id_checkpointed obj_id secondary_id checkpoint_id =
     be_bytes 8 obj_id @ be_bytes 8 secondary_id @ be_bytes 8 checkpoint_id"

definition key_merkle_zero_id :: "node_key \<Rightarrow> u64 \<Rightarrow> u8 list" where
  "key_merkle_zero_id key checkpoint_id =
     [nk_level key] @ be_bytes 8 (nk_index key) @ be_bytes 8 checkpoint_id"

definition key_merkle_single_id :: "u64 \<Rightarrow> node_key \<Rightarrow> u64 \<Rightarrow> u8 list" where
  "key_merkle_single_id tree_id key checkpoint_id =
     be_bytes 8 tree_id @ [nk_level key] @ be_bytes 8 (nk_index key) @ be_bytes 8 checkpoint_id"

definition key_merkle_double_id :: "u64 \<Rightarrow> u64 \<Rightarrow> node_key \<Rightarrow> u64 \<Rightarrow> u8 list" where
  "key_merkle_double_id tree_id tree_sub_id key checkpoint_id =
     be_bytes 8 tree_id @ be_bytes 8 tree_sub_id @ [nk_level key] @ be_bytes 8 (nk_index key) @
     be_bytes 8 checkpoint_id"

section \<open>Objects with one id\<close>

definition db_select_one_single_checkpointed_object_value ::
  "(u8 list \<Rightarrow> string + 'v) \<Rightarrow> mem_store \<Rightarrow> table_identifier \<Rightarrow> u64 \<Rightarrow> u64 \<Rightarrow> string + 'v option" where
  "db_select_one_single_checkpointed_object_value from_slice s table obj_id max_checkpoint_id =
     (let db = get_or_create_table s table;
          start_key = key_single_id_checkpointed obj_id 0;
          end_key = key_single_id_checkpointed obj_id max_checkpoint_id
      in case next_back (range_incl start_key end_key db) of
           Some e \<Rightarrow> rbind (from_slice (snd e)) (\<lambda>v. Inr (Some v))
         | None \<Rightarrow> Inr None)"

definition db_select_one_single_checkpointed_object_value_and_ids ::
  "(u8 list \<Rightarrow> string + 'v) \<Rightarrow> mem_store \<Rightarrow> table_identifier \<Rightarrow> u64 \<Rightarrow> u64 \<Rightarrow>
   (string + (u64 \<times> u64 \<times> 'v) option) option" where
  "db_select_one_single_checkpointed_object_value_and_ids from_slice s table obj_id max_checkpoint_id =
     (let db = get_or_create_table s table;
          start_key = key_single_id_checkpointed obj_id 0;
          end_key = key_single_id_checkpointed obj_id max_checkpoint_id
      in case next_back (range_incl start_key end_key db) of
           Some e \<Rightarrow>
             do { checkpoint_id \<leftarrow> key_u64 8 (fst e);
                  Some (rbind (from_slice (snd e)) (\<lambda>v. Inr (Some (obj_id, checkpoint_id, v)))) }
         | None \<Rightarrow> Some (Inr None))"

definition db_select_all_single_checkpointed_object ::
  "(u8 list \<Rightarrow> string + 'v) \<Rightarrow> mem_store \<Rightarrow> table_identifier \<Rightarrow> (string + (u64 \<times> u64 \<times> 'v) list) option" where
  "db_select_all_single_checkpointed_object from_slice s table =
     collect_results
       (\<lambda>e. do { obj_id \<leftarrow> key_u64 0 (fst e);
                  checkpoint_id \<leftarrow> key_u64 8 (fst e);
                  Some (rbind (from_slice (snd e)) (\<lambda>v. Inr (obj_id, checkpoint_id, v))) })
       (get_or_create_table s table)"

definition db_select_many_single_checkpointed_object_values ::
  "(u8 list \<Rightarrow> string + 'v) \<Rightarrow> mem_store \<Rightarrow> table_identifier \<Rightarrow> u64 list \<Rightarrow> u64 \<Rightarrow> string + 'v option list" where
  "db_select_many_single_checkpointed_object_values from_slice s table obj_ids max_checkpoint_id =
     try_join_all
       (\<lambda>id. db_select_one_single_checkpointed_object_value from_slice s table id max_checkpoint_id) obj_ids"

text \<open>\<open>results.into_iter().flatten().collect()\<close>\<close>

definition flatten_options :: "'a option list \<Rightarrow> 'a list" where
  "flatten_options xs = List.map_filter id xs"

definition db_select_many_single_checkpointed_object_keys_and_values ::
  "(u8 list \<Rightarrow> string + 'v) \<Rightarrow> (u64 \<times> u64 \<times> 'v \<Rightarrow> 'r) \<Rightarrow> mem_store \<Rightarrow> table_identifier \<Rightarrow> u64 list \<Rightarrow> u64 \<Rightarrow>
   (string + 'r list) option" where
  "db_select_many_single_checkpointed_object_keys_and_values from_slice create s table obj_ids max_checkpoint_id =
     map_option (\<lambda>r. rbind r (\<lambda>rows. Inr (map create (flatten_options rows))))
       (collect_results
          (\<lambda>id. db_select_one_single_checkpointed_object_value_and_ids from_slice s table id max_checkpoint_id)
          obj_ids)"

definition db_insert_one_single_checkpointed_object ::
  "('v \<Rightarrow> string + u8 list) \<Rightarrow> table_identifier \<Rightarrow> u64 \<Rightarrow> u64 \<Rightarrow> 'v \<Rightarrow> mem_store \<Rightarrow> mem_store \<times> (string + unit)" where
  "db_insert_one_single_checkpointed_object to_bytes table obj_id checkpoint_id v s =
     (case to_bytes v of
        Inl e \<Rightarrow> (s, Inl e)
      | Inr val_bytes \<Rightarrow>
          (with_table s table (btree_insert (key_single_id_checkpointed obj_id checkpoint_id) val_bytes), Inr ()))"

definition db_insert_many_single_checkpointed_object_rows ::
  "('v \<Rightarrow> string + u8 list) \<Rightarrow> table_identifier \<Rightarrow> ('r \<Rightarrow> u64) \<Rightarrow> ('r \<Rightarrow> u64) \<Rightarrow> ('r \<Rightarrow> 'v) \<Rightarrow> 'r list \<Rightarrow>
   mem_store \<Rightarrow> mem_store \<times> (string + unit)" where
  "db_insert_many_single_checkpointed_object_rows to_bytes table row_obj_id row_checkpoint_id row_value rows s =
     try_join_writes
       (\<lambda>row. db_insert_one_single_checkpointed_object to_bytes table (row_obj_id row) (row_checkpoint_id row)
                (row_value row)) rows s"

definition db_insert_many_single_checkpointed_objects_at_checkpoint ::
  "('v \<Rightarrow> string + u8 list) \<Rightarrow> table_identifier \<Rightarrow> u64 \<Rightarrow> ('r \<Rightarrow> u64) \<Rightarrow> ('r \<Rightarrow> 'v) \<Rightarrow> 'r list \<Rightarrow>
   mem_store \<Rightarrow> mem_store \<times> (string + unit)" where
  "db_insert_many_single_checkpointed_objects_at_checkpoint to_bytes table checkpoint_id row_obj_id row_value rows s =
     try_join_writes
       (\<lambda>row. db_insert_one_single_checkpointed_object to_bytes table (row_obj_id row) checkpoint_id (row_value row))
       rows s"

text \<open>A remainder by zero panics.\<close>

definition db_insert_many_single_ffs_clip_id_at_start ::
  "table_identifier \<Rightarrow> nat \<Rightarrow> u64 \<Rightarrow> u8 list \<Rightarrow> mem_store \<Rightarrow> (string + mem_store) option" where
  "db_insert_many_single_ffs_clip_id_at_start table object_size_without_id checkpoint_id rows s =
     (let object_size = object_size_without_id + 8
      in if length rows mod object_size \<noteq> 0 then Some (Inl ''Invalid data length for ffs insert'')
         else map_option Inr
           (try_for_each
              (\<lambda>chunk s. do { obj_id \<leftarrow> chunk_u64 0 chunk;
                              Some (with_table s table
                                (btree_insert (key_single_id_checkpointed obj_id checkpoint_id) (drop 8 chunk))) })
              (chunks_exact object_size rows) s))"

definition db_insert_many_single_ffs_with_id_at_index ::
  "table_identifier \<Rightarrow> nat \<Rightarrow> nat \<Rightarrow> u64 \<Rightarrow> u8 list \<Rightarrow> mem_store \<Rightarrow> (string + mem_store) option" where
  "db_insert_many_single_ffs_with_id_at_index table object_size object_id_location checkpoint_id rows s =
     (if object_size = 0 then None
      else if length rows mod object_size \<noteq> 0 then Some (Inl ''Invalid data length for ffs insert'')
      else map_option Inr
        (try_for_each
           (\<lambda>chunk s. do { obj_id \<leftarrow> chunk_u64 object_id_location chunk;
                           Some (with_table s table
                             (btree_insert (key_single_id_checkpointed obj_id checkpoint_id) chunk)) })
           (chunks_exact object_size rows) s))"

section \<open>Objects with two ids\<close>

definition db_select_one_double_checkpointed_object_value ::
  "(u8 list \<Rightarrow> string + 'v) \<Rightarrow> mem_store \<Rightarrow> table_identifier \<Rightarrow> u64 \<Rightarrow> u64 \<Rightarrow> u64 \<Rightarrow> string + 'v option" where
  "db_select_one_double_checkpointed_object_value from_slice s table obj_id secondary_id max_checkpoint_id =
     (let db = get_or_create_table s table;
          start_key = key_double_id_checkpointed obj_id secondary_id 0;
          end_key = key_double_id_checkpointed obj_id secondary_id max_checkpoint_id
      in case next_back (range_incl start_key end_key db) of
           Some e \<Rightarrow> rbind (from_slice (snd e)) (\<lambda>v. Inr (Some v))
         | None \<Rightarrow> Inr None)"

definition db_select_one_double_checkpointed_object_value_and_ids ::
  "(u8 list \<Rightarrow> string + 'v) \<Rightarrow> mem_store \<Rightarrow> table_identifier \<Rightarrow> u64 \<Rightarrow> u64 \<Rightarrow> u64 \<Rightarrow>
   (string + (u64 \<times> u64 \<times> u64 \<times> 'v) option) option" where
  "db_select_one_double_checkpointed_object_value_and_ids from_slice s table obj_id secondary_id max_checkpoint_id =
     (let db = get_or_create_table s table;
          start_key = key_double_id_checkpointed obj_id secondary_id 0;
          end_key = key_double_id_checkpointed obj_id secondary_id max_checkpoint_id
      in case next_back (range_incl start_key end_key db) of
           Some e \<Rightarrow>
             do { checkpoint_id \<leftarrow> key_u64 16 (fst e);
                  Some (rbind (from_slice (snd e)) (\<lambda>v. Inr (Some (obj_id, secondary_id, checkpoint_id, v)))) }
         | None \<Rightarrow> Some (Inr None))"

definition db_select_all_double_checkpointed_object ::
  "(u8 list \<Rightarrow> string + 'v) \<Rightarrow> mem_store \<Rightarrow> table_identifier \<Rightarrow>
   (string + (u64 \<times> u64 \<times> u64 \<times> 'v) list) option" where
  "db_select_all_double_checkpointed_object from_slice s table =
     collect_results
       (\<lambda>e. do { obj_id \<leftarrow> key_u64 0 (fst e);
                  secondary_id \<leftarrow> key_u64 8 (fst e);
                  checkpoint_id \<leftarrow> key_u64 16 (fst e);
                  Some (rbind (from_slice (snd e)) (\<lambda>v. Inr (obj_id, secondary_id, checkpoint_id, v))) })
       (get_or_create_table s table)"

definition db_select_many_double_checkpointed_object_values ::
  "(u8 list \<Rightarrow> string + 'v) \<Rightarrow> mem_store \<Rightarrow> table_identifier \<Rightarrow> (u64 \<times> u64) list \<Rightarrow> u64 \<Rightarrow>
   string + 'v option list" where
  "db_select_many_double_checkpointed_object_values from_slice s table obj_ids max_checkpoint_id =
     try_join_all
       (\<lambda>(obj_id, secondary_id).
          db_select_one_double_checkpointed_object_value from_slice s table obj_id secondary_id max_checkpoint_id)
       obj_ids"

definition db_select_many_double_checkpointed_object_keys_and_values ::
  "(u8 list \<Rightarrow> string + 'v) \<Rightarrow> (u64 \<times> u64 \<times> u64 \<times> 'v \<Rightarrow> 'r) \<Rightarrow> mem_store \<Rightarrow> table_identifier \<Rightarrow>
   (u64 \<times> u64) list \<Rightarrow> u64 \<Rightarrow> (string + 'r list) option" where
  "db_select_many_double_checkpointed_object_keys_and_values from_slice create s table obj_ids max_checkpoint_id =
     map_option (\<lambda>r. rbind r (\<lambda>rows. Inr (map create (flatten_options rows))))
       (collect_results
          (\<lambda>(obj_id, secondary_id).
             db_select_one_double_checkpointed_object_value_and_ids from_slice s table obj_id secondary_id
               max_checkpoint_id)
          obj_ids)"

definition db_insert_one_double_checkpointed_object ::
  "('v \<Rightarrow> string + u8 list) \<Rightarrow> table_identifier \<Rightarrow> u64 \<Rightarrow> u64 \<Rightarrow> u64 \<Rightarrow> 'v \<Rightarrow> mem_store \<Rightarrow>
   mem_store \<times> (string + unit)" where
  "db_insert_one_double_checkpointed_object to_bytes table obj_id secondary_id checkpoint_id v s =
     (case to_bytes v of
        Inl e \<Rightarrow> (s, Inl e)
      | Inr val_bytes \<Rightarrow>
          (with_table s table
             (btree_insert (key_double_id_checkpointed obj_id secondary_id checkpoint_id) val_bytes), Inr ()))"

definition db_insert_many_double_checkpointed_object_rows ::
  "('v \<Rightarrow> string + u8 list) \<Rightarrow> table_identifier \<Rightarrow> ('r \<Rightarrow> u64) \<Rightarrow> ('r \<Rightarrow> u64) \<Rightarrow> ('r \<Rightarrow> u64) \<Rightarrow> ('r \<Rightarrow> 'v) \<Rightarrow>
   'r list \<Rightarrow> mem_store \<Rightarrow> mem_store \<times> (string + unit)" where
  "db_insert_many_double_checkpointed_object_rows to_bytes table row_obj_id row_secondary_id row_checkpoint_id
       row_value rows s =
     try_join_writes
       (\<lambda>row. db_insert_one_double_checkpointed_object to_bytes table (row_obj_id row) (row_secondary_id row)
                (row_checkpoint_id row) (row_value row)) rows s"

definition db_insert_many_double_checkpointed_objects_at_checkpoint ::
  "('v \<Rightarrow> string + u8 list) \<Rightarrow> table_identifier \<Rightarrow> u64 \<Rightarrow> ('r \<Rightarrow> u64) \<Rightarrow> ('r \<Rightarrow> u64) \<Rightarrow> ('r \<Rightarrow> 'v) \<Rightarrow>
   'r list \<Rightarrow> mem_store \<Rightarrow> mem_store \<times> (string + unit)" where
  "db_insert_many_double_checkpointed_objects_at_checkpoint to_bytes table checkpoint_id row_obj_id
       row_secondary_id row_value rows s =
     try_join_writes
       (\<lambda>row. db_insert_one_double_checkpointed_object to_bytes table (row_obj_id row) (row_secondary_id row)
                checkpoint_id (row_value row)) rows s"

end
