(* ===== verification/Memory_Merkle.thy ===== *)
theory Memory_Merkle
  imports Memory_Db
begin

text \<open>
  The Merkle tables of the in-memory database (\<open>src/psy_node_store_memory/src/v2/cbs_store.rs\<close>): the nodes of a
  table's own tree, of trees with an id and of trees with two ids, each with the checkpoint it was written
  at; and the deleters and verifiers the rollback of checkpoints uses. A hash map of a dump is a partial
  function, filled in the order of the scan.
\<close>

section \<open>Dumps of leaves\<close>

definition map_of_entries :: "(u64 \<times> 'h) list \<Rightarrow> (u64 \<rightharpoonup> 'h)" where
  "map_of_entries es = fold (\<lambda>(i, v) m. m(i \<mapsto> v)) es Map.empty"

definition dump_all_range :: "mem_store \<Rightarrow> table_identifier \<Rightarrow> u64 \<Rightarrow> mem_table" where
  "dump_all_range s table max_checkpoint_id =
     (let tree_height = ti_tree_height table;
          start_key = key_merkle_zero_id (Node_Key tree_height 0) 0;
          end_key = key_merkle_zero_id (Node_Key tree_height (shl64 1 (unat tree_height) - 1)) max_checkpoint_id
      in range_incl start_key end_key (get_or_create_table s table))"

definition db_dump_all_zero_id_merkle_node_leaves_chunked ::
  "(u8 list \<Rightarrow> 'h) \<Rightarrow> mem_store \<Rightarrow> table_identifier \<Rightarrow> u64 \<Rightarrow> (string + (u64 \<rightharpoonup> 'h)) option" where
  "db_dump_all_zero_id_merkle_node_leaves_chunked from32 s table max_checkpoint_id =
     map_option (\<lambda>r. rbind r (\<lambda>es. Inr (map_of_entries es)))
       (collect_results
          (\<lambda>e. do { index \<leftarrow> key_u64 1 (fst e);
                     Some (rbind (hash_from_bytes from32 (snd e)) (\<lambda>v. Inr (index, v))) })
          (dump_all_range s table max_checkpoint_id))"

definition db_dump_all_zero_id_merkle_node_leaves_vec ::
  "(u8 list \<Rightarrow> 'h) \<Rightarrow> mem_store \<Rightarrow> table_identifier \<Rightarrow> u64 \<Rightarrow> (string + 'h simple_merkle_node list) option" where
  "db_dump_all_zero_id_merkle_node_leaves_vec from32 s table max_checkpoint_id =
     collect_results
       (\<lambda>e. do { index \<leftarrow> key_u64 1 (fst e);
                  Some (rbind (hash_from_bytes from32 (snd e))
                    (\<lambda>v. Inr \<lparr>node_at = Node_Key (ti_tree_height table) index, node_hash = v\<rparr>)) })
       (dump_all_range s table max_checkpoint_id)"

text \<open>One entry of the ranged dump; a skipped one gives nothing.\<close>

definition dump_range_entry ::
  "(u8 list \<Rightarrow> 'h) \<Rightarrow> u64 \<Rightarrow> u64 \<Rightarrow> u64 \<Rightarrow> u8 list \<times> u8 list \<Rightarrow> (string + (u64 \<times> 'h) option) option" where
  "dump_range_entry from32 max_checkpoint_id start_index end_index e =
     do { index \<leftarrow> key_u64 1 (fst e);
          if index < start_index \<or> index > end_index then Some (Inr None)
          else do { checkpoint_id \<leftarrow> key_u64 9 (fst e);
                    if checkpoint_id > max_checkpoint_id then Some (Inr None)
                    else Some (rbind (hash_from_bytes from32 (snd e)) (\<lambda>v. Inr (Some (index, v)))) } }"

definition db_dump_zero_id_merkle_node_leaves_range ::
  "(u8 list \<Rightarrow> 'h) \<Rightarrow> mem_store \<Rightarrow> table_identifier \<Rightarrow> u64 \<Rightarrow> u64 \<Rightarrow> u64 \<Rightarrow> (string + (u64 \<rightharpoonup> 'h)) option" where
  "db_dump_zero_id_merkle_node_leaves_range from32 s table max_checkpoint_id start_index end_index =
     (if start_index > end_index then Some (Inr Map.empty)
      else let tree_height = ti_tree_height table;
               start_key = key_merkle_zero_id (Node_Key tree_height start_index) 0;
               end_key = key_merkle_zero_id (Node_Key tree_height end_index) (- 1)
           in map_option (\<lambda>r. rbind r (\<lambda>es. Inr (map_of_entries (flatten_options es))))
                (collect_results (dump_range_entry from32 max_checkpoint_id start_index end_index)
                   (range_incl start_key end_key (get_or_create_table s table))))"

section \<open>Nodes of the table's tree\<close>

definition db_select_zero_id_merkle_node_max_checkpoint ::
  "(u8 list \<Rightarrow> 'h) \<Rightarrow> 'h hasher \<Rightarrow> mem_store \<Rightarrow> table_identifier \<Rightarrow> u64 \<Rightarrow> node_key \<Rightarrow> (string + 'h) option" where
  "db_select_zero_id_merkle_node_max_checkpoint from32 H s table max_checkpoint_id key =
     (let db = get_or_create_table s table;
          start_key = key_merkle_zero_id key 0;
          end_key = key_merkle_zero_id key max_checkpoint_id
      in if ti_tree_height table = 0 then None
         else case next_back (range_incl start_key end_key db) of
                Some e \<Rightarrow> Some (hash_from_bytes from32 (snd e))
              | None \<Rightarrow> Some (Inr (get_zero_hash H (unat (ti_tree_height table - nk_level key)))))"

definition db_select_zero_id_merkle_node_and_checkpoint_max_checkpoint ::
  "(u8 list \<Rightarrow> 'h) \<Rightarrow> 'h hasher \<Rightarrow> mem_store \<Rightarrow> table_identifier \<Rightarrow> u64 \<Rightarrow> node_key \<Rightarrow>
   (string + u64 \<times> 'h) option" where
  "db_select_zero_id_merkle_node_and_checkpoint_max_checkpoint from32 H s table max_checkpoint_id key =
     (let db = get_or_create_table s table;
          start_key = key_merkle_zero_id key 0;
          end_key = key_merkle_zero_id key max_checkpoint_id
      in if ti_tree_height table = 0 then None
         else case next_back (range_incl start_key end_key db) of
                Some e \<Rightarrow>
                  do { checkpoint_id \<leftarrow> key_u64 9 (fst e);
                       Some (rbind (hash_from_bytes from32 (snd e)) (\<lambda>v. Inr (checkpoint_id, v))) }
              | None \<Rightarrow> Some (Inr (0, get_zero_hash H (unat (ti_tree_height table - nk_level key)))))"

definition db_select_many_zero_id_merkle_nodes_max_checkpoint ::
  "(u8 list \<Rightarrow> 'h) \<Rightarrow> 'h hasher \<Rightarrow> mem_store \<Rightarrow> table_identifier \<Rightarrow> u64 \<Rightarrow> node_key list \<Rightarrow>
   (string + 'h list) option" where
  "db_select_many_zero_id_merkle_nodes_max_checkpoint from32 H s table max_checkpoint_id keys =
     collect_results (db_select_zero_id_merkle_node_max_checkpoint from32 H s table max_checkpoint_id) keys"

definition db_insert_zero_id_merkle_node ::
  "('h \<Rightarrow> u8 list) \<Rightarrow> table_identifier \<Rightarrow> u64 \<Rightarrow> node_key \<Rightarrow> 'h \<Rightarrow> mem_store \<Rightarrow> mem_store" where
  "db_insert_zero_id_merkle_node to32 table checkpoint_id key v s =
     with_table s table (btree_insert (key_merkle_zero_id key checkpoint_id) (to32 v))"

definition db_set_zero_id_merkle_nodes_batch_checkpoint_is_index ::
  "('h \<Rightarrow> u8 list) \<Rightarrow> table_identifier \<Rightarrow> 'h simple_merkle_node list \<Rightarrow> mem_store \<Rightarrow> mem_store" where
  "db_set_zero_id_merkle_nodes_batch_checkpoint_is_index to32 table nodes s =
     fold (\<lambda>node. db_insert_zero_id_merkle_node to32 table (nk_index (node_at node)) (node_at node) (node_hash node))
       nodes s"

definition db_set_zero_id_merkle_nodes_batch ::
  "('h \<Rightarrow> u8 list) \<Rightarrow> table_identifier \<Rightarrow> u64 \<Rightarrow> 'h simple_merkle_node list \<Rightarrow> mem_store \<Rightarrow> mem_store" where
  "db_set_zero_id_merkle_nodes_batch to32 table checkpoint_id nodes s =
     fold (\<lambda>node. db_insert_zero_id_merkle_node to32 table checkpoint_id (node_at node) (node_hash node)) nodes s"

definition db_set_zero_id_merkle_nodes_from_fast_serialized ::
  "('h \<Rightarrow> u8 list) \<Rightarrow> (u8 list \<Rightarrow> 'h) \<Rightarrow> table_identifier \<Rightarrow> u64 \<Rightarrow> u8 list \<Rightarrow> mem_store \<Rightarrow> mem_store option" where
  "db_set_zero_id_merkle_nodes_from_fast_serialized to32 from32 table checkpoint_id nodes s =
     try_for_each
       (\<lambda>chunk s. do { (level, index, _, value_bytes) \<leftarrow> zero_id_signed_insert_tuple chunk checkpoint_id;
                       Some (with_table s table
                         (btree_insert (key_merkle_zero_id (Node_Key level index) checkpoint_id)
                           (to32 (from32 value_bytes)))) })
       (chunks_exact 41 nodes) s"

section \<open>Nodes of trees with one id\<close>

definition db_select_single_id_merkle_node_max_checkpoint ::
  "(u8 list \<Rightarrow> 'h) \<Rightarrow> 'h hasher \<Rightarrow> mem_store \<Rightarrow> table_identifier \<Rightarrow> u64 \<Rightarrow> u64 \<Rightarrow> u8 \<Rightarrow> node_key \<Rightarrow> string + 'h" where
  "db_select_single_id_merkle_node_max_checkpoint from32 H s table checkpoint_id tree_id tree_height key =
     (let db = get_or_create_table s table;
          start_key = key_merkle_single_id tree_id key 0;
          end_key = key_merkle_single_id tree_id key checkpoint_id
      in case next_back (range_incl start_key end_key db) of
           Some e \<Rightarrow> hash_from_bytes from32 (snd e)
         | None \<Rightarrow> Inr (get_zero_hash H (unat (tree_height - nk_level key))))"

definition db_select_many_single_id_merkle_nodes_max_checkpoint ::
  "(u8 list \<Rightarrow> 'h) \<Rightarrow> 'h hasher \<Rightarrow> mem_store \<Rightarrow> table_identifier \<Rightarrow> u64 \<Rightarrow> u64 \<Rightarrow> u8 \<Rightarrow> node_key list \<Rightarrow>
   string + 'h list" where
  "db_select_many_single_id_merkle_nodes_max_checkpoint from32 H s table max_checkpoint_id tree_id tree_height keys =
     try_join_all
       (db_select_single_id_merkle_node_max_checkpoint from32 H s table max_checkpoint_id tree_id tree_height) keys"

definition db_insert_single_id_merkle_node ::
  "('h \<Rightarrow> u8 list) \<Rightarrow> table_identifier \<Rightarrow> u64 \<Rightarrow> u64 \<Rightarrow> node_key \<Rightarrow> 'h \<Rightarrow> mem_store \<Rightarrow> mem_store" where
  "db_insert_single_id_merkle_node to32 table checkpoint_id tree_id key v s =
     with_table s table (btree_insert (key_merkle_single_id tree_id key checkpoint_id) (to32 v))"

definition db_set_single_id_merkle_nodes_batch ::
  "('h \<Rightarrow> u8 list) \<Rightarrow> table_identifier \<Rightarrow> u64 \<Rightarrow> u64 \<Rightarrow> 'h simple_merkle_node list \<Rightarrow> mem_store \<Rightarrow> mem_store" where
  "db_set_single_id_merkle_nodes_batch to32 table checkpoint_id tree_id nodes s =
     fold (\<lambda>node. db_insert_single_id_merkle_node to32 table checkpoint_id tree_id (node_at node) (node_hash node))
       nodes s"

definition db_set_single_id_merkle_nodes_from_fast_serialized ::
  "('h \<Rightarrow> u8 list) \<Rightarrow> (u8 list \<Rightarrow> 'h) \<Rightarrow> table_identifier \<Rightarrow> u64 \<Rightarrow> u8 list \<Rightarrow> mem_store \<Rightarrow> mem_store option" where
  "db_set_single_id_merkle_nodes_from_fast_serialized to32 from32 table checkpoint_id nodes s =
     try_for_each
       (\<lambda>chunk s. do { (tree_id, level, index, _, value_bytes) \<leftarrow> single_id_signed_insert_tuple chunk checkpoint_id;
                       Some (with_table s table
                         (btree_insert (key_merkle_single_id tree_id (Node_Key level index) checkpoint_id)
                           (to32 (from32 value_bytes)))) })
       (chunks_exact 49 nodes) s"

section \<open>Nodes of trees with two ids\<close>

definition db_select_double_id_merkle_node_max_checkpoint ::
  "(u8 list \<Rightarrow> 'h) \<Rightarrow> 'h hasher \<Rightarrow> mem_store \<Rightarrow> table_identifier \<Rightarrow> u64 \<Rightarrow> u64 \<Rightarrow> u64 \<Rightarrow> u8 \<Rightarrow> node_key \<Rightarrow>
   string + 'h" where
  "db_select_double_id_merkle_node_max_checkpoint from32 H s table checkpoint_id tree_id tree_sub_id tree_height key =
     (let db = get_or_create_table s table;
          start_key = key_merkle_double_id tree_id tree_sub_id key 0;
          end_key = key_merkle_double_id tree_id tree_sub_id key checkpoint_id
      in case next_back (range_incl start_key end_key db) of
           Some e \<Rightarrow> hash_from_bytes from32 (snd e)
         | None \<Rightarrow> Inr (get_zero_hash H (unat (tree_height - nk_level key))))"

record double_id_key_with_height =
  dk_tree_id :: u64
  dk_tree_sub_id :: u64
  dk_index :: u64
  dk_level :: u8
  dk_tree_height :: u8

definition db_select_many_double_id_merkle_nodes_with_height_max_checkpoint ::
  "(u8 list \<Rightarrow> 'h) \<Rightarrow> 'h hasher \<Rightarrow> mem_store \<Rightarrow> table_identifier \<Rightarrow> u64 \<Rightarrow> double_id_key_with_height list \<Rightarrow>
   string + 'h list" where
  "db_select_many_double_id_merkle_nodes_with_height_max_checkpoint from32 H s table max_checkpoint_id keys =
     try_join_all
       (\<lambda>key. db_select_double_id_merkle_node_max_checkpoint from32 H s table max_checkpoint_id (dk_tree_id key)
                (dk_tree_sub_id key) (max (dk_tree_height key) (dk_level key))
                (Node_Key (dk_level key) (dk_index key)))
       keys"

definition db_select_many_double_id_merkle_nodes_max_checkpoint ::
  "(u8 list \<Rightarrow> 'h) \<Rightarrow> 'h hasher \<Rightarrow> mem_store \<Rightarrow> table_identifier \<Rightarrow> u64 \<Rightarrow> u64 \<Rightarrow> u64 \<Rightarrow> u8 \<Rightarrow> node_key list \<Rightarrow>
   string + 'h list" where
  "db_select_many_double_id_merkle_nodes_max_checkpoint from32 H s table max_checkpoint_id tree_id tree_sub_id
       tree_height keys =
     try_join_all
       (db_select_double_id_merkle_node_max_checkpoint from32 H s table max_checkpoint_id tree_id tree_sub_id
          tree_height) keys"

definition db_insert_double_id_merkle_node ::
  "('h \<Rightarrow> u8 list) \<Rightarrow> table_identifier \<Rightarrow> u64 \<Rightarrow> u64 \<Rightarrow> u64 \<Rightarrow> node_key \<Rightarrow> 'h \<Rightarrow> mem_store \<Rightarrow> mem_store" where
  "db_insert_double_id_merkle_node to32 table checkpoint_id tree_id tree_sub_id key v s =
     with_table s table (btree_insert (key_merkle_double_id tree_id tree_sub_id key checkpoint_id) (to32 v))"

definition db_set_double_id_merkle_nodes_batch ::
  "('h \<Rightarrow> u8 list) \<Rightarrow> table_identifier \<Rightarrow> u64 \<Rightarrow> u64 \<Rightarrow> u64 \<Rightarrow> 'h simple_merkle_node list \<Rightarrow> mem_store \<Rightarrow> mem_store" where
  "db_set_double_id_merkle_nodes_batch to32 table checkpoint_id tree_id tree_sub_id nodes s =
     fold (\<lambda>node. db_insert_double_id_merkle_node to32 table checkpoint_id tree_id tree_sub_id (node_at node)
                    (node_hash node)) nodes s"

definition db_set_double_id_merkle_nodes_from_fast_serialized ::
  "('h \<Rightarrow> u8 list) \<Rightarrow> (u8 list \<Rightarrow> 'h) \<Rightarrow> table_identifier \<Rightarrow> u64 \<Rightarrow> u8 list \<Rightarrow> mem_store \<Rightarrow> mem_store option" where
  "db_set_double_id_merkle_nodes_from_fast_serialized to32 from32 table checkpoint_id nodes s =
     try_for_each
       (\<lambda>chunk s. do { (tree_id, tree_sub_id, level, index, _, value_bytes) \<leftarrow>
                         double_id_signed_insert_tuple chunk checkpoint_id;
                       Some (with_table s table
                         (btree_insert (key_merkle_double_id tree_id tree_sub_id (Node_Key level index) checkpoint_id)
                           (to32 (from32 value_bytes)))) })
       (chunks_exact 57 nodes) s"

section \<open>Deleters and verifiers\<close>

definition db_delete_many_object_checkpoint ::
  "table_identifier \<Rightarrow> (u64 \<times> u64) list \<Rightarrow> mem_store \<Rightarrow> mem_store" where
  "db_delete_many_object_checkpoint table keys s =
     with_table s table
       (fold (\<lambda>(obj_id, checkpoint_id). btree_remove (key_single_id_checkpointed obj_id checkpoint_id)) keys)"

definition db_delete_many_merkle_nodes ::
  "table_identifier \<Rightarrow> (u8 \<times> u64 \<times> u64) list \<Rightarrow> mem_store \<Rightarrow> mem_store" where
  "db_delete_many_merkle_nodes table keys s =
     with_table s table
       (fold (\<lambda>(level, node_index, checkpoint_id).
                btree_remove (key_merkle_zero_id (Node_Key level node_index) checkpoint_id)) keys)"

definition db_delete_many_tree_merkle_nodes ::
  "table_identifier \<Rightarrow> (u64 \<times> u8 \<times> u64 \<times> u64) list \<Rightarrow> mem_store \<Rightarrow> mem_store" where
  "db_delete_many_tree_merkle_nodes table keys s =
     with_table s table
       (fold (\<lambda>(tree_id, level, node_index, checkpoint_id).
                btree_remove (key_merkle_single_id tree_id (Node_Key level node_index) checkpoint_id)) keys)"

definition db_delete_many_tree_subtree_merkle_nodes ::
  "table_identifier \<Rightarrow> (u64 \<times> u64 \<times> u8 \<times> u64 \<times> u64) list \<Rightarrow> mem_store \<Rightarrow> mem_store" where
  "db_delete_many_tree_subtree_merkle_nodes table keys s =
     with_table s table
       (fold (\<lambda>(tree_id, tree_sub_id, level, node_index, checkpoint_id).
                btree_remove (key_merkle_double_id tree_id tree_sub_id (Node_Key level node_index) checkpoint_id))
          keys)"

text \<open>\<open>checked_add(1)\<close> bounds the partition of an id; the last id has no upper bound.\<close>

definition partition_range :: "u64 \<Rightarrow> mem_table \<Rightarrow> mem_table" where
  "partition_range pending_id db =
     (if pending_id = - 1 then range_from (be_bytes 8 pending_id) db
      else range_excl (be_bytes 8 pending_id) (be_bytes 8 (pending_id + 1)) db)"

definition db_delete_many_pending_id_partitions ::
  "table_identifier \<Rightarrow> u64 list \<Rightarrow> mem_store \<Rightarrow> mem_store" where
  "db_delete_many_pending_id_partitions table pending_ids s =
     with_table s table
       (fold (\<lambda>pending_id db. fold btree_remove (map fst (partition_range pending_id db)) db) pending_ids)"

definition contains_key :: "mem_table \<Rightarrow> u8 list \<Rightarrow> bool" where
  "contains_key db k = (map_of db k \<noteq> None)"

definition db_get_existing_object_checkpoints ::
  "mem_store \<Rightarrow> table_identifier \<Rightarrow> (u64 \<times> u64) list \<Rightarrow> (u64 \<times> u64) list" where
  "db_get_existing_object_checkpoints s table keys =
     filter (\<lambda>(obj_id, checkpoint_id).
       contains_key (get_or_create_table s table) (key_single_id_checkpointed obj_id checkpoint_id)) keys"

definition db_get_existing_merkle_nodes ::
  "mem_store \<Rightarrow> table_identifier \<Rightarrow> (u8 \<times> u64 \<times> u64) list \<Rightarrow> (u8 \<times> u64 \<times> u64) list" where
  "db_get_existing_merkle_nodes s table keys =
     filter (\<lambda>(level, node_index, checkpoint_id).
       contains_key (get_or_create_table s table) (key_merkle_zero_id (Node_Key level node_index) checkpoint_id)) keys"

definition db_get_existing_tree_merkle_nodes ::
  "mem_store \<Rightarrow> table_identifier \<Rightarrow> (u64 \<times> u8 \<times> u64 \<times> u64) list \<Rightarrow> (u64 \<times> u8 \<times> u64 \<times> u64) list" where
  "db_get_existing_tree_merkle_nodes s table keys =
     filter (\<lambda>(tree_id, level, node_index, checkpoint_id).
       contains_key (get_or_create_table s table)
         (key_merkle_single_id tree_id (Node_Key level node_index) checkpoint_id)) keys"

definition db_get_existing_tree_subtree_merkle_nodes ::
  "mem_store \<Rightarrow> table_identifier \<Rightarrow> (u64 \<times> u64 \<times> u8 \<times> u64 \<times> u64) list \<Rightarrow>
   (u64 \<times> u64 \<times> u8 \<times> u64 \<times> u64) list" where
  "db_get_existing_tree_subtree_merkle_nodes s table keys =
     filter (\<lambda>(tree_id, tree_sub_id, level, node_index, checkpoint_id).
       contains_key (get_or_create_table s table)
         (key_merkle_double_id tree_id tree_sub_id (Node_Key level node_index) checkpoint_id)) keys"

definition db_get_existing_pending_id_partitions :: "mem_store \<Rightarrow> table_identifier \<Rightarrow> u64 list \<Rightarrow> u64 list" where
  "db_get_existing_pending_id_partitions s table pending_ids =
     filter (\<lambda>pending_id. partition_range pending_id (get_or_create_table s table) \<noteq> []) pending_ids"

end
