(* ===== verification/Versioned_Table.thy ===== *)
theory Versioned_Table
  imports Memory_Merkle
begin

text \<open>
  The contract of the checkpointed tables: a table stands for a map from objects and checkpoints to values,
  and a scan finds the latest version that is not newer than a checkpoint. The locale \<open>versioned_keys\<close> asks
  of a key scheme that its prefixes have one length and are unambiguous; the five schemes of the database
  are interpretations.
\<close>

section \<open>Versions\<close>

text \<open>The version with the greatest checkpoint that is not above \<open>c\<close>.\<close>

definition latest :: "(u64 \<Rightarrow> 'v option) \<Rightarrow> u64 \<Rightarrow> (u64 \<times> 'v) option" where
  "latest f c =
     (if \<forall>d\<le>c. f d = None then None
      else let d = Max {d. d \<le> c \<and> f d \<noteq> None} in Some (d, the (f d)))"

lemma latest_None: "latest f c = None \<longleftrightarrow> (\<forall>d\<le>c. f d = None)"
  by (simp add: latest_def Let_def)

lemma latest_Some:
  "latest f c = Some (d, v) \<longleftrightarrow> d \<le> c \<and> f d = Some v \<and> (\<forall>e. d < e \<and> e \<le> c \<longrightarrow> f e = None)"
proof
  assume a: "latest f c = Some (d, v)"
  let ?D = "{d. d \<le> c \<and> f d \<noteq> None}"
  have ne: "?D \<noteq> {}" using a by (auto simp: latest_def split: if_splits)
  have d: "d = Max ?D" "v = the (f d)" using a by (auto simp: latest_def Let_def split: if_splits)
  have m: "d \<in> ?D" unfolding d(1) using ne by (intro Max_in) auto
  have above: "f e = None" if "d < e" "e \<le> c" for e
  proof (rule ccontr)
    assume "f e \<noteq> None"
    hence "e \<le> Max ?D" using that(2) by (intro Max_ge) auto
    thus False using that(1) d(1) by simp
  qed
  have "d \<le> c" using m by (rule CollectE) (rule conjunct1)
  moreover have "f d = Some v" unfolding d(2) using m by (simp add: option.expand)
  ultimately show "d \<le> c \<and> f d = Some v \<and> (\<forall>e. d < e \<and> e \<le> c \<longrightarrow> f e = None)" using above by blast
next
  assume a: "d \<le> c \<and> f d = Some v \<and> (\<forall>e. d < e \<and> e \<le> c \<longrightarrow> f e = None)"
  have "Max {d. d \<le> c \<and> f d \<noteq> None} = d"
  proof (rule Max_eqI)
    show "e \<le> d" if "e \<in> {d. d \<le> c \<and> f d \<noteq> None}" for e
    proof (rule ccontr)
      assume "\<not> e \<le> d"
      hence "f e = None" using that a by (simp add: not_le)
      thus False using that by simp
    qed
    show "d \<in> {d. d \<le> c \<and> f d \<noteq> None}" using a by simp
  qed (rule finite)
  moreover have "\<not> (\<forall>d\<le>c. f d = None)" using a by (metis option.distinct(1))
  ultimately show "latest f c = Some (d, v)" using a by (simp add: latest_def)
qed

lemma latest_map: "latest (\<lambda>d. map_option g (f d)) c = map_option (\<lambda>(d, v). (d, g v)) (latest f c)"
proof (cases "latest f c")
  case None
  have "latest (\<lambda>d. map_option g (f d)) c = None" using None unfolding latest_None by simp
  thus ?thesis using None by simp
next
  case (Some p)
  then obtain d v where p: "latest f c = Some (d, v)" by (cases p) auto
  hence "latest (\<lambda>d. map_option g (f d)) c = Some (d, g v)" unfolding latest_Some by simp
  thus ?thesis by (simp add: p)
qed

text \<open>Versions above the checkpoint do not matter.\<close>

lemma latest_cong: "(\<And>d. d \<le> c \<Longrightarrow> f d = g d) \<Longrightarrow> latest f c = latest g c"
proof -
  assume a: "\<And>d. d \<le> c \<Longrightarrow> f d = g d"
  show ?thesis
  proof (cases "latest f c")
    case None
    thus ?thesis using a latest_None[of f c] latest_None[of g c] by metis
  next
    case (Some p)
    then obtain d v where p: "latest f c = Some (d, v)" by (cases p) auto
    hence "latest g c = Some (d, v)" using a unfolding latest_Some by metis
    thus ?thesis using p by simp
  qed
qed

lemma latest_insert:
  "latest (f(d \<mapsto> v)) c = (if d \<le> c \<and> (\<forall>e. d < e \<and> e \<le> c \<longrightarrow> f e = None) then Some (d, v) else latest f c)"
proof (cases "d \<le> c \<and> (\<forall>e. d < e \<and> e \<le> c \<longrightarrow> f e = None)")
  case True
  have "latest (f(d \<mapsto> v)) c = Some (d, v)" unfolding latest_Some using True by auto
  thus ?thesis using True by simp
next
  case False
  show ?thesis
  proof (cases "d \<le> c")
    case True
    then obtain e w where e: "d < e" "e \<le> c" "f e = Some w" using False by auto
    obtain d' v' where l: "latest f c = Some (d', v')" using e latest_None[of f c] by (cases "latest f c") auto
    hence "d < d'" using e unfolding latest_Some by (metis not_less order.strict_trans1 option.distinct(1) le_less_linear)
    hence "latest (f(d \<mapsto> v)) c = Some (d', v')" using l unfolding latest_Some by auto
    hence "latest (f(d \<mapsto> v)) c = latest f c" using l by simp
    thus ?thesis unfolding if_not_P[OF \<open>\<not> (d \<le> c \<and> _)\<close>] .
  next
    case dc: False
    have "latest (f(d \<mapsto> v)) c = latest f c" by (rule latest_cong) (use dc in auto)
    thus ?thesis unfolding if_not_P[OF \<open>\<not> (d \<le> c \<and> _)\<close>] .
  qed
qed

section \<open>Prefixes in the order of byte strings\<close>

lemma append_less_iff: "(p @ x :: u8 list) < p @ y \<longleftrightarrow> x < y"
  by (induction p) auto

lemma append_le_iff: "(p @ x :: u8 list) \<le> p @ y \<longleftrightarrow> x \<le> y"
  by (simp add: le_less append_less_iff)

lemma between_prefix:
  assumes "(p @ a :: u8 list) \<le> k" "k \<le> p @ b"
  shows "\<exists>r. k = p @ r \<and> a \<le> r \<and> r \<le> b"
  using assms
proof (induction p arbitrary: k)
  case (Cons x p)
  obtain y k' where k: "k = y # k'" using Cons.prems(1) by (cases k) auto
  have "y = x" using Cons.prems by (auto simp: k)
  thus ?case using Cons.IH[of k'] Cons.prems by (auto simp: k)
qed auto

section \<open>Key schemes\<close>

definition vkey :: "('i \<Rightarrow> u8 list) \<Rightarrow> 'i \<Rightarrow> u64 \<Rightarrow> u8 list" where
  "vkey prefix i c = prefix i @ be_bytes 8 c"

definition table_ok :: "nat \<Rightarrow> mem_table \<Rightarrow> bool" where
  "table_ok n t \<longleftrightarrow> keys_sorted t \<and> (\<forall>e\<in>set t. length (fst e) = n + 8)"

definition represents :: "('i \<Rightarrow> u8 list) \<Rightarrow> nat \<Rightarrow> ('v \<Rightarrow> u8 list) \<Rightarrow> mem_table \<Rightarrow> ('i \<Rightarrow> u64 \<Rightarrow> 'v option) \<Rightarrow> bool" where
  "represents prefix n enc t V \<longleftrightarrow>
     table_ok n t \<and> (\<forall>i d. map_of t (vkey prefix i d) = map_option enc (V i d))"

definition put :: "'i \<Rightarrow> u64 \<Rightarrow> 'v option \<Rightarrow> ('i \<Rightarrow> u64 \<Rightarrow> 'v option) \<Rightarrow> ('i \<Rightarrow> u64 \<Rightarrow> 'v option)" where
  "put i c v V = V(i := (V i)(c := v))"

lemma put_apply: "put i c v V j d = (if j = i \<and> d = c then v else V j d)"
  by (simp add: put_def)

lemma table_ok_insert: "table_ok n t \<Longrightarrow> length k = n + 8 \<Longrightarrow> table_ok n (btree_insert k v t)"
  using btree_insert_sorted[of t k v] by (auto simp: table_ok_def)

lemma table_ok_remove: "table_ok n t \<Longrightarrow> table_ok n (btree_remove k t)"
  by (auto simp: table_ok_def btree_remove_def keys_sorted_filter)

lemma map_of_sorted: "keys_sorted t \<Longrightarrow> map_of t k = Some v \<longleftrightarrow> (k, v) \<in> set t"
  using map_of_eq_Some_iff[OF keys_sorted_distinct] by metis

text \<open>A sorted table is determined by its contents.\<close>

lemma table_ext: "keys_sorted t \<Longrightarrow> keys_sorted u \<Longrightarrow> map_of t = map_of u \<Longrightarrow> t = u"
  by (rule keys_sorted_eq) (auto simp: map_of_sorted[symmetric])

locale versioned_keys =
  fixes prefix :: "'i \<Rightarrow> u8 list" and n :: nat
  assumes prefix_length: "length (prefix i) = n"
    and prefix_inj: "prefix i = prefix j \<Longrightarrow> i = j"
begin

lemma vkey_length: "length (vkey prefix i c) = n + 8"
  by (simp add: vkey_def prefix_length)

lemma vkey_inj: "vkey prefix i c = vkey prefix j d \<longleftrightarrow> i = j \<and> c = d"
  using prefix_inj[of i j] by (auto simp: vkey_def prefix_length be_bytes_inj)

lemma vkey_range:
  assumes "length k = n + 8"
  shows "vkey prefix i a \<le> k \<and> k \<le> vkey prefix i c \<longleftrightarrow> (\<exists>d. k = vkey prefix i d \<and> a \<le> d \<and> d \<le> c)"
proof
  assume "vkey prefix i a \<le> k \<and> k \<le> vkey prefix i c"
  then obtain r where r: "k = prefix i @ r" "be_bytes 8 a \<le> r" "r \<le> be_bytes 8 c"
    using between_prefix[of "prefix i" "be_bytes 8 a" k "be_bytes 8 c"] by (auto simp: vkey_def)
  have "r = be_bytes 8 (from_be_bytes r :: u64)" using assms r(1) by (simp add: prefix_length)
  then obtain d :: u64 where "r = be_bytes 8 d" by blast
  thus "\<exists>d. k = vkey prefix i d \<and> a \<le> d \<and> d \<le> c" using r by (auto simp: vkey_def be_bytes_le_iff)
qed (auto simp: vkey_def append_le_iff be_bytes_le_iff)

lemma range_entries:
  assumes "table_ok n t"
  shows "set (range_incl (vkey prefix i a) (vkey prefix i c) t) =
    {(vkey prefix i d, v) |d v. a \<le> d \<and> d \<le> c \<and> map_of t (vkey prefix i d) = Some v}"
proof -
  have l: "length (fst e) = n + 8" if "e \<in> set t" for e using assms that by (simp add: table_ok_def)
  have s: "keys_sorted t" using assms by (simp add: table_ok_def)
  show ?thesis unfolding map_of_sorted[OF s] range_incl_def
    using vkey_range[OF l, of _ i a c] by fastforce
qed

text \<open>The scan of the versions up to a checkpoint ends at the latest one.\<close>

lemma scan_latest:
  assumes "table_ok n t"
  shows "next_back (range_incl (vkey prefix i 0) (vkey prefix i c) t) =
    map_option (\<lambda>(d, v). (vkey prefix i d, v)) (latest (\<lambda>d. map_of t (vkey prefix i d)) c)"
proof (cases "latest (\<lambda>d. map_of t (vkey prefix i d)) c")
  case None
  hence "set (range_incl (vkey prefix i 0) (vkey prefix i c) t) = {}"
    unfolding latest_None range_entries[OF assms] by force
  thus ?thesis using None by simp
next
  case (Some p)
  let ?r = "range_incl (vkey prefix i 0) (vkey prefix i c) t"
  obtain d v where p: "latest (\<lambda>d. map_of t (vkey prefix i d)) c = Some (d, v)" using Some by (cases p) auto
  have m: "(vkey prefix i d, v) \<in> set ?r" using p unfolding latest_Some range_entries[OF assms] by auto
  obtain e where e: "next_back ?r = Some e" using m by (cases "next_back ?r") auto
  have s: "keys_sorted ?r" using assms by (simp add: table_ok_def range_incl_def keys_sorted_filter)
  note g = next_back_greatest[OF s e]
  obtain d' v' where e': "e = (vkey prefix i d', v')" "d' \<le> c" "map_of t (vkey prefix i d') = Some v'"
    using g(1) unfolding range_entries[OF assms] by auto
  have "vkey prefix i d \<le> vkey prefix i d'" using g(2)[OF m] e'(1) by simp
  hence "d \<le> d'" by (simp add: vkey_def append_le_iff be_bytes_le_iff)
  moreover have "\<not> d < d'"
  proof
    assume "d < d'"
    hence "map_of t (vkey prefix i d') = None" using p e'(2) unfolding latest_Some by blast
    thus False using e'(3) by simp
  qed
  ultimately have "d' = d" by simp
  thus ?thesis using e e' p unfolding latest_Some by (auto simp: latest_Some[symmetric] p)
qed

lemma scan_represents:
  assumes "represents prefix n enc t V"
  shows "next_back (range_incl (vkey prefix i 0) (vkey prefix i c) t) =
    map_option (\<lambda>(d, v). (vkey prefix i d, enc v)) (latest (V i) c)"
proof -
  have "(\<lambda>d. map_of t (vkey prefix i d)) = (\<lambda>d. map_option enc (V i d))" using assms by (auto simp: represents_def)
  moreover have "table_ok n t" using assms by (simp add: represents_def)
  ultimately show ?thesis by (simp add: scan_latest latest_map option.map_comp comp_def case_prod_beta')
qed

lemma represents_empty: "represents prefix n enc [] (\<lambda>_ _. None)"
  by (simp add: represents_def table_ok_def)

lemma represents_insert:
  "represents prefix n enc t V \<Longrightarrow> represents prefix n enc (btree_insert (vkey prefix i c) (enc v) t) (put i c (Some v) V)"
  by (auto simp: represents_def table_ok_insert vkey_length map_of_insert vkey_inj put_apply)

lemma represents_remove:
  "represents prefix n enc t V \<Longrightarrow> represents prefix n enc (btree_remove (vkey prefix i c) t) (put i c None V)"
  by (auto simp: represents_def table_ok_remove map_of_remove vkey_inj put_apply)

lemma represents_removes:
  "represents prefix n enc t V \<Longrightarrow>
   represents prefix n enc (fold (\<lambda>(i, c). btree_remove (vkey prefix i c)) ks t) (fold (\<lambda>(i, c). put i c None) ks V)"
proof (induction ks arbitrary: t V)
  case (Cons p ks)
  obtain i c where p: "p = (i, c)" by (cases p)
  show ?case using Cons.IH[OF represents_remove[OF Cons.prems, of i c]] by (simp add: p)
qed simp

lemma represents_inserts:
  "represents prefix n enc t V \<Longrightarrow>
   represents prefix n enc (fold (\<lambda>(i, c, v). btree_insert (vkey prefix i c) (enc v)) rows t)
     (fold (\<lambda>(i, c, v). put i c (Some v)) rows V)"
proof (induction rows arbitrary: t V)
  case (Cons p rows)
  obtain i c v where p: "p = (i, c, v)" by (cases p)
  show ?case using Cons.IH[OF represents_insert[OF Cons.prems, of i c v]] by (simp add: p)
qed simp

lemma table_ok_inserts:
  "table_ok n t \<Longrightarrow> table_ok n (fold (\<lambda>(i, c, v). btree_insert (vkey prefix i c) (enc v)) rows t)"
proof (induction rows arbitrary: t)
  case (Cons r rows)
  obtain i c v where r: "r = (i, c, v)" by (cases r)
  show ?case using Cons.IH[OF table_ok_insert[OF Cons.prems vkey_length]] by (simp add: r)
qed simp

lemma map_of_inserts_older:
  "(\<And>i c v. (i, c, v) \<in> set rows \<Longrightarrow> d < c) \<Longrightarrow>
   map_of (fold (\<lambda>(i, c, v). btree_insert (vkey prefix i c) (enc v)) rows t) (vkey prefix j d) = map_of t (vkey prefix j d)"
proof (induction rows arbitrary: t)
  case (Cons r rows)
  obtain i c v where r: "r = (i, c, v)" by (cases r)
  have "d < c" using Cons.prems[of i c v] by (simp add: r)
  moreover have "map_of (fold (\<lambda>(i, c, v). btree_insert (vkey prefix i c) (enc v)) rows u) (vkey prefix j d) =
      map_of u (vkey prefix j d)" for u
    by (rule Cons.IH) (rule Cons.prems, erule list.set_intros)
  ultimately show ?case by (auto simp: r map_of_insert vkey_inj)
qed simp

text \<open>Writes at later checkpoints do not change the scans of earlier ones.\<close>

lemma scan_older:
  assumes "table_ok n t" "\<And>j d v. (j, d, v) \<in> set rows \<Longrightarrow> c < d"
  shows "next_back (range_incl (vkey prefix i 0) (vkey prefix i c)
      (fold (\<lambda>(i, c, v). btree_insert (vkey prefix i c) (enc v)) rows t)) =
    next_back (range_incl (vkey prefix i 0) (vkey prefix i c) t)"
proof -
  have "latest (\<lambda>d. map_of (fold (\<lambda>(i, c, v). btree_insert (vkey prefix i c) (enc v)) rows t) (vkey prefix i d)) c =
      latest (\<lambda>d. map_of t (vkey prefix i d)) c"
  proof (rule latest_cong, rule map_of_inserts_older)
    fix d j e v assume "d \<le> c" "(j, e, v) \<in> set rows"
    thus "d < e" using assms(2) by (meson order.strict_trans1)
  qed
  thus ?thesis unfolding scan_latest[OF assms(1)] scan_latest[OF table_ok_inserts[OF assms(1)]] by (rule arg_cong)
qed

text \<open>Entries written where nothing was and removed again leave the table as it was.\<close>

lemma undo_inserts:
  assumes "table_ok n t" "\<And>i c. (i, c) \<in> set ks \<Longrightarrow> map_of t (vkey prefix i c) = None"
    "\<And>i c v. (i, c, v) \<in> set rows \<Longrightarrow> (i, c) \<in> set ks"
  shows "fold (\<lambda>(i, c). btree_remove (vkey prefix i c)) ks
    (fold (\<lambda>(i, c, v). btree_insert (vkey prefix i c) (enc v)) rows t) = t"
proof (rule table_ext)
  let ?K = "(\<lambda>(i, c). vkey prefix i c) ` set ks"
  let ?u = "fold (\<lambda>(i, c, v). btree_insert (vkey prefix i c) (enc v)) rows t"
  have s: "keys_sorted t" using assms(1) by (simp add: table_ok_def)
  have s1: "keys_sorted (fold (\<lambda>(i, c, v). btree_insert (vkey prefix i c) (enc v)) rs x)" if "keys_sorted x" for rs x
    using that by (induction rs arbitrary: x) (auto simp: btree_insert_sorted(2))
  have s2: "keys_sorted (fold (\<lambda>(i, c). btree_remove (vkey prefix i c)) rs x)" if "keys_sorted x" for rs x
    using that by (induction rs arbitrary: x) (auto simp: remove_sorted)
  show "keys_sorted (fold (\<lambda>(i, c). btree_remove (vkey prefix i c)) ks ?u)" by (rule s2[OF s1[OF s]])
  show "keys_sorted t" by (rule s)
  have m1: "map_of (fold (\<lambda>(i, c, v). btree_insert (vkey prefix i c) (enc v)) rs x) k = map_of x k"
    if "k \<notin> ?K" "\<And>i c v. (i, c, v) \<in> set rs \<Longrightarrow> (i, c) \<in> set ks" for rs x k
    using that
  proof (induction rs arbitrary: x)
    case (Cons r rs)
    obtain i c v where r: "r = (i, c, v)" by (cases r)
    have "k \<noteq> vkey prefix i c" using Cons.prems(1) Cons.prems(2)[of i c v] by (force simp: r)
    moreover have "map_of (fold (\<lambda>(i, c, v). btree_insert (vkey prefix i c) (enc v)) rs y) k = map_of y k" for y
      by (rule Cons.IH[OF Cons.prems(1)]) (rule Cons.prems(2), erule list.set_intros)
    ultimately show ?case by (simp add: r map_of_insert)
  qed simp
  have m2: "map_of (fold (\<lambda>(i, c). btree_remove (vkey prefix i c)) rs x) k =
      (if k \<in> (\<lambda>(i, c). vkey prefix i c) ` set rs then None else map_of x k)" for rs x k
    by (induction rs arbitrary: x) (auto simp: map_of_remove)
  show "map_of (fold (\<lambda>(i, c). btree_remove (vkey prefix i c)) ks ?u) = map_of t"
    using m1[OF _ assms(3)] assms(2) by (auto simp: m2 fun_eq_iff)
qed

end

subsection \<open>The schemes of the database\<close>

definition single_prefix :: "u64 \<Rightarrow> u8 list" where
  "single_prefix i = be_bytes 8 i"

definition double_prefix :: "u64 \<times> u64 \<Rightarrow> u8 list" where
  "double_prefix i = be_bytes 8 (fst i) @ be_bytes 8 (snd i)"

definition zero_prefix :: "node_key \<Rightarrow> u8 list" where
  "zero_prefix k = [nk_level k] @ be_bytes 8 (nk_index k)"

definition tree_prefix :: "u64 \<times> node_key \<Rightarrow> u8 list" where
  "tree_prefix i = be_bytes 8 (fst i) @ zero_prefix (snd i)"

definition subtree_prefix :: "u64 \<times> u64 \<times> node_key \<Rightarrow> u8 list" where
  "subtree_prefix i = be_bytes 8 (fst i) @ tree_prefix (snd i)"

lemma key_schemes:
  "key_single_id_checkpointed i c = vkey single_prefix i c"
  "key_double_id_checkpointed i j c = vkey double_prefix (i, j) c"
  "key_merkle_zero_id k c = vkey zero_prefix k c"
  "key_merkle_single_id t k c = vkey tree_prefix (t, k) c"
  "key_merkle_double_id t u k c = vkey subtree_prefix (t, u, k) c"
  by (simp_all add: vkey_def single_prefix_def double_prefix_def zero_prefix_def tree_prefix_def subtree_prefix_def
      key_single_id_checkpointed_def key_double_id_checkpointed_def key_merkle_zero_id_def key_merkle_single_id_def
      key_merkle_double_id_def)

interpretation vsingle: versioned_keys single_prefix 8
  by unfold_locales (simp_all add: single_prefix_def be_bytes_inj)

interpretation vdouble: versioned_keys double_prefix 16
  by unfold_locales (auto simp: double_prefix_def be_bytes_inj prod_eq_iff)

interpretation vzero: versioned_keys zero_prefix 9
proof
  fix i j assume "zero_prefix i = zero_prefix j"
  thus "i = j" by (cases i; cases j) (simp add: zero_prefix_def be_bytes_inj)
qed (simp add: zero_prefix_def)

interpretation vtree: versioned_keys tree_prefix 17
proof
  fix i j assume "tree_prefix i = tree_prefix j"
  hence "fst i = fst j" "zero_prefix (snd i) = zero_prefix (snd j)" by (simp_all add: tree_prefix_def be_bytes_inj)
  thus "i = j" using vzero.prefix_inj by (metis prod_eq_iff)
qed (simp add: tree_prefix_def zero_prefix_def)

interpretation vsubtree: versioned_keys subtree_prefix 25
proof
  fix i j assume "subtree_prefix i = subtree_prefix j"
  hence "fst i = fst j" "tree_prefix (snd i) = tree_prefix (snd j)" by (simp_all add: subtree_prefix_def be_bytes_inj)
  thus "i = j" using vtree.prefix_inj by (metis prod_eq_iff)
qed (simp add: subtree_prefix_def tree_prefix_def zero_prefix_def)

end
