(* ===== verification/Memory_Laws.thy ===== *)
theory Memory_Laws
  imports Versioned_Table
begin

text \<open>
  Properties of the in-memory database: its tables refine maps from objects and checkpoints to values,
  batches of serialized nodes equal batches of nodes, a rollback restores the table, and the ranged dump
  of leaves is exact.
\<close>

section \<open>Tables of a store\<close>

lemma get_with_table:
  "get_or_create_table (with_table s table f) table' =
     (if ti_full_name table' = ti_full_name table then f (get_or_create_table s table) else get_or_create_table s table')"
  by (simp add: get_or_create_table_def with_table_def)

lemma with_table_twice: "with_table (with_table s table f) table g = with_table s table (g \<circ> f)"
  by (simp add: with_table_def get_or_create_table_def)

lemma with_table_same: "f (get_or_create_table s table) = get_or_create_table s table \<Longrightarrow> with_table s table f = s"
  by (simp add: with_table_def get_or_create_table_def)

text \<open>A batch of writes to one table is one write of all entries.\<close>

lemma fold_with_table: "fold (\<lambda>x s. with_table s table (g x)) xs s = with_table s table (fold g xs)"
proof (induction xs arbitrary: s)
  case Nil
  show ?case by (simp add: with_table_same)
next
  case (Cons x xs)
  show ?case by (simp add: Cons with_table_twice comp_def)
qed

lemma try_join_writes_ok:
  "(\<And>x s. f x s = (g x s, Inr ())) \<Longrightarrow> try_join_writes f xs s = (fold g xs s, Inr ())"
  by (induction xs arbitrary: s) auto

lemma try_for_each_ok: "(\<And>x s. x \<in> set xs \<Longrightarrow> f x s = Some (g x s)) \<Longrightarrow> try_for_each f xs s = Some (fold g xs s)"
  by (induction xs arbitrary: s) auto

lemma collect_results_ok:
  "(\<And>x. x \<in> set xs \<Longrightarrow> f x = Some (Inr (g x))) \<Longrightarrow> collect_results f xs = Some (Inr (map g xs))"
  by (induction xs) auto

lemma key_u64_at:
  assumes "length p = a"
  shows "key_u64 a (p @ be_bytes 8 d @ rest) = Some d"
  by (simp add: key_u64_def assms)

lemma key_parts:
  "key_u64 0 (vkey single_prefix i d) = Some i" "key_u64 8 (vkey single_prefix i d) = Some d"
  "key_u64 16 (vkey double_prefix ij d) = Some d"
  "key_u64 (Suc 0) (vkey zero_prefix k d) = Some (nk_index k)" "key_u64 9 (vkey zero_prefix k d) = Some d"
  by (simp_all add: key_u64_def vkey_def single_prefix_def double_prefix_def zero_prefix_def)

section \<open>Objects\<close>

lemma single_key_exhaust: "length k = 16 \<Longrightarrow> \<exists>i d. k = vkey single_prefix i d"
proof -
  assume "length k = 16"
  hence "k = be_bytes 8 (from_be_bytes (take 8 k) :: u64) @ be_bytes 8 (from_be_bytes (drop 8 k) :: u64)" by simp
  thus ?thesis by (metis single_prefix_def vkey_def)
qed

lemma single_insert_rows:
  assumes "\<And>v. to_bytes v = Inr (enc v)"
  shows "db_insert_many_single_checkpointed_object_rows to_bytes table fst (fst \<circ> snd) (snd \<circ> snd) rows s =
    (with_table s table (fold (\<lambda>(i, c, v). btree_insert (vkey single_prefix i c) (enc v)) rows), Inr ())"
proof -
  have "db_insert_many_single_checkpointed_object_rows to_bytes table fst (fst \<circ> snd) (snd \<circ> snd) rows s =
    (fold (\<lambda>r s. with_table s table ((\<lambda>(i, c, v). btree_insert (vkey single_prefix i c) (enc v)) r)) rows s, Inr ())"
    unfolding db_insert_many_single_checkpointed_object_rows_def
    by (rule try_join_writes_ok)
      (simp add: db_insert_one_single_checkpointed_object_def assms key_schemes case_prod_beta)
  thus ?thesis by (simp add: fold_with_table)
qed

lemma single_delete:
  "db_delete_many_object_checkpoint table ks s =
   with_table s table (fold (\<lambda>(i, c). btree_remove (vkey single_prefix i c)) ks)"
  by (simp add: db_delete_many_object_checkpoint_def key_schemes)

lemma single_select:
  assumes "\<And>v. from_slice (enc v) = Inr v" "represents single_prefix 8 enc (get_or_create_table s table) V"
  shows "db_select_one_single_checkpointed_object_value from_slice s table i c = Inr (map_option snd (latest (V i) c))"
    "db_select_one_single_checkpointed_object_value_and_ids from_slice s table i c =
       Some (Inr (map_option (\<lambda>(d, v). (i, d, v)) (latest (V i) c)))"
proof -
  note sc = vsingle.scan_represents[OF assms(2), of i c]
  show "db_select_one_single_checkpointed_object_value from_slice s table i c = Inr (map_option snd (latest (V i) c))"
    by (cases "latest (V i) c")
      (auto simp: db_select_one_single_checkpointed_object_value_def Let_def key_schemes sc assms(1))
  show "db_select_one_single_checkpointed_object_value_and_ids from_slice s table i c =
      Some (Inr (map_option (\<lambda>(d, v). (i, d, v)) (latest (V i) c)))"
    by (cases "latest (V i) c")
      (auto simp: db_select_one_single_checkpointed_object_value_and_ids_def Let_def key_schemes sc assms(1) key_parts)
qed

lemma double_select:
  assumes "\<And>v. from_slice (enc v) = Inr v" "represents double_prefix 16 enc (get_or_create_table s table) V"
  shows "db_select_one_double_checkpointed_object_value from_slice s table i j c =
      Inr (map_option snd (latest (V (i, j)) c))"
    "db_select_one_double_checkpointed_object_value_and_ids from_slice s table i j c =
       Some (Inr (map_option (\<lambda>(d, v). (i, j, d, v)) (latest (V (i, j)) c)))"
proof -
  note sc = vdouble.scan_represents[OF assms(2), of "(i, j)" c]
  show "db_select_one_double_checkpointed_object_value from_slice s table i j c =
      Inr (map_option snd (latest (V (i, j)) c))"
    by (cases "latest (V (i, j)) c")
      (auto simp: db_select_one_double_checkpointed_object_value_def Let_def key_schemes sc assms(1))
  show "db_select_one_double_checkpointed_object_value_and_ids from_slice s table i j c =
      Some (Inr (map_option (\<lambda>(d, v). (i, j, d, v)) (latest (V (i, j)) c)))"
    by (cases "latest (V (i, j)) c")
      (auto simp: db_select_one_double_checkpointed_object_value_and_ids_def Let_def key_schemes sc assms(1) key_parts)
qed

lemma double_insert:
  assumes "\<And>v. to_bytes v = Inr (enc v)" "represents double_prefix 16 enc (get_or_create_table s table) V"
  shows "\<exists>s'. db_insert_one_double_checkpointed_object to_bytes table i j c v s = (s', Inr ()) \<and>
    represents double_prefix 16 enc (get_or_create_table s' table) (put (i, j) c (Some v) V)"
  using vdouble.represents_insert[OF assms(2), of "(i, j)" c v]
  by (simp add: db_insert_one_double_checkpointed_object_def assms(1) key_schemes get_with_table)

text \<open>The whole table is listed, every version once and in key order.\<close>

lemma single_select_all:
  assumes "\<And>v. from_slice (enc v) = Inr v" "represents single_prefix 8 enc (get_or_create_table s table) V"
  shows "\<exists>rows. db_select_all_single_checkpointed_object from_slice s table = Some (Inr rows) \<and>
    set rows = {(i, d, v). V i d = Some v} \<and>
    sorted_wrt (<) (map (\<lambda>(i, d, v). key_single_id_checkpointed i d) rows)"
proof -
  let ?t = "get_or_create_table s table"
  have s: "keys_sorted ?t" and len: "\<forall>e\<in>set ?t. length (fst e) = 16"
    and rep: "\<And>i d. map_of ?t (vkey single_prefix i d) = map_option enc (V i d)"
    using assms(2) by (auto simp: represents_def table_ok_def)
  have ex: "\<exists>i d v. e = (vkey single_prefix i d, enc v) \<and> V i d = Some v" if "e \<in> set ?t" for e
  proof -
    obtain k b where e: "e = (k, b)" by (cases e)
    have "length k = 16" using bspec[OF len that] e by simp
    then obtain i d where k: "k = vkey single_prefix i d" using single_key_exhaust by blast
    have "map_of ?t k = Some b" using that e map_of_sorted[OF s] by simp
    thus ?thesis using rep[of i d] by (auto simp: e k)
  qed
  define f where "f e = (let (i, d) = (the (key_u64 0 (fst e)), the (key_u64 8 (fst e))) in (i, d, the (V i d)))"
    for e :: "u8 list \<times> u8 list"
  have f: "f (vkey single_prefix i d, b) = (i, d, the (V i d))" for i d b by (simp add: f_def key_parts)
  have c: "db_select_all_single_checkpointed_object from_slice s table = Some (Inr (map f ?t))"
    unfolding db_select_all_single_checkpointed_object_def
  proof (rule collect_results_ok)
    fix e assume "e \<in> set ?t"
    then obtain i d v where "e = (vkey single_prefix i d, enc v)" "V i d = Some v" using ex by blast
    thus "do { obj_id \<leftarrow> key_u64 0 (fst e); checkpoint_id \<leftarrow> key_u64 8 (fst e);
      Some (rbind (from_slice (snd e)) (\<lambda>v. Inr (obj_id, checkpoint_id, v))) } = Some (Inr (f e))"
      by (simp add: key_parts f assms(1))
  qed
  have "(i, d, v) \<in> set (map f ?t) \<longleftrightarrow> V i d = Some v" for i d v
  proof
    assume "(i, d, v) \<in> set (map f ?t)"
    then obtain e where e: "e \<in> set ?t" "f e = (i, d, v)" by auto
    obtain i' d' v' where "e = (vkey single_prefix i' d', enc v')" "V i' d' = Some v'" using ex[OF e(1)] by blast
    thus "V i d = Some v" using e(2) by (simp add: f)
  next
    assume v: "V i d = Some v"
    hence "(vkey single_prefix i d, enc v) \<in> set ?t" using rep[of i d] map_of_sorted[OF s] by simp
    thus "(i, d, v) \<in> set (map f ?t)" using f[of i d "enc v"] v by force
  qed
  hence "set (map f ?t) = {(i, d, v). V i d = Some v}" by auto
  moreover have m: "map (\<lambda>(i, d, v). key_single_id_checkpointed i d) (map f ?t) = map fst ?t"
    unfolding map_map by (rule map_cong[OF refl]) (auto simp: key_schemes f dest!: ex)
  ultimately show ?thesis using c s by (intro exI[of _ "map f ?t"]) (simp only: m simp_thms)
qed

section \<open>Nodes\<close>

abbreviation node_of :: "node_key \<times> 'h \<Rightarrow> 'h simple_merkle_node" where
  "node_of e \<equiv> \<lparr>node_at = fst e, node_hash = snd e\<rparr>"

lemma zero_batch:
  "db_set_zero_id_merkle_nodes_batch to32 table c nodes s =
   with_table s table (fold (\<lambda>(i, c, v). btree_insert (vkey zero_prefix i c) (to32 v))
     (map (\<lambda>n. (node_at n, c, node_hash n)) nodes))"
  unfolding db_set_zero_id_merkle_nodes_batch_def db_insert_zero_id_merkle_node_def key_schemes fold_with_table fold_map
  by (simp add: comp_def)

lemma tree_batch:
  "db_set_single_id_merkle_nodes_batch to32 table c t nodes s =
   with_table s table (fold (\<lambda>(i, c, v). btree_insert (vkey tree_prefix i c) (to32 v))
     (map (\<lambda>n. ((t, node_at n), c, node_hash n)) nodes))"
  unfolding db_set_single_id_merkle_nodes_batch_def db_insert_single_id_merkle_node_def key_schemes fold_with_table fold_map
  by (simp add: comp_def)

lemma subtree_batch:
  "db_set_double_id_merkle_nodes_batch to32 table c t u nodes s =
   with_table s table (fold (\<lambda>(i, c, v). btree_insert (vkey subtree_prefix i c) (to32 v))
     (map (\<lambda>n. ((t, u, node_at n), c, node_hash n)) nodes))"
  unfolding db_set_double_id_merkle_nodes_batch_def db_insert_double_id_merkle_node_def key_schemes fold_with_table fold_map
  by (simp add: comp_def)

lemma zero_delete:
  "db_delete_many_merkle_nodes table ks s =
   with_table s table (fold (\<lambda>(i, c). btree_remove (vkey zero_prefix i c)) (map (\<lambda>(l, i, c). (Node_Key l i, c)) ks))"
  by (simp add: db_delete_many_merkle_nodes_def key_schemes fold_map comp_def case_prod_beta')

lemma tree_delete:
  "db_delete_many_tree_merkle_nodes table ks s =
   with_table s table
     (fold (\<lambda>(i, c). btree_remove (vkey tree_prefix i c)) (map (\<lambda>(t, l, i, c). ((t, Node_Key l i), c)) ks))"
  by (simp add: db_delete_many_tree_merkle_nodes_def key_schemes fold_map comp_def case_prod_beta')

lemma subtree_delete:
  "db_delete_many_tree_subtree_merkle_nodes table ks s =
   with_table s table
     (fold (\<lambda>(i, c). btree_remove (vkey subtree_prefix i c)) (map (\<lambda>(t, u, l, i, c). ((t, u, Node_Key l i), c)) ks))"
  by (simp add: db_delete_many_tree_subtree_merkle_nodes_def key_schemes fold_map comp_def case_prod_beta')

context hash32
begin

lemma hash_bytes: "hash_from_bytes from32 (to32 v) = Inr v"
  by (simp add: hash_from_bytes_def length_to32 from_to)

lemma zero_select:
  assumes "represents zero_prefix 9 to32 (get_or_create_table s table) V" "ti_tree_height table \<noteq> 0"
  shows "db_select_zero_id_merkle_node_max_checkpoint from32 H s table c k =
      Some (Inr (case latest (V k) c of Some (d, v) \<Rightarrow> v
        | None \<Rightarrow> get_zero_hash H (unat (ti_tree_height table - nk_level k))))"
    "db_select_zero_id_merkle_node_and_checkpoint_max_checkpoint from32 H s table c k =
      Some (Inr (case latest (V k) c of Some (d, v) \<Rightarrow> (d, v)
        | None \<Rightarrow> (0, get_zero_hash H (unat (ti_tree_height table - nk_level k)))))"
proof -
  note sc = vzero.scan_represents[OF assms(1), of k c]
  show "db_select_zero_id_merkle_node_max_checkpoint from32 H s table c k =
      Some (Inr (case latest (V k) c of Some (d, v) \<Rightarrow> v
        | None \<Rightarrow> get_zero_hash H (unat (ti_tree_height table - nk_level k))))"
    using assms(2) by (cases "latest (V k) c")
      (auto simp: db_select_zero_id_merkle_node_max_checkpoint_def Let_def key_schemes sc hash_bytes)
  show "db_select_zero_id_merkle_node_and_checkpoint_max_checkpoint from32 H s table c k =
      Some (Inr (case latest (V k) c of Some (d, v) \<Rightarrow> (d, v)
        | None \<Rightarrow> (0, get_zero_hash H (unat (ti_tree_height table - nk_level k)))))"
    using assms(2) by (cases "latest (V k) c")
      (auto simp: db_select_zero_id_merkle_node_and_checkpoint_max_checkpoint_def Let_def key_schemes sc hash_bytes
        key_parts)
qed

lemma tree_select:
  assumes "represents tree_prefix 17 to32 (get_or_create_table s table) V"
  shows "db_select_single_id_merkle_node_max_checkpoint from32 H s table c t h k =
    Inr (case latest (V (t, k)) c of Some (d, v) \<Rightarrow> v | None \<Rightarrow> get_zero_hash H (unat (h - nk_level k)))"
  by (cases "latest (V (t, k)) c")
    (auto simp: db_select_single_id_merkle_node_max_checkpoint_def Let_def key_schemes hash_bytes
      vtree.scan_represents[OF assms])

lemma subtree_select:
  assumes "represents subtree_prefix 25 to32 (get_or_create_table s table) V"
  shows "db_select_double_id_merkle_node_max_checkpoint from32 H s table c t u h k =
    Inr (case latest (V (t, u, k)) c of Some (d, v) \<Rightarrow> v | None \<Rightarrow> get_zero_hash H (unat (h - nk_level k)))"
  by (cases "latest (V (t, u, k)) c")
    (auto simp: db_select_double_id_merkle_node_max_checkpoint_def Let_def key_schemes hash_bytes
      vsubtree.scan_represents[OF assms])

text \<open>The serialized forms of the entries of a hash map are written like the nodes themselves.\<close>

lemma tree_chunks:
  "chunks_exact 49 (serialize_single_id_hash_map_to_vec to32 t es) =
   map (\<lambda>(k, v). serialize_single_id_node_to_fixed to32
     \<lparr>s_tree_id = t, s_level = nk_level k, s_index = nk_index k, s_value = v\<rparr>) es"
  unfolding serialize_single_id_hash_map_to_vec_def serialize_single_id_node_to_fixed_def
  using chunks_exact_concat[of 49 "map (\<lambda>(k, v). le_bytes 8 t @ nk_level k # le_bytes 8 (nk_index k) @ to32 v) es"]
  by (simp add: length_to32 case_prod_beta)

lemma subtree_chunks:
  "chunks_exact 57 (serialize_double_id_hash_map_to_vec to32 t u es) =
   map (\<lambda>(k, v). serialize_double_id_node_to_fixed to32
     \<lparr>d_tree_id = t, d_tree_sub_id = u, d_level = nk_level k, d_index = nk_index k, d_value = v\<rparr>) es"
  unfolding serialize_double_id_hash_map_to_vec_def serialize_double_id_node_to_fixed_def
  using chunks_exact_concat[of 57
      "map (\<lambda>(k, v). le_bytes 8 t @ le_bytes 8 u @ nk_level k # le_bytes 8 (nk_index k) @ to32 v) es"]
  by (simp add: length_to32 case_prod_beta)

lemma try_for_each_map:
  "(\<And>x s. f (g x) s = Some (h x s)) \<Longrightarrow> try_for_each f (map g xs) s = Some (fold h xs s)"
  by (induction xs arbitrary: s) auto

lemma zero_fast:
  "db_set_zero_id_merkle_nodes_from_fast_serialized to32 from32 table c (serialize_zero_id_hash_map_to_vec to32 es) s =
   Some (db_set_zero_id_merkle_nodes_batch to32 table c (map node_of es) s)"
  unfolding db_set_zero_id_merkle_nodes_from_fast_serialized_def db_set_zero_id_merkle_nodes_batch_def zero_chunks fold_map
  by (rule try_for_each_map)
    (use zero_tuple_rt[where rest = "[]"] in
      \<open>simp add: case_prod_beta from_to db_insert_zero_id_merkle_node_def comp_def\<close>)

lemma tree_fast:
  "db_set_single_id_merkle_nodes_from_fast_serialized to32 from32 table c
     (serialize_single_id_hash_map_to_vec to32 t es) s =
   Some (db_set_single_id_merkle_nodes_batch to32 table c t (map node_of es) s)"
  unfolding db_set_single_id_merkle_nodes_from_fast_serialized_def db_set_single_id_merkle_nodes_batch_def tree_chunks fold_map
  by (rule try_for_each_map)
    (use single_tuple_rt[where rest = "[]"] in
      \<open>simp add: case_prod_beta from_to db_insert_single_id_merkle_node_def comp_def\<close>)

lemma subtree_fast:
  "db_set_double_id_merkle_nodes_from_fast_serialized to32 from32 table c
     (serialize_double_id_hash_map_to_vec to32 t u es) s =
   Some (db_set_double_id_merkle_nodes_batch to32 table c t u (map node_of es) s)"
  unfolding db_set_double_id_merkle_nodes_from_fast_serialized_def db_set_double_id_merkle_nodes_batch_def subtree_chunks
    fold_map
  by (rule try_for_each_map)
    (use double_tuple_rt[where rest = "[]"] in
      \<open>simp add: case_prod_beta from_to db_insert_double_id_merkle_node_def comp_def\<close>)

end

section \<open>Rollback\<close>

lemma existing_nodes_iff:
  "db_get_existing_merkle_nodes s table ks = filter (\<lambda>(l, i, c).
     map_of (get_or_create_table s table) (vkey zero_prefix (Node_Key l i) c) \<noteq> None) ks"
  by (simp add: db_get_existing_merkle_nodes_def contains_key_def key_schemes)

abbreviation node_keys :: "u64 \<Rightarrow> 'h simple_merkle_node list \<Rightarrow> (u8 \<times> u64 \<times> u64) list" where
  "node_keys c nodes \<equiv> map (\<lambda>n. (nk_level (node_at n), nk_index (node_at n), c)) nodes"

lemma inserted_present:
  "(i, c) \<in> set (map (\<lambda>(i, c, v). (i, c)) rows) \<Longrightarrow>
   map_of (fold (\<lambda>(i, c, v). btree_insert (vkey p i c) (enc v)) rows t) (vkey p i c) \<noteq> None"
proof (induction rows arbitrary: t)
  case (Cons r rows)
  have keep: "map_of (fold (\<lambda>(i, c, v). btree_insert (vkey p i c) (enc v)) rs u) k \<noteq> None" if "map_of u k \<noteq> None" for rs u k
    using that by (induction rs arbitrary: u) (auto simp: map_of_insert)
  obtain j d v where r: "r = (j, d, v)" by (cases r)
  show ?case
  proof (cases "(i, c) \<in> set (map (\<lambda>(i, c, v). (i, c)) rows)")
    case True
    thus ?thesis using Cons.IH by (simp only: fold.simps comp_def not_False_eq_True)
  next
    case False
    hence "i = j" "c = d" using Cons.prems by (auto simp: r)
    thus ?thesis using keep[of "btree_insert (vkey p j d) (enc v) t" "vkey p j d" rows]
      by (simp add: r map_of_insert)
  qed
qed simp

lemma zero_older:
  assumes "table_ok 9 (get_or_create_table s table)" "c' < c"
  shows "db_select_zero_id_merkle_node_max_checkpoint from32 H (db_set_zero_id_merkle_nodes_batch to32 table c nodes s) table c' k =
    db_select_zero_id_merkle_node_max_checkpoint from32 H s table c' k"
proof -
  have "next_back (range_incl (vkey zero_prefix k 0) (vkey zero_prefix k c') (fold (\<lambda>(i, c, v). btree_insert (vkey zero_prefix i c) (to32 v))
      (map (\<lambda>n. (node_at n, c, node_hash n)) nodes) (get_or_create_table s table))) =
    next_back (range_incl (vkey zero_prefix k 0) (vkey zero_prefix k c') (get_or_create_table s table))"
    by (rule vzero.scan_older[OF assms(1)]) (use assms(2) in auto)
  thus ?thesis unfolding db_select_zero_id_merkle_node_max_checkpoint_def zero_batch get_with_table key_schemes Let_def
    by (simp only: simp_thms if_True)
qed

lemma zero_undo:
  assumes "table_ok 9 (get_or_create_table s table)" "db_get_existing_merkle_nodes s table (node_keys c nodes) = []"
  shows "db_delete_many_merkle_nodes table (node_keys c nodes) (db_set_zero_id_merkle_nodes_batch to32 table c nodes s) = s"
proof -
  have none: "map_of (get_or_create_table s table) (vkey zero_prefix (node_at n) c) = None" if "n \<in> set nodes" for n
    using assms(2) that unfolding existing_nodes_iff filter_empty_conv by auto
  have ks: "map (\<lambda>(l, i, c). (Node_Key l i, c)) (node_keys c nodes) = map (\<lambda>n. (node_at n, c)) nodes" by simp
  show ?thesis unfolding zero_delete zero_batch with_table_twice comp_def ks
    by (rule with_table_same, rule vzero.undo_inserts[OF assms(1)]) (use none in auto)
qed

lemma zero_reported:
  "db_get_existing_merkle_nodes (db_set_zero_id_merkle_nodes_batch to32 table c nodes s) table (node_keys c nodes) =
   node_keys c nodes"
proof -
  have "map_of (fold (\<lambda>(i, c, v). btree_insert (vkey zero_prefix i c) (to32 v)) (map (\<lambda>n. (node_at n, c, node_hash n)) nodes)
      (get_or_create_table s table)) (vkey zero_prefix (node_at n) c) \<noteq> None" if "n \<in> set nodes" for n
    by (rule inserted_present) (use that in auto)
  thus ?thesis unfolding existing_nodes_iff zero_batch get_with_table filter_id_conv by auto
qed

section \<open>Dumps\<close>

lemma append_le_equal_length:
  "length x = length y \<Longrightarrow> (x @ u :: u8 list) \<le> y @ v \<longleftrightarrow> x < y \<or> (x = y \<and> u \<le> v)"
  by (induction x y rule: list_induct2) auto

lemma zero_key_range:
  "vkey zero_prefix (Node_Key h a) 0 \<le> vkey zero_prefix k d \<and> vkey zero_prefix k d \<le> vkey zero_prefix (Node_Key h b) (- 1) \<longleftrightarrow>
   nk_level k = h \<and> a \<le> nk_index k \<and> nk_index k \<le> b"
proof -
  have 1: "be_bytes 8 a @ be_bytes 8 (0 :: u64) \<le> be_bytes 8 i @ be_bytes 8 d \<longleftrightarrow> a \<le> i" for i
    using order.order_iff_strict[of a i]
    by (simp add: append_le_equal_length be_bytes_less_iff be_bytes_le_iff be_bytes_inj)
  have 2: "be_bytes 8 i @ be_bytes 8 d \<le> be_bytes 8 b @ be_bytes 8 (- 1 :: u64) \<longleftrightarrow> i \<le> b" for i
    using order.order_iff_strict[of i b]
    by (simp add: append_le_equal_length be_bytes_less_iff be_bytes_le_iff be_bytes_inj)
  show ?thesis by (auto simp: vkey_def zero_prefix_def 1 2)
qed

lemma zero_key_exhaust: "length k = 17 \<Longrightarrow> \<exists>i d. k = vkey zero_prefix i d"
proof -
  assume l: "length k = 17"
  then obtain x r where k: "k = x # r" "length r = 16" by (cases k) auto
  hence "k = vkey zero_prefix (Node_Key x (from_be_bytes (take 8 r))) (from_be_bytes (drop 8 r))"
    by (simp add: vkey_def zero_prefix_def)
  thus ?thesis by blast
qed

lemma map_of_entries_last: "map_of_entries es i = map_option snd (next_back (filter (\<lambda>e. fst e = i) es))"
  by (induction es rule: rev_induct) (auto simp: map_of_entries_def next_back_def)

lemma next_back_map: "next_back (map f xs) = map_option f (next_back xs)"
  by (simp add: next_back_def last_map)

text \<open>One entry of the ranged dump, for the key of a node.\<close>

definition dump_pick :: "(u8 list \<Rightarrow> 'h) \<Rightarrow> u64 \<Rightarrow> u64 \<Rightarrow> u64 \<Rightarrow> u8 list \<times> u8 list \<Rightarrow> (u64 \<times> 'h) option" where
  "dump_pick from32 c a b e =
     (let i = the (key_u64 1 (fst e)); d = the (key_u64 9 (fst e))
      in if i < a \<or> i > b \<or> d > c then None else Some (i, from32 (snd e)))"

lemma dump_pick_vkey:
  "dump_pick from32 c a b (vkey zero_prefix k d, v) =
   (if nk_index k < a \<or> nk_index k > b \<or> d > c then None else Some (nk_index k, from32 v))"
  by (simp add: dump_pick_def key_parts)

context hash32
begin

lemma dump_entries:
  assumes "represents zero_prefix 9 to32 t V" "xs = range_incl lo hi t"
  shows "collect_results (dump_range_entry from32 c a b) xs = Some (Inr (map (dump_pick from32 c a b) xs))"
proof (rule collect_results_ok)
  have s: "keys_sorted t" and len: "\<forall>e\<in>set t. length (fst e) = 17"
    and rep: "\<And>k d. map_of t (vkey zero_prefix k d) = map_option to32 (V k d)"
    using assms(1) by (auto simp: represents_def table_ok_def)
  fix e assume "e \<in> set xs"
  hence e: "e \<in> set t" by (simp add: assms(2) range_incl_def)
  obtain k d where kd: "fst e = vkey zero_prefix k d" using zero_key_exhaust bspec[OF len e] by blast
  have "map_of t (fst e) = Some (snd e)" using e map_of_sorted[OF s] by simp
  then obtain z where "snd e = to32 z" using rep[of k d] kd by (metis map_option_eq_Some)
  hence "length (snd e) = 32" by (simp add: length_to32)
  thus "dump_range_entry from32 c a b e = Some (Inr (dump_pick from32 c a b e))"
    by (auto simp: dump_range_entry_def dump_pick_def kd key_parts hash_from_bytes_def)
qed

lemma dump_index:
  assumes "table_ok 9 t" "a \<le> i" "i \<le> b"
  shows "filter (\<lambda>e. dump_pick from32 c a b e \<noteq> None \<and> fst (the (dump_pick from32 c a b e)) = i)
      (range_incl (vkey zero_prefix (Node_Key h a) 0) (vkey zero_prefix (Node_Key h b) (- 1)) t) =
    range_incl (vkey zero_prefix (Node_Key h i) 0) (vkey zero_prefix (Node_Key h i) c) t"
  unfolding range_incl_def filter_filter
proof (rule filter_cong[OF refl])
  fix e assume "e \<in> set t"
  hence l: "length (fst e) = 9 + 8" using assms(1) by (simp add: table_ok_def)
  then obtain k d where kd: "fst e = vkey zero_prefix k d" using zero_key_exhaust[of "fst e"] by auto
  obtain v where e: "e = (vkey zero_prefix k d, v)" using kd by (cases e) simp
  have r: "(vkey zero_prefix (Node_Key h i) 0 \<le> fst e \<and> fst e \<le> vkey zero_prefix (Node_Key h i) c) =
      (k = Node_Key h i \<and> d \<le> c)"
    using vzero.vkey_range[OF l, of "Node_Key h i" 0 c] unfolding kd vzero.vkey_inj by auto
  have q: "k = Node_Key h i \<longleftrightarrow> nk_level k = h \<and> nk_index k = i" by (cases k) auto
  show "((vkey zero_prefix (Node_Key h a) 0 \<le> fst e \<and> fst e \<le> vkey zero_prefix (Node_Key h b) (- 1)) \<and>
      dump_pick from32 c a b e \<noteq> None \<and> fst (the (dump_pick from32 c a b e)) = i) =
    (vkey zero_prefix (Node_Key h i) 0 \<le> fst e \<and> fst e \<le> vkey zero_prefix (Node_Key h i) c)"
    unfolding r using zero_key_range[of h a k d b] assms(2,3) by (auto simp: e dump_pick_vkey q)
qed

lemma dump_range:
  assumes "represents zero_prefix 9 to32 (get_or_create_table s table) V"
  shows "\<exists>m. db_dump_zero_id_merkle_node_leaves_range from32 s table c a b = Some (Inr m) \<and>
    (\<forall>i. m i = (if a \<le> i \<and> i \<le> b then map_option snd (latest (V (Node_Key (ti_tree_height table) i)) c) else None))"
proof (cases "a > b")
  case True
  thus ?thesis by (auto simp: db_dump_zero_id_merkle_node_leaves_range_def dest: order.strict_trans2)
next
  case False
  let ?t = "get_or_create_table s table" and ?h = "ti_tree_height table"
  let ?xs = "range_incl (vkey zero_prefix (Node_Key ?h a) 0) (vkey zero_prefix (Node_Key ?h b) (- 1)) ?t"
  let ?g = "dump_pick from32 c a b"
  let ?m = "map_of_entries (flatten_options (map ?g ?xs))"
  have d: "db_dump_zero_id_merkle_node_leaves_range from32 s table c a b = Some (Inr ?m)"
    using False dump_entries[OF assms refl]
    by (simp add: db_dump_zero_id_merkle_node_leaves_range_def Let_def key_schemes)
  have f: "filter (\<lambda>e. fst e = i) (flatten_options (map ?g ?xs)) =
      map (the \<circ> ?g) (filter (\<lambda>e. ?g e \<noteq> None \<and> fst (the (?g e)) = i) ?xs)" for i
    by (simp add: flatten_options_def List.map_filter_def filter_map comp_def conj_commute)
  have ok: "table_ok 9 ?t" using assms by (simp add: represents_def)
  have "?m i = (if a \<le> i \<and> i \<le> b then map_option snd (latest (V (Node_Key ?h i)) c) else None)" for i
  proof (cases "a \<le> i \<and> i \<le> b")
    case True
    have "?m i = map_option snd (map_option (the \<circ> ?g)
        (map_option (\<lambda>(d, v). (vkey zero_prefix (Node_Key ?h i) d, to32 v)) (latest (V (Node_Key ?h i)) c)))"
      unfolding map_of_entries_last f next_back_map dump_index[OF ok conjunct1[OF True] conjunct2[OF True]]
        vzero.scan_represents[OF assms] ..
    also have "\<dots> = map_option snd (latest (V (Node_Key ?h i)) c)"
      using True by (cases "latest (V (Node_Key ?h i)) c") (auto simp: dump_pick_vkey from_to latest_Some not_less)
    finally show ?thesis using True by simp
  next
    case False
    have "filter (\<lambda>e. ?g e \<noteq> None \<and> fst (the (?g e)) = i) ?xs = []"
      using False by (auto simp: filter_empty_conv dump_pick_def Let_def not_less split: if_splits)
    hence "?m i = None" unfolding map_of_entries_last f by simp
    thus ?thesis unfolding if_not_P[OF False] .
  qed
  thus ?thesis using d by blast
qed

end

text \<open>
  The unranged dumps bound the checkpoint only at the last index: an older index is dumped with a version
  newer than the requested checkpoint.
\<close>

lemma dump_all_newer:
  "let table = \<lparr>ti_full_name = ''t'', ti_tree_height = 1\<rparr>;
       s = db_insert_zero_id_merkle_node id table 5 (Node_Key 1 0) (replicate 32 7) mem_store_new
   in db_dump_all_zero_id_merkle_node_leaves_vec id s table 2 =
        Some (Inr [\<lparr>node_at = Node_Key 1 0, node_hash = replicate 32 7\<rparr>]) \<and>
      db_select_zero_id_merkle_node_max_checkpoint id (mk_hasher (\<lambda>a b. a) (replicate 32 0)) s table 2 (Node_Key 1 0) =
        Some (Inr (replicate 32 0))"
  by code_simp

text \<open>Deleting the partition of an id removes exactly the keys that start with its bytes.\<close>

lemma partition_prefix:
  assumes "8 \<le> length k"
  shows "(k, v) \<in> set (partition_range p db) \<longleftrightarrow> (k, v) \<in> set db \<and> take 8 k = be_bytes 8 p"
proof -
  define x where "x = take 8 k"
  define r where "r = drop 8 k"
  have k: "k = x @ r" "length x = 8" using assms by (simp_all add: x_def r_def)
  define q :: u64 where "q = from_be_bytes x"
  have x: "x = be_bytes 8 q" using k(2) by (simp add: q_def)
  have lo: "be_bytes 8 y \<le> k \<longleftrightarrow> y \<le> q" for y :: u64
    using append_le_equal_length[of "be_bytes 8 y" x "[]" r] order.order_iff_strict[of y q]
    by (simp add: k x be_bytes_less_iff be_bytes_inj)
  have hi: "k < be_bytes 8 y \<longleftrightarrow> q < y" for y :: u64 unfolding not_le[symmetric] lo ..
  have eq: "p \<le> q \<and> (p = - 1 \<or> q < p + 1) \<longleftrightarrow> q = p"
  proof (cases "p = - 1")
    case True
    thus ?thesis using word_order.extremum_unique by auto
  next
    case False
    hence "unat (1 + p) = Suc (unat p)" by (intro unatSuc) (simp add: add_eq_0_iff)
    hence "q < p + 1 \<longleftrightarrow> q \<le> p" by (simp add: word_less_nat_alt word_le_nat_alt add.commute less_Suc_eq_le)
    thus ?thesis using False by auto
  qed
  show ?thesis
    using lo hi eq unfolding partition_range_def x_def[symmetric] x be_bytes_inj[of 8 q p, simplified]
    by (auto simp: range_from_def range_excl_def be_bytes_inj)
qed

section \<open>Properties\<close>

text \<open>
  C15. A table of objects refines a map from objects and checkpoints to values, for a serializer that
  succeeds and round-trips. A batch of rows and a batch of deletions update the map entry by entry; a read
  returns the latest version that is not newer than the requested checkpoint, with its checkpoint; the
  listing returns every version once, in key order; and tables of other names are untouched.
\<close>

theorem object_table_refines:
  assumes "\<And>v. to_bytes v = Inr (enc v)" "\<And>v. from_slice (enc v) = Inr v"
    "represents single_prefix 8 enc (get_or_create_table s table) V"
  shows "(\<exists>s'. db_insert_many_single_checkpointed_object_rows to_bytes table fst (fst \<circ> snd) (snd \<circ> snd) rows s = (s', Inr ()) \<and>
      represents single_prefix 8 enc (get_or_create_table s' table) (fold (\<lambda>(i, c, v). put i c (Some v)) rows V) \<and>
      (ti_full_name other = ti_full_name table \<or> get_or_create_table s' other = get_or_create_table s other)) \<and>
    represents single_prefix 8 enc (get_or_create_table (db_delete_many_object_checkpoint table ks s) table)
      (fold (\<lambda>(i, c). put i c None) ks V) \<and>
    db_select_one_single_checkpointed_object_value from_slice s table i c = Inr (map_option snd (latest (V i) c)) \<and>
    db_select_one_single_checkpointed_object_value_and_ids from_slice s table i c =
      Some (Inr (map_option (\<lambda>(d, v). (i, d, v)) (latest (V i) c))) \<and>
    (\<exists>all. db_select_all_single_checkpointed_object from_slice s table = Some (Inr all) \<and>
      set all = {(i, d, v). V i d = Some v} \<and>
      sorted_wrt (<) (map (\<lambda>(i, d, v). key_single_id_checkpointed i d) all))"
  unfolding single_insert_rows[OF assms(1)] single_delete
  using vsingle.represents_inserts[OF assms(3), of rows] vsingle.represents_removes[OF assms(3), of ks]
    single_select[OF assms(2,3), of i c] single_select_all[OF assms(2,3)]
  by (intro conjI exI[of _ "with_table s table (fold (\<lambda>(i, c, v). btree_insert (vkey single_prefix i c) (enc v)) rows)"])
    (simp_all add: get_with_table)

theorem object_table_refines_witness:
  "let table = \<lparr>ti_full_name = ''users'', ti_tree_height = 0\<rparr>;
       dec = (\<lambda>bs. Inr (from_le_bytes bs) :: string + u64);
       s = fst (db_insert_many_single_checkpointed_object_rows (\<lambda>v. Inr (le_bytes 8 (v :: u64))) table fst (fst \<circ> snd)
             (snd \<circ> snd) [(3, 5, 50), (3, 9, 90)] mem_store_new)
   in db_select_one_single_checkpointed_object_value dec s table 3 8 = Inr (Some 50)"
proof -
  let ?T = "\<lparr>ti_full_name = ''users'', ti_tree_height = 0\<rparr>" and ?R = "[(3, 5, 50), (3, 9, 90)] :: (u64 \<times> u64 \<times> u64) list"
  let ?I = "\<lambda>v :: u64. Inr (le_bytes 8 v) :: string + u8 list" and ?D = "\<lambda>bs. Inr (from_le_bytes bs) :: string + u64"
  have 0: "represents single_prefix 8 (le_bytes 8 :: u64 \<Rightarrow> u8 list) (get_or_create_table mem_store_new ?T) (\<lambda>_ _. None)"
    using vsingle.represents_empty by (simp add: get_or_create_table_def mem_store_new_def)
  have e: "?I v = Inr (le_bytes 8 v)" "?D (le_bytes 8 v) = Inr v" for v by simp_all
  obtain s' where s: "db_insert_many_single_checkpointed_object_rows ?I ?T fst (fst \<circ> snd) (snd \<circ> snd) ?R mem_store_new =
      (s', Inr ())" "represents single_prefix 8 (le_bytes 8 :: u64 \<Rightarrow> u8 list) (get_or_create_table s' ?T)
      (fold (\<lambda>(i, c, v). put i c (Some v)) ?R (\<lambda>_ _. None))"
    using object_table_refines[of ?I "le_bytes 8" ?D, OF e 0, where rows = ?R] by blast
  have l: "latest (fold (\<lambda>(i, c, v). put i c (Some v)) ?R (\<lambda>_ _. None) 3) 8 = Some (5, 50)"
    unfolding latest_Some by (auto simp: put_apply)
  have "db_select_one_single_checkpointed_object_value ?D s' ?T 3 8 = Inr (Some 50)"
    using object_table_refines[of ?I "le_bytes 8" ?D, OF e s(2), where i = 3 and c = 8] l by simp
  thus ?thesis using s(1) by (simp add: Let_def)
qed

text \<open>
  C16. The three kinds of Merkle tables refine maps from nodes and checkpoints to hashes: a batch writes its
  nodes at the checkpoint, and a read returns the latest version that is not newer than the requested
  checkpoint, or the zero hash of the node's level.
\<close>

theorem merkle_tables_refine:
  assumes "hash32 to32 from32"
    "represents zero_prefix 9 to32 (get_or_create_table s t0) V0" "ti_tree_height t0 \<noteq> 0"
    "represents tree_prefix 17 to32 (get_or_create_table s t1) V1"
    "represents subtree_prefix 25 to32 (get_or_create_table s t2) V2"
  shows "represents zero_prefix 9 to32 (get_or_create_table (db_set_zero_id_merkle_nodes_batch to32 t0 c nodes s) t0)
      (fold (\<lambda>n. put (node_at n) c (Some (node_hash n))) nodes V0) \<and>
    db_select_zero_id_merkle_node_max_checkpoint from32 H s t0 c k =
      Some (Inr (case latest (V0 k) c of Some (d, v) \<Rightarrow> v | None \<Rightarrow> get_zero_hash H (unat (ti_tree_height t0 - nk_level k)))) \<and>
    represents tree_prefix 17 to32 (get_or_create_table (db_set_single_id_merkle_nodes_batch to32 t1 c a nodes s) t1)
      (fold (\<lambda>n. put (a, node_at n) c (Some (node_hash n))) nodes V1) \<and>
    db_select_single_id_merkle_node_max_checkpoint from32 H s t1 c a h k =
      Inr (case latest (V1 (a, k)) c of Some (d, v) \<Rightarrow> v | None \<Rightarrow> get_zero_hash H (unat (h - nk_level k))) \<and>
    represents subtree_prefix 25 to32 (get_or_create_table (db_set_double_id_merkle_nodes_batch to32 t2 c a b nodes s) t2)
      (fold (\<lambda>n. put (a, b, node_at n) c (Some (node_hash n))) nodes V2) \<and>
    db_select_double_id_merkle_node_max_checkpoint from32 H s t2 c a b h k =
      Inr (case latest (V2 (a, b, k)) c of Some (d, v) \<Rightarrow> v | None \<Rightarrow> get_zero_hash H (unat (h - nk_level k)))"
  using vzero.represents_inserts[OF assms(2), of "map (\<lambda>n. (node_at n, c, node_hash n)) nodes"]
    vtree.represents_inserts[OF assms(4), of "map (\<lambda>n. ((a, node_at n), c, node_hash n)) nodes"]
    vsubtree.represents_inserts[OF assms(5), of "map (\<lambda>n. ((a, b, node_at n), c, node_hash n)) nodes"]
    hash32.zero_select(1)[OF assms(1-3), of H c k] hash32.tree_select[OF assms(1,4), of H c a h k]
    hash32.subtree_select[OF assms(1,5), of H c a b h k]
  by (simp add: zero_batch tree_batch subtree_batch get_with_table fold_map comp_def)

theorem merkle_tables_refine_witness:
  "let table = \<lparr>ti_full_name = ''tree'', ti_tree_height = 4\<rparr>; H = mk_hasher (\<lambda>a b. a) (QHashOut 0 0 0 0);
       s = db_set_zero_id_merkle_nodes_batch into_owned_32bytes table 6
         [\<lparr>node_at = Node_Key 4 2, node_hash = QHashOut 1 2 3 4\<rparr>] mem_store_new
   in db_select_zero_id_merkle_node_max_checkpoint from_owned_32bytes H s table 7 (Node_Key 4 2) =
        Some (Inr (QHashOut 1 2 3 4)) \<and>
      db_select_zero_id_merkle_node_max_checkpoint from_owned_32bytes H s table 5 (Node_Key 4 2) =
        Some (Inr (get_zero_hash H 0))"
proof -
  let ?T = "\<lparr>ti_full_name = ''tree'', ti_tree_height = 4\<rparr>" and ?O = "\<lparr>ti_full_name = ''other'', ti_tree_height = 0\<rparr>"
  let ?N = "[\<lparr>node_at = Node_Key 4 2, node_hash = QHashOut 1 2 3 4\<rparr>]" and ?H = "mk_hasher (\<lambda>a b. a) (QHashOut 0 0 0 0)"
  let ?s = "db_set_zero_id_merkle_nodes_batch into_owned_32bytes ?T 6 ?N mem_store_new"
  have e: "get_or_create_table mem_store_new t = []" for t by (simp add: get_or_create_table_def mem_store_new_def)
  have o: "get_or_create_table ?s ?O = []" by (simp add: zero_batch get_with_table e)
  note m = merkle_tables_refine[OF qhash.hash32_axioms _ _ vtree.represents_empty[folded o] vsubtree.represents_empty[folded o]]
  have "represents zero_prefix 9 into_owned_32bytes (get_or_create_table ?s ?T)
      (fold (\<lambda>n. put (node_at n) 6 (Some (node_hash n))) ?N (\<lambda>_ _. None))"
    using merkle_tables_refine[OF qhash.hash32_axioms vzero.represents_empty[folded e[of ?T]] _
        vtree.represents_empty[folded e[of ?O]] vsubtree.represents_empty[folded e[of ?O]], of 6 ?N] by simp
  note r = m[OF this, of _ "[]" ?H]
  have "latest (fold (\<lambda>n. put (node_at n) 6 (Some (node_hash n))) ?N (\<lambda>_ _. None) (Node_Key 4 2)) 7 = Some (6, QHashOut 1 2 3 4)"
    unfolding latest_Some by (simp add: put_apply)
  moreover have "latest (fold (\<lambda>n. put (node_at n) 6 (Some (node_hash n))) ?N (\<lambda>_ _. None) (Node_Key 4 2)) 5 = None"
    unfolding latest_None by (simp add: put_apply)
  ultimately show ?thesis using r[of 7 "Node_Key 4 2"] r[of 5 "Node_Key 4 2"] by (simp add: Let_def)
qed

text \<open>
  C29. Writing a hash map of nodes in its serialized form never panics and leaves the database exactly as
  writing the nodes one by one, for the trees without id, with one id and with two ids.
\<close>

theorem fast_serialized_same:
  assumes "hash32 to32 from32"
  shows "db_set_zero_id_merkle_nodes_from_fast_serialized to32 from32 table c (serialize_zero_id_hash_map_to_vec to32 es) s =
      Some (db_set_zero_id_merkle_nodes_batch to32 table c (map node_of es) s) \<and>
    db_set_single_id_merkle_nodes_from_fast_serialized to32 from32 table c (serialize_single_id_hash_map_to_vec to32 t es) s =
      Some (db_set_single_id_merkle_nodes_batch to32 table c t (map node_of es) s) \<and>
    db_set_double_id_merkle_nodes_from_fast_serialized to32 from32 table c (serialize_double_id_hash_map_to_vec to32 t u es) s =
      Some (db_set_double_id_merkle_nodes_batch to32 table c t u (map node_of es) s)"
  by (intro conjI hash32.zero_fast[OF assms] hash32.tree_fast[OF assms] hash32.subtree_fast[OF assms])

theorem fast_serialized_same_witness:
  "db_set_zero_id_merkle_nodes_from_fast_serialized into_owned_32bytes from_owned_32bytes
     \<lparr>ti_full_name = ''tree'', ti_tree_height = 4\<rparr> 6
     (serialize_zero_id_hash_map_to_vec into_owned_32bytes [(Node_Key 4 2, QHashOut 1 2 3 4)]) mem_store_new =
   Some (db_set_zero_id_merkle_nodes_batch into_owned_32bytes \<lparr>ti_full_name = ''tree'', ti_tree_height = 4\<rparr> 6
     [\<lparr>node_at = Node_Key 4 2, node_hash = QHashOut 1 2 3 4\<rparr>] mem_store_new)"
  using fast_serialized_same[OF qhash.hash32_axioms, of "\<lparr>ti_full_name = ''tree'', ti_tree_height = 4\<rparr>" 6
      "[(Node_Key 4 2, QHashOut 1 2 3 4)]" mem_store_new] by simp

text \<open>
  C17. A checkpoint can be rolled back. After a batch of nodes is written at a checkpoint where none of
  them was stored, every read at an earlier checkpoint returns what it returned before, the verifier reports
  exactly the written nodes, and deleting them restores the database.
\<close>

theorem merkle_rollback:
  assumes "table_ok 9 (get_or_create_table s table)"
    "db_get_existing_merkle_nodes s table (node_keys c nodes) = []"
  shows "(\<forall>c'<c. db_select_zero_id_merkle_node_max_checkpoint from32 H (db_set_zero_id_merkle_nodes_batch to32 table c nodes s) table c' k =
      db_select_zero_id_merkle_node_max_checkpoint from32 H s table c' k) \<and>
    db_get_existing_merkle_nodes (db_set_zero_id_merkle_nodes_batch to32 table c nodes s) table (node_keys c nodes) =
      node_keys c nodes \<and>
    db_delete_many_merkle_nodes table (node_keys c nodes) (db_set_zero_id_merkle_nodes_batch to32 table c nodes s) = s"
  using zero_older[OF assms(1)] zero_undo[OF assms] zero_reported by blast

theorem merkle_rollback_witness:
  "db_delete_many_merkle_nodes \<lparr>ti_full_name = ''tree'', ti_tree_height = 4\<rparr> [(4, 2, 6)]
     (db_set_zero_id_merkle_nodes_batch into_owned_32bytes \<lparr>ti_full_name = ''tree'', ti_tree_height = 4\<rparr> 6
       [\<lparr>node_at = Node_Key 4 2, node_hash = QHashOut 1 2 3 4\<rparr>] mem_store_new) = mem_store_new"
proof -
  let ?T = "\<lparr>ti_full_name = ''tree'', ti_tree_height = 4\<rparr>" and ?N = "[\<lparr>node_at = Node_Key 4 2, node_hash = QHashOut 1 2 3 4\<rparr>]"
  have "table_ok 9 (get_or_create_table mem_store_new ?T)" "db_get_existing_merkle_nodes mem_store_new ?T (node_keys 6 ?N) = []"
    by (simp_all add: get_or_create_table_def mem_store_new_def table_ok_def existing_nodes_iff)
  note m = merkle_rollback[OF this, where ?to32.0 = into_owned_32bytes]
  from conjunct2[OF conjunct2[OF m]] show ?thesis by simp
qed

text \<open>
  C30. The ranged dump of leaves is exact: it returns for every index of the range, and for no other, the
  latest leaf that is not newer than the checkpoint.
\<close>

theorem dump_range_exact:
  assumes "hash32 to32 from32" "represents zero_prefix 9 to32 (get_or_create_table s table) V"
  shows "\<exists>m. db_dump_zero_id_merkle_node_leaves_range from32 s table c a b = Some (Inr m) \<and>
    (\<forall>i. m i = (if a \<le> i \<and> i \<le> b then map_option snd (latest (V (Node_Key (ti_tree_height table) i)) c) else None))"
  by (rule hash32.dump_range[OF assms])

theorem dump_range_exact_witness:
  "\<exists>m. db_dump_zero_id_merkle_node_leaves_range from_owned_32bytes
      (db_insert_zero_id_merkle_node into_owned_32bytes \<lparr>ti_full_name = ''tree'', ti_tree_height = 4\<rparr> 6 (Node_Key 4 2)
         (QHashOut 1 2 3 4) mem_store_new) \<lparr>ti_full_name = ''tree'', ti_tree_height = 4\<rparr> 7 1 3 = Some (Inr m) \<and>
     m 2 = Some (QHashOut 1 2 3 4) \<and> m 3 = None"
proof -
  let ?T = "\<lparr>ti_full_name = ''tree'', ti_tree_height = 4\<rparr>"
  let ?s = "db_insert_zero_id_merkle_node into_owned_32bytes ?T 6 (Node_Key 4 2) (QHashOut 1 2 3 4) mem_store_new"
  let ?V = "put (Node_Key 4 2) 6 (Some (QHashOut 1 2 3 4)) (\<lambda>_ _. None)"
  have "represents zero_prefix 9 into_owned_32bytes (get_or_create_table ?s ?T) ?V"
    using vzero.represents_insert[OF vzero.represents_empty, of into_owned_32bytes "Node_Key 4 2" 6 "QHashOut 1 2 3 4"]
    by (simp add: db_insert_zero_id_merkle_node_def with_table_def key_schemes get_or_create_table_def mem_store_new_def)
  note d = dump_range_exact[OF qhash.hash32_axioms this, of 7 1 3]
  have "latest (?V (Node_Key 4 2)) 7 = Some (6, QHashOut 1 2 3 4)" unfolding latest_Some by (simp add: put_apply)
  moreover have "latest (?V (Node_Key 4 3)) 7 = None" unfolding latest_None by (simp add: put_apply)
  ultimately show ?thesis using d by auto
qed

end
