(* ===== verification/Spec2Isabelle.thy ===== *)
theory Spec2Isabelle
  imports Merkle_Planner Dash_Store P2p_Lookup Consensus Reassembly User_Id Realm_Rotation Tree_Planner Nca_Update Nca_Wire Indexed_Laws Job_Laws Memory_Laws
begin

text \<open>
  Verification of the Psy node (Rust workspace under \<open>src/\<close>): the Merkle trees that hold its state, the
  planners that turn updates into proving jobs, the realm's peer-to-peer protocol, and the in-memory
  database.

  \<^bold>\<open>The program.\<close> Users belong to realms; a realm collects their proofs, aggregates them along a tree of
  jobs and proposes a state update, which the realm's validators vote on; the coordinator aggregates the
  realms. State lives in Merkle trees, kept in memory while a block is built and written to a database with
  the checkpoint of the block. The parts modelled here are those that decide what these services compute.
  Paths below are relative to \<open>src/\<close>.

  \<^bold>\<open>Conventions.\<close> A struct is a record, an enum a datatype, a machine integer a word of its width; \<open>usize\<close>
  counts are \<open>nat\<close>. Arithmetic wraps and shifts mask their amount, as in the release profile. A panic is \<open>None\<close>, a
  \<open>Result\<close> a sum with the error on the left, mutable state an argument that is returned. Hash functions, SHA-256,
  \<open>blst\<close> and the serializers of generic values are parameters; what is used of them is a hypothesis.
  A definition has the name of its function in the source, with a prefix for the type where names clash.

  \<^bold>\<open>Theories.\<close>
  \<^item> \<open>Psy_Prelude\<close>, \<open>Codec\<close>, \<open>Ordered_Map\<close>: words and their bytes; the error monad, readers and the contracts
    \<open>codec\<close> and \<open>strict_codec\<close> between an encoder and its reader; \<open>BTreeMap\<close> and \<open>SkipMap\<close> as sorted lists.
  \<^item> \<open>Node_Key\<close>, \<open>Nca_Planner\<close>, \<open>Merkle_Planner\<close> (\<open>parth_core/src/data/hash/merkle_node_key.rs\<close>,
    \<open>merkle_planner.rs\<close>): keys of tree nodes, the planner that aggregates leaves at their nearest common
    ancestors, and its drivers. The schedule consumes every input once, the second planner yields the
    jobs of the first in order, and a run conserves every measure of the inputs.
  \<^item> \<open>Psy_Io\<close>, \<open>Merkle_Proof\<close>, \<open>Spiderman\<close> (\<open>psy_io\<close>, \<open>parth_core/src/crypto/hash/{traits/merkle,merkle_proof,spiderman}.rs\<close>):
    hashing, membership, delta and batch-append proofs and their bytes. Accepted proofs bind: different
    values for one position exhibit a collision, and a batch proof implies a delta proof per leaf.
  \<^item> \<open>Nca_Proof\<close>, \<open>Nca_Update\<close>, \<open>Nca_Wire\<close> (\<open>parth_core/src/crypto/hash/nca/nca_proof.rs\<close>): proofs that join two
    updates, their dependency levels and serialization.
  \<^item> \<open>Store_Trait\<close>, \<open>Store_Laws\<close>, \<open>Store_Batch\<close>, \<open>Store_Paths\<close> (\<open>parth_common/src/memory_stores/traits.rs\<close>): the
    provided methods of the store trait over four required ones. The locale \<open>node_store\<close> is the contract of
    these; inside it every method refines an operation on the array of leaves. \<open>Dash_Store\<close>
    (\<open>dash_tree.rs\<close>, \<open>dash_tree_recorder.rs\<close>) and \<open>Mem_Tree\<close> (\<open>mem_tree_v3.rs\<close>) interpret it.
  \<^item> \<open>Indexed_Tree\<close>, \<open>Indexed_Laws\<close> (\<open>indexed_merkle_tree.rs\<close>): a tree of linked leaves that refines a finite map,
    with sound and complete proofs of membership and absence.
  \<^item> \<open>Tree_Planner\<close> (\<open>psy_data/src/tree_planner\<close>), \<open>Job_Id\<close>, \<open>Job_Laws\<close> (\<open>psy_core/src/job/job_id.rs\<close>,
    \<open>parth_core/src/job_id_base.rs\<close>): the level-by-level plan of jobs, and job ids with their byte forms and
    aggregation.
  \<^item> \<open>User_Id\<close> (\<open>psy_core/src/user_id.rs\<close>), \<open>Realm_Rotation\<close> (\<open>parth_common/src/realm_rotation.rs\<close>): the six
    strategies for user ids, each a bijection that agrees with its circuit, and the proposer schedule.
  \<^item> \<open>P2p_Wire\<close>, \<open>P2p_Messages\<close>, \<open>P2p_Lookup\<close> (\<open>psy_data/src/p2p\<close>): the wire messages; decoders accept exactly
    the encodings. \<open>Consensus\<close> (\<open>bls.rs\<close>, \<open>psy_node_common/src/realm/processor/consensus.rs\<close>): votes and
    certificates. \<open>Reassembly\<close> (\<open>psy_node_common/src/realm/network/reassembly.rs\<close>): bodies from chunks, with the
    book of reassemblies as a step relation.
  \<^item> \<open>Node_Bytes\<close> (\<open>parth_core/src/data/hash/fast_node_serializer\<close>), \<open>Memory_Db\<close>, \<open>Memory_Merkle\<close>
    (\<open>psy_node_store_memory/src/v2/cbs_store.rs\<close>): serialized nodes and the checkpointed tables of the database.
    \<open>Versioned_Table\<close> holds the contract \<open>versioned_keys\<close> of a key scheme and its five interpretations;
    \<open>Memory_Laws\<close> shows that tables refine maps of versions, that serialized batches equal plain ones,
    and that a checkpoint can be rolled back.
  \<^item> This theory: a store written to the database and read back.

  \<^bold>\<open>Termination.\<close> No definition takes fuel. Loops whose end depends on the data are \<open>partial_function (option)\<close>;
  the theorems on planners, keys and stores state that they return. The other loops have termination proofs.

  \<^bold>\<open>Bounds.\<close> Store properties take trees of height at most 63, the range in which a leaf index and its shifts fit
  a 64-bit word; batch sizes, validator counts and body lengths are bounded as the checks of the code bound them.

  \<^bold>\<open>Not modelled.\<close> Interleavings of threads on one store, and parallel insertion of chunks (\<open>parallel_rayon\<close>): the
  models run one operation at a time. Circuits and provers, whose meaning is that of the proving system. The
  asynchronous services, database and queue drivers and command line tools, which are input and output around
  the modelled parts. Derived encodings and macros, random generators and debug printing. The other tables of the
  in-memory database, the validator tree, tag trees, the older memory stores, and the client workspace
  (\<open>client_prover\<close>), which is a program of its own.
\<close>

section \<open>A tree through the database\<close>

lemma put_entries:
  assumes "distinct (map fst es)"
  shows "fold (\<lambda>n. put (node_at n) c (Some (node_hash n))) (map node_of es) V k d =
    (if d = c \<and> map_of es k \<noteq> None then map_of es k else V k d)"
  using assms
proof (induction es arbitrary: V)
  case (Cons e es)
  have "map_of es (fst e) = None" using Cons.prems by (simp add: map_of_eq_None_iff)
  thus ?case using Cons by (auto simp: put_apply)
qed simp

lemma latest_single: "c \<le> c' \<Longrightarrow> latest (\<lambda>d. if d = c then x else None) c' = map_option (Pair c) x"
  by (cases x) (auto simp: latest_None latest_Some)

lemma dash_vals_node:
  "dash_stores t z d f \<Longrightarrow> valid_key k \<Longrightarrow> lev k \<le> unat (ds_height d) \<Longrightarrow>
   dash_vals (mk_hasher t z) d k = node_val t (unat (ds_height d)) f k"
  by (simp add: dash_stores_def tree_rep_def)

text \<open>
  C9. A concurrent store written to the database reads back as the same tree: when the entries of its
  node map, in any order, are serialized and written to an empty table at a checkpoint, the write does not
  panic, and at every later checkpoint each node reads as the hash of its subtree of leaves, the nodes
  that are absent from the map included.
\<close>

theorem persisted_tree_reads_back:
  assumes "hash32 to32 from32" "dash_stores t z d f" "ds_height d \<noteq> 0"
    "distinct (map fst es)" "map_of es = ds_nodes d"
    "get_or_create_table s table = []" "ti_tree_height table = ds_height d"
    "c \<le> c'" "valid_key k" "lev k \<le> unat (ds_height d)"
  shows "\<exists>s'. db_set_zero_id_merkle_nodes_from_fast_serialized to32 from32 table c
      (serialize_zero_id_hash_map_to_vec to32 es) s = Some s' \<and>
    db_select_zero_id_merkle_node_max_checkpoint from32 (mk_hasher t z) s' table c' k =
      Some (Inr (node_val t (unat (ds_height d)) f k))"
proof -
  let ?s = "db_set_zero_id_merkle_nodes_batch to32 table c (map node_of es) s"
  let ?V = "fold (\<lambda>n. put (node_at n) c (Some (node_hash n))) (map node_of es) (\<lambda>_ _. None)"
  have "represents zero_prefix 9 to32 (get_or_create_table ?s table) ?V"
    using vzero.represents_inserts[OF vzero.represents_empty, of to32 "map (\<lambda>n. (node_at n, c, node_hash n)) (map node_of es)"]
    by (simp add: zero_batch get_with_table assms(6) fold_map comp_def)
  note sel = hash32.zero_select(1)[OF assms(1) this, of "mk_hasher t z" c' k]
  have "?V k = (\<lambda>d. if d = c then map_of es k else None)"
    by (rule ext) (auto simp: put_entries[OF assms(4)] simp del: map_map fold_map)
  hence "latest (?V k) c' = map_option (Pair c) (ds_nodes d k)" by (simp only: latest_single[OF assms(8)] assms(5))
  moreover have "unat (ds_height d - nk_level k) = unat (ds_height d) - lev k"
    using assms(10) by (simp add: unat_sub word_le_nat_alt)
  ultimately have "db_select_zero_id_merkle_node_max_checkpoint from32 (mk_hasher t z) ?s table c' k =
      Some (Inr (dash_vals (mk_hasher t z) d k))"
    using sel assms(3,7) by (cases "ds_nodes d k") (simp_all add: dash_vals_def)
  thus ?thesis using hash32.zero_fast[OF assms(1)] dash_vals_node[OF assms(2,9,10)] by auto
qed

lemma sample_store:
  fixes z q :: q_hash_out
  defines "H \<equiv> mk_hasher (\<lambda>a b. a) z"
  shows "dash_stores (\<lambda>a b. a) z \<lparr>ds_nodes = [Node_Key 1 0 \<mapsto> q, Node_Key 0 0 \<mapsto> q], ds_height = 1,
    ds_zero_value_hashes = [get_zero_hash H 0, get_zero_hash H 1]\<rparr> ((\<lambda>_. z)(0 := q))"
proof -
  have zero: "get_zero_hash H 0 = z" unfolding H_def by (rule mk.get_zero_0)
  have keys: "k = Node_Key 0 0 \<or> k = Node_Key 1 0 \<or> k = Node_Key 1 1" if "valid_key k" "lev k \<le> 1" for k
  proof -
    obtain l i where k: "k = Node_Key l i" by (cases k)
    have l: "l = 0 \<or> l = 1" using that(2) by (auto simp: k le_Suc_eq word_unat_eq_iff)
    have "drop_bit (unat l) i = 0" using that(1) by (simp add: valid_key_def k)
    moreover have "i = 0 \<or> i = 1" if "drop_bit 1 i = 0"
    proof -
      have "unat (drop_bit 1 i) = 0" using that by simp
      hence "unat i div 2 = 0" unfolding unat_drop_bit_eq by (simp add: drop_bit_eq_div[where 'a = nat])
      hence "unat i = 0 \<or> unat i = 1" by auto
      thus ?thesis by (simp add: word_unat_eq_iff)
    qed
    ultimately show ?thesis using l by (auto simp: k)
  qed
  show ?thesis unfolding dash_stores_def tree_rep_def
    by (auto simp: dash_inv_def dash_vals_def node_val_def zero H_def[symmetric] dest!: keys)
qed

theorem persisted_tree_reads_back_witness:
  "let z = QHashOut 0 0 0 0; q = QHashOut 1 2 3 4; table = \<lparr>ti_full_name = ''tree'', ti_tree_height = 1\<rparr>
   in \<exists>s'. db_set_zero_id_merkle_nodes_from_fast_serialized into_owned_32bytes from_owned_32bytes table 4
        (serialize_zero_id_hash_map_to_vec into_owned_32bytes [(Node_Key 1 0, q), (Node_Key 0 0, q)]) mem_store_new = Some s' \<and>
      db_select_zero_id_merkle_node_max_checkpoint from_owned_32bytes (mk_hasher (\<lambda>a b. a) z) s' table 9 (Node_Key 0 0) =
        Some (Inr (node_val (\<lambda>a b. a) 1 ((\<lambda>_. z)(0 := q)) (Node_Key 0 0)))"
  unfolding Let_def
  using persisted_tree_reads_back[OF qhash.hash32_axioms sample_store[of "QHashOut 0 0 0 0" "QHashOut 1 2 3 4"],
      of "[(Node_Key 1 0, QHashOut 1 2 3 4), (Node_Key 0 0, QHashOut 1 2 3 4)]" mem_store_new
      "\<lparr>ti_full_name = ''tree'', ti_tree_height = 1\<rparr>" 4 9 "Node_Key 0 0"]
  by (simp add: get_or_create_table_def mem_store_new_def valid_key_def fun_upd_twist)

end
